(* ===== verification/Prelude.thy ===== *)
theory Prelude
  imports Complex_Main "HOL-Library.Word" "HOL-Library.AList" "HOL-Library.Multiset"
begin

text \<open>
  Shared vocabulary of the development: bytes and text, results that carry an error,
  steps that may throw after having already changed the state, the association lists that
  stand for \<open>std::unordered_map\<close>, and the FIFO queue interface.  The collections
  \<open>model_defs\<close> (definitions of small operations that proofs unfold) and
  \<open>inv_intros\<close> (preservation of the components' invariants) are filled by the
  component theories.
\<close>

named_theorems model_defs "definitions of small operations, unfolded by proofs"
named_theorems inv_intros "every operation preserves its component's invariant"

section \<open>Bytes and text\<close>

type_synonym byte = "8 word"
type_synonym u16 = "16 word"
type_synonym u32 = "32 word"
type_synonym u64 = "64 word"

lemma unat_bound: "unat (w :: 'a::len word) < 2 ^ LENGTH('a)"
  by (rule unsigned_less)

lemma unat_bounds:
  "unat (a :: byte) < 256" "unat (b :: u16) < 65536" "unat (c :: u32) < 4294967296"
  "unat (d :: u64) < 18446744073709551616"
  using unat_bound [of a] unat_bound [of b] unat_bound [of c] unat_bound [of d] by simp_all

text \<open>A cast to a width that can hold the value keeps the value.\<close>

lemma unat_ucast_fits:
  assumes "unat (w :: 'a::len word) < 2 ^ LENGTH('b::len)"
  shows "unat (ucast w :: 'b word) = unat w"
  using assms by (simp add: unsigned_ucast_eq take_bit_nat_eq_self)

text \<open>
  A \<open>std::vector<std::uint8_t>\<close> is a list of bytes, a \<open>std::string\<close> a list of
  characters; both have 8 bits, and \<open>reinterpret_cast\<close> or an iterator-range copy
  converts between them byte by byte.
\<close>

definition byte_of_char :: "char \<Rightarrow> byte" where
  "byte_of_char c = word_of_nat (of_char c)"

definition char_of_byte :: "byte \<Rightarrow> char" where
  "char_of_byte b = char_of (unat b)"

definition to_bytes :: "string \<Rightarrow> byte list" where
  "to_bytes s = map byte_of_char s"

definition to_text :: "byte list \<Rightarrow> string" where
  "to_text bs = map char_of_byte bs"

lemma char_of_byte_of_char [simp]: "char_of_byte (byte_of_char c) = c"
proof -
  have "(of_char c :: nat) < 256" by simp
  then show ?thesis
    by (simp add: char_of_byte_def byte_of_char_def unat_of_nat)
qed

lemma byte_of_char_of_byte [simp]: "byte_of_char (char_of_byte b) = b"
proof -
  have "unat b < 256" by (rule unat_bounds(1))
  then show ?thesis
    by (simp add: char_of_byte_def byte_of_char_def)
qed

lemma to_text_to_bytes [simp]: "to_text (to_bytes s) = s"
  by (simp add: to_text_def to_bytes_def comp_def)

lemma to_bytes_to_text [simp]: "to_bytes (to_text bs) = bs"
  by (simp add: to_text_def to_bytes_def comp_def)

lemma length_to_bytes [simp]: "length (to_bytes s) = length s"
  by (simp add: to_bytes_def)

lemma length_to_text [simp]: "length (to_text bs) = length bs"
  by (simp add: to_text_def)

lemma to_bytes_append [simp]: "to_bytes (s @ t) = to_bytes s @ to_bytes t"
  by (simp add: to_bytes_def)

lemma to_text_append [simp]: "to_text (bs @ cs) = to_text bs @ to_text cs"
  by (simp add: to_text_def)

lemma to_bytes_inject [simp]: "to_bytes s = to_bytes t \<longleftrightarrow> s = t"
  by (metis to_text_to_bytes)

text \<open>\<open>std::string_view\<close> up to the first occurrence of a character, as
  \<open>find\<close> followed by \<open>substr(0, idx)\<close> gives it.\<close>

definition before_char :: "char \<Rightarrow> string \<Rightarrow> string" where
  "before_char c s = takeWhile (\<lambda>d. d \<noteq> c) s"

lemma before_char_id: "c \<notin> set s \<Longrightarrow> before_char c s = s"
  by (auto simp: before_char_def takeWhile_eq_all_conv)

lemma before_char_append: "c \<notin> set s \<Longrightarrow> before_char c (s @ c # t) = s"
  by (induction s) (auto simp: before_char_def)

lemma before_char_replicate: "c \<notin> set s \<Longrightarrow> before_char c (s @ replicate n c) = s"
  by (cases n) (simp_all add: before_char_id before_char_append)

lemma not_in_before_char: "c \<notin> set (before_char c s)"
  by (auto simp: before_char_def dest: set_takeWhileD)

lemma length_before_char: "length (before_char c s) \<le> length s"
  by (simp add: before_char_def length_takeWhile_le)

section \<open>Exceptions\<close>

text \<open>
  The exceptions of the C++ standard library that the source throws or catches.  A call
  that throws before it changed anything is a value of \<open>exn + 'a\<close>; a step that can
  throw half way keeps the state it reached: \<open>'s \<times> exn option\<close>.
\<close>

datatype exn =
    InvalidArgument string
  | LengthError string
  | LogicError string
  | OutOfRange string
  | RuntimeError string
  | SystemError string

text \<open>Running a step on the result of one that may have thrown.\<close>

definition and_then :: "'e + 'a \<Rightarrow> ('a \<Rightarrow> 'e + 'b) \<Rightarrow> 'e + 'b" where
  "and_then m f = (case m of Inl e \<Rightarrow> Inl e | Inr a \<Rightarrow> f a)"

lemma and_then_simps [simp]: "and_then (Inl e) f = Inl e" "and_then (Inr a) f = f a"
  by (simp_all add: and_then_def)

lemma and_then_Inr_iff: "and_then m f = Inr b \<longleftrightarrow> (\<exists>a. m = Inr a \<and> f a = Inr b)"
  by (cases m) simp_all

section \<open>Unordered maps as association lists\<close>

text \<open>
  A \<open>std::unordered_map\<close> that the source iterates over is an association list without
  duplicate keys; the list order stands for the container's (unspecified) iteration order.
\<close>

definition wf_alist :: "('k \<times> 'v) list \<Rightarrow> bool" where
  "wf_alist m \<longleftrightarrow> distinct (map fst m)"

lemma wf_alist_Nil [simp]: "wf_alist []"
  by (simp add: wf_alist_def)

lemma wf_alist_update [inv_intros]: "wf_alist m \<Longrightarrow> wf_alist (AList.update k v m)"
  by (simp add: wf_alist_def distinct_update)

lemma wf_alist_delete [inv_intros]: "wf_alist m \<Longrightarrow> wf_alist (AList.delete k m)"
  by (simp add: wf_alist_def distinct_delete)

lemma wf_alist_filter [inv_intros]: "wf_alist m \<Longrightarrow> wf_alist (filter P m)"
  by (auto simp: wf_alist_def distinct_map intro: inj_on_subset)

lemma map_of_filter_wf:
  "wf_alist m \<Longrightarrow>
   map_of (filter P m) k = (case map_of m k of None \<Rightarrow> None | Some v \<Rightarrow> if P (k, v) then Some v else None)"
proof (induction m)
  case (Cons kv m)
  obtain k' v' where kv: "kv = (k', v')" by (cases kv)
  from Cons.prems have wf: "wf_alist m" and k': "k' \<notin> fst ` set m"
    by (auto simp: wf_alist_def kv)
  from k' have "map_of m k' = None" by (simp add: map_of_eq_None_iff)
  then show ?case using Cons.IH [OF wf] by (auto simp: kv)
qed simp

lemma map_of_SomeI: "wf_alist m \<Longrightarrow> (k, v) \<in> set m \<Longrightarrow> map_of m k = Some v"
  by (simp add: wf_alist_def)

section \<open>FIFO queues\<close>

text \<open>
  The interface of \<open>ThreadSafeQueue\<close> and of \<open>std::queue\<close> as the components use
  them: what is pushed comes out in order, and nothing else does.
\<close>

locale fifo_queue =
  fixes q_empty :: "'q"
    and q_push :: "'a \<Rightarrow> 'q \<Rightarrow> 'q"
    and q_drain :: "'q \<Rightarrow> 'a list \<times> 'q"
    and q_size :: "'q \<Rightarrow> nat"
  assumes drain_empty: "q_drain q_empty = ([], q_empty)"
    and drain_push: "fst (q_drain (q_push a q)) = fst (q_drain q) @ [a]"
    and drain_leaves_empty: "snd (q_drain q) = q_empty"
    and size_drain: "q_size q = length (fst (q_drain q))"
begin

lemma drain_pushes: "fst (q_drain (fold q_push as q)) = fst (q_drain q) @ as"
  by (induction as arbitrary: q) (simp_all add: drain_push)

lemma drain_fifo: "fst (q_drain (fold q_push as q_empty)) = as"
  by (simp add: drain_pushes drain_empty)

lemma drain_twice: "q_drain (snd (q_drain q)) = ([], q_empty)"
  by (simp add: drain_leaves_empty drain_empty)

lemma size_pushes: "q_size (fold q_push as q) = q_size q + length as"
  by (simp add: size_drain drain_pushes)

end

section \<open>Lists\<close>

lemma foldl_append_init:
  "foldl (\<lambda>acc x. acc @ f x) acc xs = acc @ foldl (\<lambda>acc x. acc @ f x) [] xs"
proof (induction xs arbitrary: acc)
  case (Cons x xs)
  show ?case
    using Cons.IH [of "acc @ f x"] Cons.IH [of "f x"] by simp
qed simp

lemma foldl_append_concat: "foldl (\<lambda>acc x. acc @ f x) acc xs = acc @ concat (map f xs)"
  by (induction xs arbitrary: acc) simp_all

lemma set_update_cases: "x \<in> set (xs[i := y]) \<Longrightarrow> x = y \<or> x \<in> set xs"
  using set_update_subset_insert by fastforce

text \<open>A key that no two kept elements share makes the kept keys distinct.\<close>

lemma distinct_map_filter_nth:
  assumes "\<And>i j. i < length xs \<Longrightarrow> j < length xs \<Longrightarrow> P (xs ! i) \<Longrightarrow> P (xs ! j) \<Longrightarrow> f (xs ! i) = f (xs ! j) \<Longrightarrow> i = j"
  shows "distinct (map f (filter P xs))"
  using assms
proof (induction xs)
  case (Cons x xs)
  have "i = j" if "i < length xs" "j < length xs" "P (xs ! i)" "P (xs ! j)" "f (xs ! i) = f (xs ! j)" for i j
    using Cons.prems [of "Suc i" "Suc j"] that by simp
  then have "distinct (map f (filter P xs))" by (rule Cons.IH)
  moreover have "f x \<notin> f ` set (filter P xs)" if "P x"
  proof
    assume "f x \<in> f ` set (filter P xs)"
    then obtain j where "j < length xs" "P (xs ! j)" "f x = f (xs ! j)" by (auto simp: in_set_conv_nth)
    then show False using Cons.prems [of 0 "Suc j"] that by simp
  qed
  ultimately show ?case by simp
qed simp

end
