(* ===== verification/ByteIO.thy ===== *)
theory ByteIO
  imports Prelude
begin

text \<open>
  The classes \<open>ByteWriter\<close> and \<open>ByteReader\<close> of src/src/common/game_snapshot.cpp, and the
  interface of a 32-bit big-endian representation that the frame codec relies on too.  A
  writer is the list of the bytes written, a reader the list of the bytes not yet read.
\<close>

unbundle bit_operations_syntax

section \<open>Writer\<close>

definition writeU32 :: "u32 \<Rightarrow> byte list \<Rightarrow> byte list" where
  "writeU32 value bytes = bytes @ map (\<lambda>shift. ucast (drop_bit shift value)) [24, 16, 8, 0]"

definition writeBytes :: "byte list \<Rightarrow> byte list \<Rightarrow> byte list" where
  "writeBytes new bytes = bytes @ new"

section \<open>Reader\<close>

definition require_bytes :: "nat \<Rightarrow> byte list \<Rightarrow> exn + unit" where
  "require_bytes n unread =
     (if length unread < n
      then Inl (InvalidArgument ''GameSnapshot::Deserialize: truncated input'') else Inr ())"

definition be_value :: "byte list \<Rightarrow> u32" where
  "be_value bs = foldl (\<lambda>value b. push_bit 8 value OR ucast b) 0 bs"

definition readU32 :: "byte list \<Rightarrow> exn + u32 \<times> byte list" where
  "readU32 unread =
     (case require_bytes 4 unread of
        Inl e \<Rightarrow> Inl e
      | Inr _ \<Rightarrow> Inr (be_value (take 4 unread), drop 4 unread))"

definition readBytes :: "nat \<Rightarrow> byte list \<Rightarrow> exn + byte list \<times> byte list" where
  "readBytes n unread =
     (case require_bytes n unread of
        Inl e \<Rightarrow> Inl e
      | Inr _ \<Rightarrow> Inr (take n unread, drop n unread))"

definition requireEnd :: "byte list \<Rightarrow> exn + unit" where
  "requireEnd unread =
     (if length unread \<noteq> 0
      then Inl (InvalidArgument ''GameSnapshot::Deserialize: trailing bytes'') else Inr ())"

section \<open>Representation of 32-bit numbers\<close>

text \<open>What the codecs use of a fixed-width representation of \<open>std::uint32_t\<close>.\<close>

locale u32_wire =
  fixes store :: "u32 \<Rightarrow> byte list"
    and load :: "byte list \<Rightarrow> u32"
  assumes length_store: "length (store v) = 4"
    and load_store: "load (store v) = v"
begin

lemma store_inject: "store v = store w \<longleftrightarrow> v = w"
  by (metis load_store)

lemma take_store: "take 4 (store v @ r) = store v" "drop 4 (store v @ r) = r"
  by (simp_all add: length_store)

end

definition be_bytes :: "u32 \<Rightarrow> byte list" where
  "be_bytes v = writeU32 v []"

lemma be_bytes_unfold:
  "be_bytes v = [ucast (drop_bit 24 v), ucast (drop_bit 16 v), ucast (drop_bit 8 v), ucast v]"
  by (simp add: be_bytes_def writeU32_def)

lemma be_value_bytes: "be_value (be_bytes v) = v"
proof (rule bit_word_eqI)
  fix n assume "n < LENGTH(32)"
  then have "n < 32" by simp
  then consider "n < 8" | "8 \<le> n \<and> n < 16" | "16 \<le> n \<and> n < 24" | "24 \<le> n \<and> n < 32" by linarith
  then show "bit (be_value (be_bytes v)) n \<longleftrightarrow> bit v n"
    by cases (auto simp: be_value_def be_bytes_unfold bit_simps)
qed

interpretation be: u32_wire be_bytes be_value
  by unfold_locales (simp_all add: be_value_bytes, simp add: be_bytes_unfold)

lemma be_bytes_value:
  assumes "length bs = 4"
  shows "be_bytes (be_value bs) = bs"
proof -
  obtain a b c d where bs: "bs = [a, b, c, d]"
    using assms by (auto simp: length_Suc_conv numeral_eq_Suc)
  have "\<not> bit w (8 + n)" "\<not> bit w (16 + n)" "\<not> bit w (24 + n)" for w :: byte and n
    using bit_imp_le_length [of w "8 + n"] bit_imp_le_length [of w "16 + n"] bit_imp_le_length [of w "24 + n"]
    by auto
  then show ?thesis
    unfolding bs be_value_def be_bytes_unfold by (auto intro!: bit_word_eqI simp: bit_simps)
qed

lemma writeU32_eq: "writeU32 v bytes = bytes @ be_bytes v"
  by (simp add: writeU32_def be_bytes_def)

lemma readU32_be_bytes [simp]: "readU32 (be_bytes v @ r) = Inr (v, r)"
  by (simp add: readU32_def require_bytes_def be.length_store be_value_bytes)

lemma readBytes_append [simp]: "length b = n \<Longrightarrow> readBytes n (b @ r) = Inr (b, r)"
  by (auto simp: readBytes_def require_bytes_def)

lemma readU32_inv:
  assumes "readU32 bs = Inr (v, r)"
  shows "bs = be_bytes v @ r"
proof -
  from assms have len: "4 \<le> length bs" and v: "v = be_value (take 4 bs)" "r = drop 4 bs"
    by (auto simp: readU32_def require_bytes_def split: if_splits)
  then show ?thesis using be_bytes_value [of "take 4 bs"] by simp
qed

lemma readBytes_inv: "readBytes n bs = Inr (b, r) \<Longrightarrow> bs = b @ r \<and> length b = n"
  by (auto simp: readBytes_def require_bytes_def split: if_splits)

text \<open>A reader that does not look past what it consumes.\<close>

definition local_reader :: "(byte list \<Rightarrow> exn + 'a \<times> byte list) \<Rightarrow> bool" where
  "local_reader rd \<longleftrightarrow> (\<forall>u v r x. rd u = Inr (v, r) \<longrightarrow> rd (u @ x) = Inr (v, r @ x))"

lemma local_readerD: "local_reader rd \<Longrightarrow> rd u = Inr (v, r) \<Longrightarrow> rd (u @ x) = Inr (v, r @ x)"
  unfolding local_reader_def by blast

lemma local_reader_u32: "local_reader readU32"
  unfolding local_reader_def using readU32_inv by fastforce

lemma local_reader_bytes: "local_reader (readBytes n)"
  unfolding local_reader_def by (metis append.assoc readBytes_append readBytes_inv)

lemma local_reader_return: "local_reader (\<lambda>r. Inr (v, r))"
  by (simp add: local_reader_def)

lemma local_reader_fail: "local_reader (\<lambda>r. Inl e)"
  by (simp add: local_reader_def)

lemma local_reader_bind:
  assumes "local_reader rd" "\<And>v. local_reader (f v)"
  shows "local_reader (\<lambda>u. and_then (rd u) (\<lambda>(v, r). f v r))"
  using assms unfolding local_reader_def and_then_Inr_iff by fastforce

text \<open>A bound on the input that only larger inputs satisfy may guard a reader.\<close>

lemma local_reader_guard:
  assumes "local_reader rd"
  shows "local_reader (\<lambda>r. if P \<or> length r div k < n then Inl e else rd r)"
  using assms div_le_mono [of _ _ k] unfolding local_reader_def
  by (auto simp: not_less split: if_splits intro: le_trans)

lemmas local_reader_intros =
  local_reader_u32 local_reader_bytes local_reader_return local_reader_fail local_reader_bind
  local_reader_guard local_reader_guard [where P = False, simplified]

end
