(* ===== verification/FrameCodec.thy ===== *)
theory FrameCodec
  imports ByteIO
begin

text \<open>
  src/src/common/frame_codec.h: length-prefixed frames over a byte stream.  The conversions of
  \<open>boost::endian\<close> are the parameters \<open>store\<close> (\<open>native_to_big\<close> followed by
  \<open>bit_cast\<close>) and \<open>load\<close> (\<open>load_big_u32\<close>); their contract is the locale
  \<open>u32_wire\<close>.  A \<open>flat_buffer\<close> is the list of its readable bytes.  The callback maps the
  payload and the receiver's state to the new state and an exception it may throw.
\<close>

definition kMagic :: u32 where "kMagic = 0xDEADBEEF"
definition kMagicLength :: nat where "kMagicLength = 4"
definition kSizeLength :: nat where "kSizeLength = 4"
definition kHeaderLength :: nat where "kHeaderLength = kMagicLength + kSizeLength"
definition kMaxMessageSize :: nat where "kMaxMessageSize = 16 * 1024 * 1024"

lemmas frame_constants = kMagicLength_def kSizeLength_def kHeaderLength_def

section \<open>Encoding\<close>

record Frame =
  fr_header :: "byte list"
  fr_payload :: "byte list"

definition buffers :: "Frame \<Rightarrow> byte list list" where
  "buffers f = [fr_header f, fr_payload f]"

definition frame_encode :: "(u32 \<Rightarrow> byte list) \<Rightarrow> byte list \<Rightarrow> exn + Frame" where
  "frame_encode store payload =
     (if kMaxMessageSize < length payload
      then Inl (LengthError ''FrameCodec::encode: payload exceeds kMaxMessageSize'')
      else Inr \<lparr>fr_header = store kMagic @ store (of_nat (length payload)), fr_payload = payload\<rparr>)"

text \<open>The bytes that reach the stream.\<close>

definition frame_bytes :: "Frame \<Rightarrow> byte list" where
  "frame_bytes f = concat (buffers f)"

section \<open>Decoding\<close>

type_synonym 's frame_handler = "byte list \<Rightarrow> 's \<Rightarrow> 's \<times> exn option"

text \<open>The loop of \<open>scan\<close>: it returns the frames counted, the offset, the receiver's state
  and the exception that ended it, if any.\<close>

function scan ::
  "(byte list \<Rightarrow> u32) \<Rightarrow> 's frame_handler \<Rightarrow> byte list \<Rightarrow> nat \<Rightarrow> nat \<Rightarrow> 's
     \<Rightarrow> nat \<times> nat \<times> 's \<times> exn option" where
  "scan load onFrame data offset n s =
     (if offset + kHeaderLength \<le> length data
      then if load (take 4 (drop offset data)) \<noteq> kMagic then scan load onFrame data (offset + 1) n s
           else
             let length_v = unat (load (take 4 (drop (offset + kMagicLength) data)))
             in if kMaxMessageSize < length_v then scan load onFrame data (offset + 1) n s
                else
                  let total = kHeaderLength + length_v
                  in if length data < offset + total then (n, offset, s, None)
                     else case onFrame (take length_v (drop (offset + kHeaderLength) data)) s of
                       (s', Some e) \<Rightarrow> (n, offset, s', Some e)
                     | (s', None) \<Rightarrow> scan load onFrame data (offset + total) (n + 1) s'
      else (n, offset, s, None))"
  by pat_completeness auto
termination
  by (relation "measure (\<lambda>(load, onFrame, data, offset, n, s). length data - offset)")
    (auto simp: frame_constants)

declare scan.simps [simp del]

definition frame_decode ::
  "(byte list \<Rightarrow> u32) \<Rightarrow> 's frame_handler \<Rightarrow> byte list \<Rightarrow> 's
     \<Rightarrow> nat \<times> byte list \<times> 's \<times> exn option" where
  "frame_decode load onFrame buffer s =
     (if length buffer < kHeaderLength then (0, buffer, s, None)
      else let (n, offset, s', err) = scan load onFrame buffer 0 0 s
           in (n, drop offset buffer, s', err))"

text \<open>The receiver that collects the payloads.\<close>

definition collect :: "byte list list frame_handler" where
  "collect payload s = (s @ [payload], None)"

definition frames :: "(byte list \<Rightarrow> u32) \<Rightarrow> byte list \<Rightarrow> byte list list \<times> byte list" where
  "frames load buffer = (case frame_decode load collect buffer [] of (_, rest, s, _) \<Rightarrow> (s, rest))"

section \<open>The scan, one byte or one frame at a time\<close>

text \<open>What is at the front of the unread bytes: too little to decide, a byte to skip, or a
  frame with its payload and the bytes after it.\<close>

datatype front = NeedMore | Skip | Complete "byte list" "byte list"

definition front_of :: "(byte list \<Rightarrow> u32) \<Rightarrow> byte list \<Rightarrow> front" where
  "front_of load bs =
     (if length bs < kHeaderLength then NeedMore
      else if load (take 4 bs) \<noteq> kMagic then Skip
      else let len = unat (load (take 4 (drop 4 bs)))
           in if kMaxMessageSize < len then Skip
              else if length bs < kHeaderLength + len then NeedMore
              else Complete (take len (drop kHeaderLength bs)) (drop (kHeaderLength + len) bs))"

lemma scan_front:
  assumes "offset \<le> length data"
  shows "scan load onFrame data offset n s =
     (case front_of load (drop offset data) of
        NeedMore \<Rightarrow> (n, offset, s, None)
      | Skip \<Rightarrow> scan load onFrame data (offset + 1) n s
      | Complete payload rest \<Rightarrow> (case onFrame payload s of
          (s', Some e) \<Rightarrow> (n, offset, s', Some e)
        | (s', None) \<Rightarrow> scan load onFrame data (length data - length rest) (n + 1) s'))"
proof -
  define bs len where "bs = drop offset data" and "len = unat (load (take 4 (drop 4 bs)))"
  have L: "length data = offset + length bs" using assms by (simp add: bs_def)
  have D: "drop offset data = bs" "drop (offset + 4) data = drop 4 bs" "drop (offset + 8) data = drop 8 bs"
    by (simp_all add: bs_def add.commute)
  have hdr: "kMagicLength = 4" "kHeaderLength = 8" by (simp_all add: frame_constants)
  have rest: "length data - length (drop (8 + len) bs) = offset + (8 + len)" if "\<not> length bs < 8 + len"
    using that L by simp
  consider "length bs < 8" | "8 \<le> length bs" "load (take 4 bs) \<noteq> kMagic"
    | "8 \<le> length bs" "load (take 4 bs) = kMagic" "kMaxMessageSize < len"
    | "8 \<le> length bs" "load (take 4 bs) = kMagic" "len \<le> kMaxMessageSize" "length bs < 8 + len"
    | "8 \<le> length bs" "load (take 4 bs) = kMagic" "len \<le> kMaxMessageSize" "8 + len \<le> length bs"
    by linarith
  then show ?thesis
    unfolding D(1)
    by cases (subst scan.simps, simp add: front_of_def Let_def hdr D L len_def [symmetric] rest [unfolded L])+
qed

lemma front_of_append:
  "front_of load a \<noteq> NeedMore \<Longrightarrow> front_of load (a @ b) =
     (case front_of load a of Complete p r \<Rightarrow> Complete p (r @ b) | _ \<Rightarrow> Skip)"
  by (auto simp: front_of_def Let_def frame_constants split: if_splits)

lemma front_of_complete_length:
  "front_of load bs = Complete p r \<Longrightarrow> length r < length bs \<and> r = drop (length bs - length r) bs"
  by (auto simp: front_of_def Let_def frame_constants split: if_splits)

lemma front_of_skip_nonempty: "front_of load bs = Skip \<Longrightarrow> bs \<noteq> []"
  by (auto simp: front_of_def frame_constants)

text \<open>All complete frames of a byte sequence, and the bytes that are left.\<close>

function unframe :: "(byte list \<Rightarrow> u32) \<Rightarrow> byte list \<Rightarrow> byte list list \<times> byte list" where
  "unframe load bs =
     (case front_of load bs of
        NeedMore \<Rightarrow> ([], bs)
      | Skip \<Rightarrow> unframe load (tl bs)
      | Complete p r \<Rightarrow> (p # fst (unframe load r), snd (unframe load r)))"
  by pat_completeness auto
termination
  by (relation "measure (\<lambda>(load, bs). length bs)")
    (auto dest: front_of_complete_length front_of_skip_nonempty)

declare unframe.simps [simp del]

lemma unframe_append:
  "unframe load (a @ b) =
     (fst (unframe load a) @ fst (unframe load (snd (unframe load a) @ b)),
      snd (unframe load (snd (unframe load a) @ b)))"
proof (induction load a rule: unframe.induct)
  case (1 load a)
  show ?case
  proof (cases "front_of load a")
    case NeedMore
    then have "unframe load a = ([], a)" by (subst unframe.simps) simp
    then show ?thesis by simp
  next
    case Skip
    then have "unframe load a = unframe load (tl a)" by (subst unframe.simps) simp
    moreover have "unframe load (a @ b) = unframe load (tl a @ b)"
      using Skip front_of_append [of load a b] front_of_skip_nonempty [OF Skip] by (subst unframe.simps) simp
    ultimately show ?thesis using 1(1) [OF Skip] by simp
  next
    case (Complete p r)
    then have "unframe load a = (p # fst (unframe load r), snd (unframe load r))" by (subst unframe.simps) simp
    moreover have "unframe load (a @ b) = (p # fst (unframe load (r @ b)), snd (unframe load (r @ b)))"
      using Complete front_of_append [of load a b] by (subst unframe.simps) simp
    ultimately show ?thesis using 1(2) [OF Complete] by simp
  qed
qed

text \<open>The callback run on the payloads in order, until it throws.\<close>

fun deliver :: "'s frame_handler \<Rightarrow> byte list list \<Rightarrow> 's \<Rightarrow> nat \<times> 's \<times> exn option" where
  "deliver onFrame [] s = (0, s, None)"
| "deliver onFrame (p # ps) s =
     (case onFrame p s of
        (s', Some e) \<Rightarrow> (0, s', Some e)
      | (s', None) \<Rightarrow> (case deliver onFrame ps s' of (n, r) \<Rightarrow> (Suc n, r)))"

lemma deliver_all: "deliver onFrame ps s = (n, s', None) \<Longrightarrow> n = length ps"
  by (induction ps arbitrary: n s) (auto split: prod.splits option.splits)

lemma deliver_collect: "deliver collect ps s = (length ps, s @ ps, None)"
  by (induction ps arbitrary: s) (simp_all add: collect_def)

lemma scan_deliver:
  assumes "offset \<le> length data" "unframe load (drop offset data) = (ps, rest)"
    "deliver onFrame ps s = (k, s', err)"
  shows "\<exists>off'. scan load onFrame data offset n s = (n + k, off', s', err) \<and> off' \<le> length data
    \<and> unframe load (drop off' data) = (drop k ps, rest) \<and> (err = None \<longrightarrow> drop off' data = rest)"
  using assms
proof (induction "length data - offset" arbitrary: offset n s ps k rule: less_induct)
  case less
  note sc = scan_front [OF less.prems(1), of load onFrame n s]
  show ?case
  proof (cases "front_of load (drop offset data)")
    case NeedMore
    then have "ps = []" "rest = drop offset data"
      using less.prems(2) by (simp_all add: unframe.simps [of _ "drop offset data"])
    then show ?thesis
      using sc NeedMore less.prems by (intro exI [of _ offset]) auto
  next
    case Skip
    have lt: "offset < length data" using front_of_skip_nonempty [OF Skip] by simp
    have "unframe load (drop (offset + 1) data) = (ps, rest)"
      using less.prems(2) Skip by (simp add: unframe.simps [of _ "drop offset data"] tl_drop drop_Suc)
    with less.hyps [of "offset + 1" ps s k n] less.prems(3) lt sc Skip show ?thesis by simp
  next
    case (Complete p r)
    note len = front_of_complete_length [OF Complete]
    define off where "off = length data - length r"
    have off: "offset < off" "off \<le> length data" using len by (auto simp: off_def)
    have "length r < length (drop offset data)" using len by blast
    then have "length (drop offset data) - length r + offset = off" using less.prems(1) by (simp add: off_def)
    then have "drop (length (drop offset data) - length r) (drop offset data) = drop off data"
      by (simp only: drop_drop)
    with len have r: "r = drop off data" by metis
    obtain ps' where ps: "ps = p # ps'" and un: "unframe load (drop off data) = (ps', rest)"
      using less.prems(2) Complete r by (simp add: unframe.simps [of _ "drop offset data"]) (metis prod.collapse)
    obtain s1 x where h: "onFrame p s = (s1, x)" by fastforce
    show ?thesis
    proof (cases x)
      case (Some e)
      then show ?thesis
        using sc Complete h ps less.prems by (intro exI [of _ offset]) auto
    next
      case None
      then obtain k' where k': "deliver onFrame ps' s1 = (k', s', err)" "k = Suc k'"
        using less.prems(3) ps h by (auto split: prod.splits)
      have "length data - off < length data - offset" using off by linarith
      from less.hyps [OF this off(2) un k'(1), of "n + 1"] obtain off' where
        "scan load onFrame data off (n + 1) s1 = (n + 1 + k', off', s', err)" "off' \<le> length data"
        "unframe load (drop off' data) = (drop k' ps', rest)" "err = None \<longrightarrow> drop off' data = rest"
        by blast
      then show ?thesis
        using sc Complete h None ps k'(2) by (intro exI [of _ off']) (simp add: off_def)
    qed
  qed
qed

lemma frame_decode_deliver:
  assumes "unframe load buffer = (ps, rest)" "deliver onFrame ps s = (k, s', err)"
  shows "\<exists>left. frame_decode load onFrame buffer s = (k, left, s', err)
    \<and> unframe load left = (drop k ps, rest) \<and> (err = None \<longrightarrow> left = rest) \<and> (\<exists>m. left = drop m buffer)"
proof -
  obtain off' where sc: "scan load onFrame buffer 0 0 s = (0 + k, off', s', err)"
    "unframe load (drop off' buffer) = (drop k ps, rest)" "err = None \<longrightarrow> drop off' buffer = rest"
    using scan_deliver [of 0 buffer load ps rest onFrame s k s' err 0] assms by auto
  show ?thesis
  proof (cases "length buffer < kHeaderLength")
    case True
    then have "front_of load buffer = NeedMore" by (simp add: front_of_def)
    with assms have "ps = []" "rest = buffer" "k = 0" "s' = s" "err = None"
      by (simp_all add: unframe.simps [of _ buffer])
    with True assms(1) show ?thesis
      by (intro exI [of _ buffer]) (auto simp: frame_decode_def intro: exI [of _ 0])
  next
    case False
    with sc show ?thesis by (intro exI [of _ "drop off' buffer"]) (auto simp: frame_decode_def)
  qed
qed

lemma frames_unframe: "frames load buffer = unframe load buffer"
proof -
  obtain ps rest where u: "unframe load buffer = (ps, rest)" by fastforce
  from frame_decode_deliver [OF u deliver_collect [of ps "[]"]] u show ?thesis
    by (auto simp: frames_def)
qed

section \<open>A stream codec\<close>

text \<open>What \<open>Session\<close> and \<open>TcpClient\<close> rely on: they append what they read to a buffer,
  take the messages off it and keep the rest.\<close>

fun feed :: "(byte list \<Rightarrow> 'm list \<times> byte list) \<Rightarrow> byte list list \<Rightarrow> byte list \<Rightarrow> 'm list \<times> byte list" where
  "feed dec [] buffer = ([], buffer)"
| "feed dec (chunk # chunks) buffer =
     (fst (dec (buffer @ chunk)) @ fst (feed dec chunks (snd (dec (buffer @ chunk)))),
      snd (feed dec chunks (snd (dec (buffer @ chunk)))))"

locale stream_codec =
  fixes enc :: "'m \<Rightarrow> byte list"
    and sendable :: "'m \<Rightarrow> bool"
    and dec :: "byte list \<Rightarrow> 'm list \<times> byte list"
  assumes dec_append: "dec (a @ b) =
      (fst (dec a) @ fst (dec (snd (dec a) @ b)), snd (dec (snd (dec a) @ b)))"
    and dec_enc: "sendable m \<Longrightarrow> dec (enc m) = ([m], [])"
    and dec_Nil: "dec [] = ([], [])"
begin

lemma dec_rest: "dec (snd (dec a)) = ([], snd (dec a))"
proof -
  have "dec a = (fst (dec a) @ fst (dec (snd (dec a))), snd (dec (snd (dec a))))"
    using dec_append [of a "[]"] by simp
  then show ?thesis by (metis append_self_conv fst_conv prod.collapse snd_conv)
qed

lemma dec_encs: "\<forall>m\<in>set ms. sendable m \<Longrightarrow> dec (concat (map enc ms)) = (ms, [])"
proof (induction ms)
  case (Cons m ms)
  then show ?case using dec_append [of "enc m" "concat (map enc ms)"] dec_enc [of m] by simp
qed (simp add: dec_Nil)

lemma feed_concat: "dec buffer = ([], buffer) \<Longrightarrow> feed dec chunks buffer = dec (buffer @ concat chunks)"
proof (induction chunks arbitrary: buffer)
  case (Cons c cs)
  show ?case
    using Cons.IH [OF dec_rest, of "buffer @ c"] dec_append [of "buffer @ c" "concat cs"] by simp
qed simp

lemma any_chunking:
  assumes "\<forall>m\<in>set ms. sendable m" "concat chunks = concat (map enc ms)"
  shows "feed dec chunks [] = (ms, [])"
  using feed_concat [OF dec_Nil, of chunks] dec_encs [OF assms(1)] assms(2) by simp

end

definition frame_ok :: "byte list \<Rightarrow> bool" where
  "frame_ok payload \<longleftrightarrow> length payload \<le> kMaxMessageSize"

text \<open>The bytes of an encoded payload; nothing is sent if \<open>encode\<close> throws.\<close>

definition wire :: "(u32 \<Rightarrow> byte list) \<Rightarrow> byte list \<Rightarrow> byte list" where
  "wire store payload = (case frame_encode store payload of Inl _ \<Rightarrow> [] | Inr f \<Rightarrow> frame_bytes f)"

lemma front_of_wire:
  assumes "u32_wire store load" "frame_ok payload"
  shows "front_of load (wire store payload @ r) = Complete payload r"
proof -
  note len = u32_wire.length_store [OF assms(1)] and ls = u32_wire.load_store [OF assms(1)]
  have n: "length payload < 2 ^ 32" "length payload \<le> 16777216"
    using assms(2) by (simp_all add: frame_ok_def kMaxMessageSize_def)
  then have u: "unat (of_nat (length payload) :: u32) = length payload"
    by (simp add: unat_of_nat)
  have w: "wire store payload = store kMagic @ store (of_nat (length payload)) @ payload"
    using assms(2) by (simp add: wire_def frame_encode_def frame_bytes_def buffers_def frame_ok_def)
  show ?thesis
    using n(2) unfolding w by (simp add: front_of_def frame_constants len ls u kMaxMessageSize_def)
qed

lemma frames_stream_codec:
  assumes "u32_wire store load"
  shows "stream_codec (wire store) frame_ok (frames load)"
proof
  show "frames load (a @ b) =
      (fst (frames load a) @ fst (frames load (snd (frames load a) @ b)), snd (frames load (snd (frames load a) @ b)))"
    for a b unfolding frames_unframe by (rule unframe_append)
  have nil: "unframe load [] = ([], [])"
    by (subst unframe.simps) (simp add: front_of_def frame_constants)
  then show "frames load [] = ([], [])" by (simp add: frames_unframe)
  show "frames load (wire store m) = ([m], [])" if "frame_ok m" for m
    using front_of_wire [OF assms that, of "[]"] nil by (simp add: frames_unframe unframe.simps [of _ "wire store m"])
qed

interpretation frame_stream: stream_codec "wire be_bytes" frame_ok "frames be_value"
  by (rule frames_stream_codec) (rule be.u32_wire_axioms)

section \<open>What the codec promises\<close>

text \<open>C23.  However the transport splits the bytes of a sequence of encoded payloads, the
  receiver gets exactly these payloads in order, and no byte is left over.\<close>

theorem frames_any_chunking:
  assumes "u32_wire store load" "\<forall>p\<in>set payloads. length p \<le> kMaxMessageSize"
    "concat chunks = concat (map (wire store) payloads)"
  shows "feed (frames load) chunks [] = (payloads, [])"
  using stream_codec.any_chunking [OF frames_stream_codec [OF assms(1)]] assms(2,3)
  by (simp add: frame_ok_def)

theorem frames_any_chunking_witness:
  "feed (frames be_value) [take 5 (wire be_bytes [1, 2, 3]), drop 5 (wire be_bytes [1, 2, 3]) @ wire be_bytes []] []
     = ([[1, 2, 3], []], [])"
  by (rule frames_any_chunking [OF be.u32_wire_axioms])
    (simp_all add: kMaxMessageSize_def flip: append_assoc)

lemma frames_append:
  "frames load (a @ b) = (fst (frames load a) @ fst (frames load (snd (frames load a) @ b)), snd (frames load (snd (frames load a) @ b)))"
  unfolding frames_unframe by (rule unframe_append)

lemma frames_Nil: "frames load [] = ([], [])"
  unfolding frames_unframe by (subst unframe.simps) (simp add: front_of_def frame_constants)

lemma feed_frames: "feed (frames load) chunks [] = frames load (concat chunks)"
proof -
  have "feed (frames load) cs b = frames load (b @ concat cs)" if "frames load b = ([], b)" for cs b
    using that
  proof (induction cs arbitrary: b)
    case (Cons c cs)
    let ?r = "snd (frames load (b @ c))"
    have "unframe load (b @ c) = (fst (unframe load (b @ c)) @ fst (unframe load ?r), snd (unframe load ?r))"
      using unframe_append [of load "b @ c" "[]"] by (simp add: frames_unframe)
    then have "frames load ?r = ([], ?r)"
      by (metis append_self_conv fst_conv frames_unframe prod.collapse snd_conv)
    from Cons.IH [OF this] show ?case
      using unframe_append [of load "b @ c" "concat cs"] by (simp add: frames_unframe)
  qed simp
  moreover have "frames load [] = ([], [])"
    by (simp add: frames_unframe unframe.simps front_of_def frame_constants)
  ultimately show ?thesis by simp
qed

text \<open>C24.  Feeding a stream in pieces gives the same payloads and the same rest as decoding it
  at once, for every stream, well-formed or not.\<close>

theorem frames_incremental:
  "feed (frames load) chunks [] = frames load (concat chunks)"
  by (rule feed_frames)

text \<open>A peer cannot make the receive buffer grow: what \<open>decode\<close> leaves in it is always
  shorter than one frame of the maximal size.\<close>

theorem frames_rest_bounded: "length (snd (frames load buffer)) < kHeaderLength + kMaxMessageSize"
  unfolding frames_unframe
proof (induction load buffer rule: unframe.induct)
  case (1 load bs)
  show ?case
  proof (cases "front_of load bs")
    case NeedMore
    then have "length bs < kHeaderLength + kMaxMessageSize"
      by (auto simp: front_of_def frame_constants Let_def kMaxMessageSize_def split: if_splits)
    with NeedMore show ?thesis by (subst unframe.simps) simp
  qed (use 1 in \<open>subst unframe.simps, simp\<close>)+
qed

text \<open>Resynchronisation: bytes before a frame at none of whose positions a magic number
  starts are skipped, and the frame after them is delivered.\<close>

theorem frames_resync:
  assumes "u32_wire store load" "length payload \<le> kMaxMessageSize"
    "\<forall>i<length junk. load (take 4 (drop i (junk @ wire store payload))) \<noteq> kMagic"
  shows "frames load (junk @ wire store payload @ rest) =
    (payload # fst (frames load rest), snd (frames load rest))"
  using assms(3)
proof (induction junk)
  case Nil
  have "front_of load (wire store payload @ rest) = Complete payload rest"
    using front_of_wire [OF assms(1)] assms(2) by (simp add: frame_ok_def)
  then show ?case by (simp add: frames_unframe unframe.simps [of _ "wire store payload @ rest"])
next
  case (Cons b junk)
  let ?bs = "b # junk @ wire store payload"
  have long: "8 \<le> length (wire store payload)"
    using assms(2) u32_wire.length_store [OF assms(1)]
    by (simp add: wire_def frame_encode_def frame_bytes_def buffers_def)
  have first: "take 4 (?bs @ rest) = take 4 ?bs" using long by simp
  have "load (take 4 ?bs) \<noteq> kMagic" using Cons.prems [rule_format, of 0] by simp
  then have "front_of load (?bs @ rest) = Skip"
    unfolding front_of_def first using long by (simp add: frame_constants)
  moreover have "\<forall>i<length junk. load (take 4 (drop i (junk @ wire store payload))) \<noteq> kMagic"
  proof (intro allI impI)
    fix i assume "i < length junk"
    with Cons.prems [rule_format, of "Suc i"]
    show "load (take 4 (drop i (junk @ wire store payload))) \<noteq> kMagic" by simp
  qed
  ultimately show ?case
    using Cons.IH by (simp add: frames_unframe unframe.simps [of _ "b # junk @ wire store payload @ rest"])
qed

text \<open>\<open>decode\<close> hands the complete frames of the buffer to the callback in order.  If the
  callback never throws, what stays is the undecided rest; if it throws, the exception comes
  out and the buffer still holds the frame it threw on and everything after it.\<close>

theorem decode_delivers:
  "\<exists>n rest s' err. frame_decode load onFrame buffer s = (n, rest, s', err)
     \<and> deliver onFrame (fst (frames load buffer)) s = (n, s', err)
     \<and> frames load rest = (drop n (fst (frames load buffer)), snd (frames load buffer))
     \<and> (if err = None then n = length (fst (frames load buffer)) \<and> rest = snd (frames load buffer) else True)"
proof -
  obtain ps r where u: "unframe load buffer = (ps, r)" by fastforce
  obtain k s' err where d: "deliver onFrame ps s = (k, s', err)" using prod_cases3 by blast
  from frame_decode_deliver [OF u d] deliver_all [of onFrame ps s k s'] d u show ?thesis
    by (auto simp: frames_unframe)
qed

theorem frames_resync_witness:
  "frames be_value ([0, 0xDE, 0xAD] @ wire be_bytes [7] @ [1]) =
     ([7] # fst (frames be_value [1]), snd (frames be_value [1]))"
proof (rule frames_resync [OF be.u32_wire_axioms])
  have w: "wire be_bytes [7] = [0xDE, 0xAD, 0xBE, 0xEF, 0, 0, 0, 1, 7]"
    by (simp add: wire_def frame_encode_def frame_bytes_def buffers_def kMaxMessageSize_def be_bytes_unfold
        kMagic_def)
  show "\<forall>i<length [0, 0xDE, 0xAD]. be_value (take 4 (drop i ([0, 0xDE, 0xAD] @ wire be_bytes [7]))) \<noteq> kMagic"
    by (auto simp: w less_Suc_eq be_value_def kMagic_def)
qed (simp add: kMaxMessageSize_def)

end
