(* ===== verification/Scalar.thy ===== *)
theory Scalar
  imports Prelude
begin

text \<open>
  The type \<open>math::Scalar = double\<close> of src/src/common/math_utils.h.  A scalar is a finite
  real number, one of the two infinities, or NaN, with the IEEE rules for infinities and
  NaN: every comparison with NaN is false, an operation with no numeric result gives NaN.
  Finite arithmetic is exact (no rounding, no overflow; zero has no sign), and the
  mathematical constants are the reals they denote.  The branches the code takes on
  \<open>std::isfinite\<close> and on NaN comparisons are therefore real branches of the model,
  while properties of finite arithmetic are properties of the algorithm, free of rounding.
\<close>

datatype scalar = Fin real | PInf | NInf | NaN

fun isfinite :: "scalar \<Rightarrow> bool" where
  "isfinite (Fin r) = True"
| "isfinite _ = False"

lemma isfinite_iff: "isfinite s \<longleftrightarrow> (\<exists>r. s = Fin r)"
  by (cases s) auto

section \<open>Arithmetic\<close>

text \<open>The infinity with the sign of a non-zero real; NaN for zero.\<close>

definition signed_inf :: "real \<Rightarrow> scalar" where
  "signed_inf r = (if 0 < r then PInf else if r < 0 then NInf else NaN)"

instantiation scalar :: "{zero, one, plus, minus, uminus, times, inverse, ord, abs}"
begin

definition zero_scalar :: scalar where "zero_scalar = Fin 0"

definition one_scalar :: scalar where "one_scalar = Fin 1"

fun uminus_scalar :: "scalar \<Rightarrow> scalar" where
  "uminus_scalar (Fin a) = Fin (- a)"
| "uminus_scalar PInf = NInf"
| "uminus_scalar NInf = PInf"
| "uminus_scalar NaN = NaN"

fun plus_scalar :: "scalar \<Rightarrow> scalar \<Rightarrow> scalar" where
  "plus_scalar (Fin a) (Fin b) = Fin (a + b)"
| "plus_scalar NaN _ = NaN"
| "plus_scalar _ NaN = NaN"
| "plus_scalar PInf NInf = NaN"
| "plus_scalar NInf PInf = NaN"
| "plus_scalar PInf _ = PInf"
| "plus_scalar NInf _ = NInf"
| "plus_scalar _ PInf = PInf"
| "plus_scalar _ NInf = NInf"

definition minus_scalar :: "scalar \<Rightarrow> scalar \<Rightarrow> scalar" where
  "minus_scalar a b = a + (- b)"

fun times_scalar :: "scalar \<Rightarrow> scalar \<Rightarrow> scalar" where
  "times_scalar (Fin a) (Fin b) = Fin (a * b)"
| "times_scalar NaN _ = NaN"
| "times_scalar _ NaN = NaN"
| "times_scalar PInf (Fin b) = signed_inf b"
| "times_scalar NInf (Fin b) = signed_inf (- b)"
| "times_scalar (Fin a) PInf = signed_inf a"
| "times_scalar (Fin a) NInf = signed_inf (- a)"
| "times_scalar PInf PInf = PInf"
| "times_scalar PInf NInf = NInf"
| "times_scalar NInf PInf = NInf"
| "times_scalar NInf NInf = PInf"

text \<open>Division by (positive) zero gives the infinity with the sign of the dividend.\<close>

fun divide_scalar :: "scalar \<Rightarrow> scalar \<Rightarrow> scalar" where
  "divide_scalar (Fin a) (Fin b) = (if b = 0 then signed_inf a else Fin (a / b))"
| "divide_scalar NaN _ = NaN"
| "divide_scalar _ NaN = NaN"
| "divide_scalar PInf (Fin b) = (if b = 0 then PInf else signed_inf b)"
| "divide_scalar NInf (Fin b) = (if b = 0 then NInf else signed_inf (- b))"
| "divide_scalar (Fin a) _ = Fin 0"
| "divide_scalar _ _ = NaN"

definition inverse_scalar :: "scalar \<Rightarrow> scalar" where
  "inverse_scalar a = Fin 1 div a"

fun abs_scalar :: "scalar \<Rightarrow> scalar" where
  "abs_scalar (Fin a) = Fin \<bar>a\<bar>"
| "abs_scalar PInf = PInf"
| "abs_scalar NInf = PInf"
| "abs_scalar NaN = NaN"

fun less_scalar :: "scalar \<Rightarrow> scalar \<Rightarrow> bool" where
  "less_scalar (Fin a) (Fin b) = (a < b)"
| "less_scalar NaN _ = False"
| "less_scalar _ NaN = False"
| "less_scalar PInf _ = False"
| "less_scalar _ NInf = False"
| "less_scalar NInf _ = True"
| "less_scalar _ PInf = True"

fun less_eq_scalar :: "scalar \<Rightarrow> scalar \<Rightarrow> bool" where
  "less_eq_scalar (Fin a) (Fin b) = (a \<le> b)"
| "less_eq_scalar NaN _ = False"
| "less_eq_scalar _ NaN = False"
| "less_eq_scalar _ PInf = True"
| "less_eq_scalar NInf _ = True"
| "less_eq_scalar PInf _ = False"
| "less_eq_scalar _ NInf = False"

instance ..

end

lemma minus_Fin [simp]: "Fin a - Fin b = Fin (a - b)"
  by (simp add: minus_scalar_def)

lemma minus_NaN [simp]: "NaN - x = NaN" "x - NaN = NaN"
  by (cases x; simp add: minus_scalar_def)+

lemma plus_NaN [simp]: "x + NaN = NaN"
  by (cases x) simp_all

lemma times_NaN [simp]: "x * NaN = NaN"
  by (cases x) simp_all

lemma divide_NaN [simp]: "x / NaN = NaN"
  by (cases x) simp_all

lemma less_NaN [simp]: "\<not> x < NaN" "\<not> NaN < x"
  for x :: scalar
  by (cases x; simp)+

lemma less_eq_NaN [simp]: "\<not> x \<le> NaN" "\<not> NaN \<le> x"
  for x :: scalar
  by (cases x; simp)+

text \<open>The built-in \<open>==\<close> on doubles: NaN is not equal to itself.\<close>

definition feq :: "scalar \<Rightarrow> scalar \<Rightarrow> bool" where
  "feq a b \<longleftrightarrow> a \<noteq> NaN \<and> a = b"

lemma feq_Fin [simp]: "feq (Fin a) (Fin b) \<longleftrightarrow> a = b"
  by (simp add: feq_def)

lemma scalar_not_less: "isfinite a \<Longrightarrow> isfinite b \<Longrightarrow> \<not> a < b \<longleftrightarrow> b \<le> a"
  by (cases a; cases b) auto

section \<open>The library functions of \<open><algorithm>\<close> and \<open><cmath>\<close>\<close>

text \<open>\<open>std::min(a, b)\<close> is \<open>b < a ? b : a\<close>, \<open>std::max(a, b)\<close> is
  \<open>a < b ? b : a\<close> and \<open>std::clamp(v, lo, hi)\<close> is
  \<open>v < lo ? lo : hi < v ? hi : v\<close>: with NaN they return their first argument.\<close>

definition std_min :: "scalar \<Rightarrow> scalar \<Rightarrow> scalar" where
  "std_min a b = (if b < a then b else a)"

definition std_max :: "scalar \<Rightarrow> scalar \<Rightarrow> scalar" where
  "std_max a b = (if a < b then b else a)"

definition std_clamp :: "scalar \<Rightarrow> scalar \<Rightarrow> scalar \<Rightarrow> scalar" where
  "std_clamp v lo hi = (if v < lo then lo else if hi < v then hi else v)"

lemma std_min_Fin [simp]: "std_min (Fin a) (Fin b) = Fin (min a b)"
  by (simp add: std_min_def)

lemma std_max_Fin [simp]: "std_max (Fin a) (Fin b) = Fin (max a b)"
  by (simp add: std_max_def)

lemma std_clamp_Fin [simp]: "lo \<le> hi \<Longrightarrow> std_clamp (Fin v) (Fin lo) (Fin hi) = Fin (max lo (min hi v))"
  by (simp add: std_clamp_def)

lemma std_clamp_NaN [simp]: "std_clamp NaN lo hi = NaN"
  by (simp add: std_clamp_def)

definition fabs :: "scalar \<Rightarrow> scalar" where
  "fabs a = \<bar>a\<bar>"

lemma fabs_Fin [simp]: "fabs (Fin a) = Fin \<bar>a\<bar>"
  by (simp add: fabs_def)

fun fsqrt :: "scalar \<Rightarrow> scalar" where
  "fsqrt (Fin a) = (if a < 0 then NaN else Fin (sqrt a))"
| "fsqrt PInf = PInf"
| "fsqrt _ = NaN"

fun fcos :: "scalar \<Rightarrow> scalar" where
  "fcos (Fin a) = Fin (cos a)"
| "fcos _ = NaN"

fun fsin :: "scalar \<Rightarrow> scalar" where
  "fsin (Fin a) = Fin (sin a)"
| "fsin _ = NaN"

text \<open>\<open>std::copysign\<close>, for a sign argument that is a number.\<close>

definition fcopysign :: "scalar \<Rightarrow> scalar \<Rightarrow> scalar" where
  "fcopysign m s = (if s < Fin 0 then - fabs m else fabs m)"

text \<open>The nearest integer, ties to even, and the IEEE remainder
  \<open>x - y * round(x / y)\<close>.\<close>

definition round_half_even :: "real \<Rightarrow> int" where
  "round_half_even x =
     (let f = \<lfloor>x\<rfloor>; d = x - of_int f
      in if d < 1 / 2 then f else if d > 1 / 2 then f + 1 else if even f then f else f + 1)"

fun fremainder :: "scalar \<Rightarrow> scalar \<Rightarrow> scalar" where
  "fremainder (Fin x) (Fin y) =
     (if y = 0 then NaN else Fin (x - of_int (round_half_even (x / y)) * y))"
| "fremainder (Fin x) PInf = Fin x"
| "fremainder (Fin x) NInf = Fin x"
| "fremainder _ _ = NaN"

lemma round_half_even_near: "\<bar>x - of_int (round_half_even x)\<bar> \<le> 1 / 2"
  unfolding round_half_even_def Let_def by (auto simp: abs_le_iff)

lemma fremainder_bound:
  assumes "0 < y"
  shows "\<exists>r n. fremainder (Fin x) (Fin y) = Fin r \<and> r = x - of_int n * y \<and> \<bar>r\<bar> \<le> y / 2"
proof -
  let ?n = "round_half_even (x / y)"
  have "\<bar>x / y - of_int ?n\<bar> * y \<le> 1 / 2 * y"
    using round_half_even_near assms by (intro mult_right_mono) auto
  moreover have "\<bar>x / y - of_int ?n\<bar> * y = \<bar>(x / y - of_int ?n) * y\<bar>"
    using assms by (simp add: abs_mult)
  moreover have "(x / y - of_int ?n) * y = x - of_int ?n * y"
    using assms by (simp add: field_simps)
  ultimately show ?thesis using assms by auto
qed

text \<open>\<open>static_cast<std::uint16_t>\<close> of a non-negative finite double below 65536.\<close>

fun to_u16 :: "scalar \<Rightarrow> u16" where
  "to_u16 (Fin r) = word_of_int \<lfloor>r\<rfloor>"
| "to_u16 _ = 0"

text \<open>\<open>std::numeric_limits<double>::max()\<close>.\<close>

definition dbl_max :: real where
  "dbl_max = (2 - (1 / 2) ^ 52) * 2 ^ 1023"

lemma dbl_max_pos: "0 < dbl_max"
  unfolding dbl_max_def by (intro mult_pos_pos) (simp_all add: power_divide)

end
