(* ===== verification/StrongId.thy ===== *)
theory StrongId
  imports Prelude
begin

text \<open>
  The identifiers of src/src/common/strong_id.h and src/src/common/types.h.  The class
  template wraps an unsigned 64-bit value, so a \<open>StrongId\<close> is its value; the two hash
  functions are modelled for both widths of \<open>std::size_t\<close> the source distinguishes.
\<close>

unbundle bit_operations_syntax

type_synonym EntityId = u64
type_synonym SessionId = u64

datatype EntityType = EtNone | EtShip | EtAsteroid | EtBullet

datatype Direction = DirUp | DirDown | DirLeft | DirRight

section \<open>Increment and decrement\<close>

text \<open>Each operator returns its value and the identifier's new value.\<close>

definition pre_increment :: "u64 \<Rightarrow> u64 \<times> u64" where
  "pre_increment v = (v + 1, v + 1)"

definition post_increment :: "u64 \<Rightarrow> u64 \<times> u64" where
  "post_increment v = (v, v + 1)"

definition pre_decrement :: "u64 \<Rightarrow> u64 \<times> u64" where
  "pre_decrement v = (v - 1, v - 1)"

definition post_decrement :: "u64 \<Rightarrow> u64 \<times> u64" where
  "post_decrement v = (v, v - 1)"

section \<open>Hashes\<close>

definition identity_hash64 :: "u64 \<Rightarrow> u64" where
  "identity_hash64 v = v"

definition identity_hash32 :: "u64 \<Rightarrow> u32" where
  "identity_hash32 v = ucast (v XOR drop_bit 32 v)"

definition mixed_hash64 :: "u64 \<Rightarrow> u64" where
  "mixed_hash64 v =
     (let x = v;
          x = x XOR drop_bit 30 x;
          x = x * 0xbf58476d1ce4e5b9;
          x = x XOR drop_bit 27 x;
          x = x * 0x94d049bb133111eb;
          x = x XOR drop_bit 31 x
      in x)"

definition mixed_hash32 :: "u64 \<Rightarrow> u32" where
  "mixed_hash32 x =
     (let low = (ucast (x XOR drop_bit 32 x) :: u32);
          low = low XOR drop_bit 16 low;
          low = low * 0x45d9f3b;
          low = low XOR drop_bit 16 low
      in low)"

text \<open>\<open>x ^= x >> k\<close> is injective: the difference of two preimages is its own shift, so
  it has no bit at all.\<close>

lemma drop_bit_fixpoint_zero:
  fixes d :: "'a::len word"
  assumes "0 < k" and "drop_bit k d = d"
  shows "d = 0"
proof (rule ccontr)
  assume "d \<noteq> 0"
  then obtain n where n: "bit d n" by (auto simp: bit_eq_iff)
  have step: "bit d (n + k * i)" for i
  proof (induction i)
    case (Suc i)
    from Suc.IH assms(2) have "bit (drop_bit k d) (n + k * i)" by simp
    then show ?case by (simp add: bit_drop_bit_eq ac_simps)
  qed (use n in simp)
  have "LENGTH('a) \<le> n + k * LENGTH('a)" using assms(1) by (simp add: trans_le_add2)
  then have "\<not> bit d (n + k * LENGTH('a))"
    by (meson bit_imp_le_length not_le)
  with step show False by blast
qed

lemma xorshift_inj:
  fixes x y :: "'a::len word"
  assumes "0 < k" and eq: "x XOR drop_bit k x = y XOR drop_bit k y"
  shows "x = y"
proof -
  have "drop_bit k (x XOR y) = x XOR y"
  proof (rule bit_word_eqI)
    fix n
    assume "n < LENGTH('a)"
    from eq have "bit (x XOR drop_bit k x) n = bit (y XOR drop_bit k y) n" by simp
    then show "bit (drop_bit k (x XOR y)) n = bit (x XOR y) n"
      by (auto simp: bit_xor_iff bit_drop_bit_eq)
  qed
  from drop_bit_fixpoint_zero [OF assms(1) this] have "x XOR y = 0" .
  then have "(x XOR y) XOR y = 0 XOR y" by simp
  then show ?thesis by (simp only: xor.assoc xor_self_eq xor.right_neutral xor.left_neutral)
qed

lemma times_unit_inj:
  fixes c c' x y :: "'a::len word"
  assumes "c * c' = 1" and "x * c = y * c"
  shows "x = y"
proof -
  have "x * c * c' = y * c * c'" using assms(2) by simp
  then show ?thesis using assms(1) by (simp add: mult.assoc)
qed

lemma mix_mul1_unit: "(0xbf58476d1ce4e5b9 :: u64) * 0x96de1b173f119089 = 1"
  by simp

lemma mix_mul2_unit: "(0x94d049bb133111eb :: u64) * 0x319642b2d24d8ec3 = 1"
  by simp

text \<open>The 64-bit mixing hash is collision free: two entity identifiers with the same
  hash are the same identifier (the finaliser is a bijection of the 64-bit values).\<close>

theorem mixed_hash64_injective: "mixed_hash64 a = mixed_hash64 b \<longleftrightarrow> a = b"
proof
  assume "mixed_hash64 a = mixed_hash64 b"
  then show "a = b"
    unfolding mixed_hash64_def Let_def
    by (auto dest!: xorshift_inj [rotated] times_unit_inj [OF mix_mul1_unit] times_unit_inj [OF mix_mul2_unit])
qed simp

text \<open>The 32-bit variants fold the value first, so they cannot be collision free.\<close>

lemma identity_hash32_collision: "identity_hash32 0 = identity_hash32 0x100000001"
  by (simp add: identity_hash32_def)

lemma pre_increment_eq_post: "fst (pre_increment v) = snd (post_increment v)"
  by (simp add: pre_increment_def post_increment_def)

lemma decrement_increment: "snd (pre_decrement (snd (pre_increment v))) = v"
  by (simp add: pre_decrement_def pre_increment_def)

end
