(* ===== verification/Events.thy ===== *)
theory Events
  imports Scalar StrongId
begin

text \<open>
  src/src/server/network_events.h, event_bus.h and thread_safe_queue.h: the events of the
  server, the typed publish/subscribe bus and the queue that hands work to the simulation
  thread.  The signals of Boost.Signals2 are used through their documented behaviour: slots are
  called in the order of connection, disconnected slots are skipped.  The locks of the source
  make every operation atomic, so operations are functions on the state.
\<close>

section \<open>Events\<close>

datatype event =
    NetworkMessageEvent (ev_session_id: SessionId) (ev_payload: "byte list")
  | SendPacketEvent (ev_session_id: SessionId) (ev_payload: "byte list")
  | ClientConnectedEvent (ev_session_id: SessionId) (ev_address: string)
  | PlayerJoinEvent (ev_session_id: SessionId) (ev_login: string)
  | ClientDisconnectedEvent (ev_session_id: SessionId)
  | ShotMessageEvent (ev_session_id: SessionId)
  | ShipDestroyedEvent (ev_session_id: SessionId)
  | PlayerMoveEvent (ev_session_id: SessionId) (ev_angle: scalar)

datatype event_type =
    TNetworkMessage | TSendPacket | TClientConnected | TPlayerJoin | TClientDisconnected
  | TShotMessage | TShipDestroyed | TPlayerMove

fun type_of_event :: "event \<Rightarrow> event_type" where
  "type_of_event (NetworkMessageEvent _ _) = TNetworkMessage"
| "type_of_event (SendPacketEvent _ _) = TSendPacket"
| "type_of_event (ClientConnectedEvent _ _) = TClientConnected"
| "type_of_event (PlayerJoinEvent _ _) = TPlayerJoin"
| "type_of_event (ClientDisconnectedEvent _) = TClientDisconnected"
| "type_of_event (ShotMessageEvent _) = TShotMessage"
| "type_of_event (ShipDestroyedEvent _) = TShipDestroyed"
| "type_of_event (PlayerMoveEvent _ _) = TPlayerMove"

section \<open>Type identifiers\<close>

text \<open>\<open>EventTypeIdCounter\<close>: a process-wide counter; a type gets its number at the first
  \<open>get\<close>.\<close>

record type_ids =
  ti_ids :: "event_type \<Rightarrow> nat option"
  ti_next :: nat

definition type_ids_init :: type_ids where
  "type_ids_init = \<lparr>ti_ids = (\<lambda>_. None), ti_next = 0\<rparr>"

definition get_type_id :: "event_type \<Rightarrow> type_ids \<Rightarrow> nat \<times> type_ids" where
  "get_type_id t st =
     (case ti_ids st t of
        Some i \<Rightarrow> (i, st)
      | None \<Rightarrow> (ti_next st, st\<lparr>ti_ids := (ti_ids st)(t \<mapsto> ti_next st), ti_next := ti_next st + 1\<rparr>))"

section \<open>The bus\<close>

text \<open>A connected callback is named by \<open>'h\<close>.  A signal holder remembers the event type it
  was instantiated for; the source casts to that type without a check.\<close>

record 'h slot =
  sl_connected :: bool
  sl_callback :: 'h

record 'h EventBus =
  eb_type_ids :: "event_type \<Rightarrow> nat option"
  eb_signals :: "(event_type \<times> 'h slot list) option list"

definition EventBus_create :: "'h EventBus" where
  "EventBus_create = \<lparr>eb_type_ids = (\<lambda>_. None), eb_signals = []\<rparr>"

definition resize_signals :: "nat \<Rightarrow> 'a option list \<Rightarrow> 'a option list" where
  "resize_signals n xs = (if length xs \<le> n then xs @ replicate (n + 1 - length xs) None else xs)"

definition getOrCreateSignal :: "event_type \<Rightarrow> nat \<Rightarrow> 'h EventBus \<Rightarrow> 'h EventBus" where
  "getOrCreateSignal t type_id bus =
     (let signals = resize_signals type_id (eb_signals bus);
          signals = (if signals ! type_id = None then signals[type_id := Some (t, [])] else signals);
          ids = (if eb_type_ids bus t = None then (eb_type_ids bus)(t \<mapsto> type_id) else eb_type_ids bus)
      in bus\<lparr>eb_signals := signals, eb_type_ids := ids\<rparr>)"

text \<open>\<open>subscribe\<close> returns the connection: the signal and the position of the slot in it.\<close>

definition subscribe ::
  "event_type \<Rightarrow> 'h \<Rightarrow> type_ids \<times> 'h EventBus \<Rightarrow> (nat \<times> nat) \<times> type_ids \<times> 'h EventBus" where
  "subscribe t callback st =
     (let (type_id, ids) = get_type_id t (fst st);
          bus = getOrCreateSignal t type_id (snd st);
          (tag, slots) = the (eb_signals bus ! type_id);
          bus = bus\<lparr>eb_signals := (eb_signals bus)[type_id :=
                  Some (tag, slots @ [\<lparr>sl_connected = True, sl_callback = callback\<rparr>])]\<rparr>
      in ((type_id, length slots), ids, bus))"

text \<open>What disconnecting the connection does (the destructor of a \<open>scoped_connection\<close>).\<close>

definition disconnect :: "nat \<times> nat \<Rightarrow> 'h EventBus \<Rightarrow> 'h EventBus" where
  "disconnect conn bus =
     (case eb_signals bus ! fst conn of
        None \<Rightarrow> bus
      | Some (tag, slots) \<Rightarrow>
          bus\<lparr>eb_signals := (eb_signals bus)[fst conn :=
            Some (tag, slots[snd conn := (slots ! snd conn)\<lparr>sl_connected := False\<rparr>])]\<rparr>)"

definition connected_callbacks :: "'h slot list \<Rightarrow> 'h list" where
  "connected_callbacks slots = map sl_callback (filter sl_connected slots)"

text \<open>\<open>publish<EventType>\<close>: the callbacks it calls, in order; without a signal it only logs.
  Asking for the type's number may assign one.\<close>

definition publish :: "event \<Rightarrow> type_ids \<times> 'h EventBus \<Rightarrow> 'h list \<times> type_ids \<times> 'h EventBus" where
  "publish ev st =
     (let (type_id, ids) = get_type_id (type_of_event ev) (fst st);
          signals = eb_signals (snd st)
      in if length signals \<le> type_id then ([], ids, snd st)
         else case signals ! type_id of
           None \<Rightarrow> ([], ids, snd st)
         | Some (tag, slots) \<Rightarrow> (connected_callbacks slots, ids, snd st))"

text \<open>\<open>SignalHolder::dispatch\<close>: the cast to the event type of the holder is checked.\<close>

definition dispatch :: "event \<Rightarrow> event_type \<times> 'h slot list \<Rightarrow> 'h list" where
  "dispatch ev holder =
     (case holder of (tag, slots) \<Rightarrow> if tag \<noteq> type_of_event ev then [] else connected_callbacks slots)"

text \<open>\<open>publish(const Event&)\<close>: found by the dynamic type.\<close>

definition publish_dynamic :: "event \<Rightarrow> 'h EventBus \<Rightarrow> 'h list" where
  "publish_dynamic ev bus =
     (case eb_type_ids bus (type_of_event ev) of
        None \<Rightarrow> []
      | Some type_id \<Rightarrow> (case eb_signals bus ! type_id of
          None \<Rightarrow> []
        | Some holder \<Rightarrow> dispatch ev holder))"

section \<open>Consistency\<close>

text \<open>The abstract bus: the slots of a type, in order, and which of them are called.\<close>

definition slots_of :: "event_type \<Rightarrow> type_ids \<times> 'h EventBus \<Rightarrow> 'h slot list" where
  "slots_of t st =
     (case ti_ids (fst st) t of
        None \<Rightarrow> []
      | Some i \<Rightarrow> if length (eb_signals (snd st)) \<le> i then []
                  else case eb_signals (snd st) ! i of None \<Rightarrow> [] | Some (tag, slots) \<Rightarrow> slots)"

definition subscribers :: "event_type \<Rightarrow> type_ids \<times> 'h EventBus \<Rightarrow> 'h list" where
  "subscribers t st = connected_callbacks (slots_of t st)"

lemma connected_callbacks_simps [simp]:
  "connected_callbacks [] = []" "connected_callbacks (xs @ ys) = connected_callbacks xs @ connected_callbacks ys"
  "connected_callbacks (s # xs) = (if sl_connected s then [sl_callback s] else []) @ connected_callbacks xs"
  by (simp_all add: connected_callbacks_def)

definition bus_inv :: "type_ids \<times> 'h EventBus \<Rightarrow> bool" where
  "bus_inv st \<longleftrightarrow>
     (\<forall>t i. ti_ids (fst st) t = Some i \<longrightarrow> i < ti_next (fst st))
     \<and> (\<forall>t u i. ti_ids (fst st) t = Some i \<and> ti_ids (fst st) u = Some i \<longrightarrow> t = u)
     \<and> (\<forall>i t slots. i < length (eb_signals (snd st)) \<and> eb_signals (snd st) ! i = Some (t, slots) \<longrightarrow>
          ti_ids (fst st) t = Some i \<and> eb_type_ids (snd st) t = Some i)
     \<and> (\<forall>t i. eb_type_ids (snd st) t = Some i \<longrightarrow>
          i < length (eb_signals (snd st)) \<and> (\<exists>slots. eb_signals (snd st) ! i = Some (t, slots)))"

lemma bus_inv_init: "bus_inv (type_ids_init, EventBus_create)"
  by (simp add: bus_inv_def type_ids_init_def EventBus_create_def)

lemma bus_invD:
  assumes "bus_inv (ids, bus)"
  shows "ti_ids ids t = Some i \<Longrightarrow> i < ti_next ids"
    "ti_ids ids t = Some i \<Longrightarrow> ti_ids ids u = Some i \<Longrightarrow> t = u"
    "i < length (eb_signals bus) \<Longrightarrow> eb_signals bus ! i = Some (t, slots) \<Longrightarrow>
      ti_ids ids t = Some i \<and> eb_type_ids bus t = Some i"
    "eb_type_ids bus t = Some i \<Longrightarrow> i < length (eb_signals bus) \<and> (\<exists>slots. eb_signals bus ! i = Some (t, slots))"
  using assms unfolding bus_inv_def fst_conv snd_conv by blast+

lemma get_type_id_inv:
  assumes inv: "bus_inv (ids, bus)" and get: "get_type_id t ids = (i, ids')"
  shows "bus_inv (ids', bus)" "ti_ids ids' t = Some i" "slots_of u (ids', bus) = slots_of u (ids, bus)"
proof -
  note D = bus_invD [OF inv]
  have "bus_inv (ids', bus) \<and> ti_ids ids' t = Some i \<and> slots_of u (ids', bus) = slots_of u (ids, bus)"
  proof (cases "ti_ids ids t")
    case (Some j)
    with get inv show ?thesis by (simp add: get_type_id_def)
  next
    case None
    with get have i: "i = ti_next ids" and ids': "ids' = ids\<lparr>ti_ids := (ti_ids ids)(t \<mapsto> i), ti_next := i + 1\<rparr>"
      by (auto simp: get_type_id_def)
    have free: "eb_signals bus ! i = None" if "i < length (eb_signals bus)"
    proof (cases "eb_signals bus ! i")
      case (Some x)
      with D(3) [of i "fst x" "snd x"] that D(1) [of "fst x" i] i show ?thesis by simp
    qed simp
    have "bus_inv (ids', bus)"
      unfolding bus_inv_def fst_conv snd_conv
    proof (intro conjI allI impI)
      fix u j assume "ti_ids ids' u = Some j"
      then show "j < ti_next ids'" using D(1) [of u j] i ids' by (auto split: if_splits)
    next
      fix u v j assume "ti_ids ids' u = Some j \<and> ti_ids ids' v = Some j"
      then show "u = v" using D(1) [of u j] D(1) [of v j] D(2) [of u j v] i ids' by (auto split: if_splits)
    next
      fix j u slots assume a: "j < length (eb_signals bus) \<and> eb_signals bus ! j = Some (u, slots)"
      then show "ti_ids ids' u = Some j" "eb_type_ids bus u = Some j"
        using D(3) [of j u slots] None ids' by auto
    next
      fix u j assume "eb_type_ids bus u = Some j"
      then show "j < length (eb_signals bus)" "\<exists>slots. eb_signals bus ! j = Some (u, slots)"
        using D(4) [of u j] by auto
    qed
    moreover have "slots_of u (ids', bus) = slots_of u (ids, bus)"
      using None free ids' unfolding slots_of_def fst_conv snd_conv by (auto split: option.split)
    ultimately show ?thesis using ids' by simp
  qed
  then show "bus_inv (ids', bus)" "ti_ids ids' t = Some i" "slots_of u (ids', bus) = slots_of u (ids, bus)"
    by blast+
qed

lemma nth_resize_signals:
  "i < length (resize_signals n xs) \<Longrightarrow> resize_signals n xs ! i = (if i < length xs then xs ! i else None)"
  by (auto simp: resize_signals_def nth_append)

lemma length_resize_signals: "n < length (resize_signals n xs)" "length xs \<le> length (resize_signals n xs)"
  by (auto simp: resize_signals_def)

text \<open>After \<open>getOrCreateSignal\<close> the type has a signal of its own type, all else unchanged.\<close>

lemma getOrCreateSignal_inv:
  assumes inv: "bus_inv (ids, bus)" and i: "ti_ids ids t = Some i"
  shows "bus_inv (ids, getOrCreateSignal t i bus)"
    "i < length (eb_signals (getOrCreateSignal t i bus))"
    "\<exists>slots. eb_signals (getOrCreateSignal t i bus) ! i = Some (t, slots)"
    "slots_of u (ids, getOrCreateSignal t i bus) = slots_of u (ids, bus)"
proof -
  note D = bus_invD [OF inv]
  let ?b = "getOrCreateSignal t i bus" and ?S = "eb_signals bus"
  have old: "?S ! i = Some x \<Longrightarrow> i < length ?S \<Longrightarrow> fst x = t" for x
    using D(3) [of i "fst x" "snd x"] D(2) [OF i, of "fst x"] by simp
  have len: "length (eb_signals ?b) = length (resize_signals i ?S)"
    by (simp add: getOrCreateSignal_def Let_def)
  have nth: "eb_signals ?b ! j = (if j < length ?S \<and> ?S ! j \<noteq> None then ?S ! j
      else if j = i then Some (t, []) else None)" if "j < length (eb_signals ?b)" for j
    using that length_resize_signals(1) [of i ?S] unfolding len
    by (cases "?S ! j") (auto simp: getOrCreateSignal_def Let_def nth_resize_signals nth_list_update)
  have ty: "eb_type_ids ?b u = (if u = t then Some i else eb_type_ids bus u)" for u
  proof (cases "eb_type_ids bus t")
    case (Some j)
    with D(4) [OF Some] D(3) [of j t] i have "j = i" by auto
    with Some show ?thesis by (simp add: getOrCreateSignal_def Let_def)
  qed (simp add: getOrCreateSignal_def Let_def)
  show l: "i < length (eb_signals ?b)" using len length_resize_signals(1) [of i ?S] by simp
  have grow: "length ?S \<le> length (eb_signals ?b)" using len length_resize_signals(2) [of ?S i] by simp
  show ex: "\<exists>slots. eb_signals ?b ! i = Some (t, slots)"
    using nth [OF l] old by (auto split: if_splits)
  show "bus_inv (ids, ?b)"
    unfolding bus_inv_def fst_conv snd_conv
  proof (intro conjI allI impI)
    fix u j assume "ti_ids ids u = Some j" then show "j < ti_next ids" by (rule D(1))
  next
    fix u v j assume "ti_ids ids u = Some j \<and> ti_ids ids v = Some j" then show "u = v" using D(2) by blast
  next
    fix j u slots assume a: "j < length (eb_signals ?b) \<and> eb_signals ?b ! j = Some (u, slots)"
    then have b: "j < length ?S \<and> ?S ! j = Some (u, slots) \<or> j = i \<and> u = t" using nth [of j] by (auto split: if_splits)
    then show "ti_ids ids u = Some j" using D(3) [of j u slots] i by auto
    show "eb_type_ids ?b u = Some j" using b D(3) [of j u slots] D(2) [of u j t] i ty [of u] by auto
  next
    fix u j assume u: "eb_type_ids ?b u = Some j"
    then have "u = t \<and> j = i \<or> eb_type_ids bus u = Some j" using ty [of u] by (auto split: if_splits)
    then have "j < length (eb_signals ?b) \<and> (\<exists>slots. eb_signals ?b ! j = Some (u, slots))"
      using l ex D(4) [of u j] grow nth [of j] by auto
    then show "j < length (eb_signals ?b)" "\<exists>slots. eb_signals ?b ! j = Some (u, slots)" by blast+
  qed
  show "slots_of u (ids, ?b) = slots_of u (ids, bus)"
  proof (cases "ti_ids ids u")
    case (Some j)
    show ?thesis
    proof (cases "j < length (eb_signals ?b)")
      case True
      then show ?thesis
        using Some nth [of j] grow unfolding slots_of_def fst_conv snd_conv
        by (auto split: option.split)
    next
      case False
      then show ?thesis using Some grow unfolding slots_of_def fst_conv snd_conv by simp
    qed
  qed (simp add: slots_of_def)
qed

text \<open>Changing the slots of a signal.\<close>

lemma set_slots_inv:
  assumes inv: "bus_inv (ids, bus)" and i: "i < length (eb_signals bus)" "eb_signals bus ! i = Some (t, slots)"
  shows "bus_inv (ids, bus\<lparr>eb_signals := (eb_signals bus)[i := Some (t, slots')]\<rparr>)"
    "slots_of u (ids, bus\<lparr>eb_signals := (eb_signals bus)[i := Some (t, slots')]\<rparr>) =
      (if u = t then slots' else slots_of u (ids, bus))"
proof -
  note D = bus_invD [OF inv]
  let ?S = "(eb_signals bus)[i := Some (t, slots')]"
  have t: "ti_ids ids t = Some i" using D(3) [OF i] by simp
  have tag: "fst x = fst y" if "?S ! j = Some x" "eb_signals bus ! j = Some y" "j < length (eb_signals bus)" for j x y
    using that i by (cases "j = i") auto
  show "bus_inv (ids, bus\<lparr>eb_signals := ?S\<rparr>)"
    unfolding bus_inv_def fst_conv snd_conv
  proof (intro conjI allI impI)
    fix u j assume "ti_ids ids u = Some j" then show "j < ti_next ids" by (rule D(1))
  next
    fix u v j assume "ti_ids ids u = Some j \<and> ti_ids ids v = Some j" then show "u = v" using D(2) by blast
  next
    fix j u sl assume "j < length (eb_signals (bus\<lparr>eb_signals := ?S\<rparr>)) \<and> eb_signals (bus\<lparr>eb_signals := ?S\<rparr>) ! j = Some (u, sl)"
    then have "\<exists>sl. j < length (eb_signals bus) \<and> eb_signals bus ! j = Some (u, sl)"
      using i by (cases "j = i") auto
    then show "ti_ids ids u = Some j" "eb_type_ids (bus\<lparr>eb_signals := ?S\<rparr>) u = Some j" using D(3) by auto
  next
    fix u j assume "eb_type_ids (bus\<lparr>eb_signals := ?S\<rparr>) u = Some j"
    then have "j < length (eb_signals bus) \<and> (\<exists>sl. eb_signals bus ! j = Some (u, sl))" using D(4) by simp
    then show "j < length (eb_signals (bus\<lparr>eb_signals := ?S\<rparr>))"
      "\<exists>sl. eb_signals (bus\<lparr>eb_signals := ?S\<rparr>) ! j = Some (u, sl)"
      using i by (cases "j = i"; auto)+
  qed
  show "slots_of u (ids, bus\<lparr>eb_signals := ?S\<rparr>) =
      (if u = t then slots' else slots_of u (ids, bus))"
  proof (cases "u = t")
    case True
    then show ?thesis using t i unfolding slots_of_def fst_conv snd_conv by simp
  next
    case False
    then have "ti_ids ids u \<noteq> Some i" using D(2) [OF t] by auto
    then show ?thesis using False unfolding slots_of_def fst_conv snd_conv
      by (auto split: option.split)
  qed
qed

lemma subscribe_slots:
  assumes "bus_inv st" "subscribe t cb st = (conn, st')"
  shows "bus_inv st'"
    "slots_of u st' = (if u = t then slots_of t st @ [\<lparr>sl_connected = True, sl_callback = cb\<rparr>] else slots_of u st)"
    "ti_ids (fst st') t = Some (fst conn)" "snd conn = length (slots_of t st)"
    "ti_ids (fst st) v = Some j \<Longrightarrow> ti_ids (fst st') v = Some j"
proof -
  obtain ids bus where st: "st = (ids, bus)" by (cases st)
  obtain i ids' where g: "get_type_id t ids = (i, ids')" by fastforce
  note G = get_type_id_inv [OF assms(1) [unfolded st] g]
  let ?b = "getOrCreateSignal t i bus"
  note C = getOrCreateSignal_inv [OF G(1,2)]
  obtain slots where slots: "eb_signals ?b ! i = Some (t, slots)" using C(3) by blast
  let ?new = "slots @ [\<lparr>sl_connected = True, sl_callback = cb\<rparr>]"
  have st': "conn = (i, length slots)" "st' = (ids', ?b\<lparr>eb_signals := (eb_signals ?b)[i := Some (t, ?new)]\<rparr>)"
    using assms(2) st g slots by (auto simp: subscribe_def Let_def)
  note S = set_slots_inv [OF C(1,2) slots, where slots' = ?new]
  show "bus_inv st'" using S(1) st'(2) by simp
  have "slots_of t (ids', ?b) = slots"
    using G(2) C(2) slots unfolding slots_of_def fst_conv snd_conv by simp
  then have s: "slots_of t st = slots" using C(4) [of t] G(3) [of t] st by simp
  then show "slots_of u st' = (if u = t then slots_of t st @ [\<lparr>sl_connected = True, sl_callback = cb\<rparr>] else slots_of u st)"
    using S(2) [where u = u] C(4) [of u] G(3) [of u] st st'(2) by simp
  show "ti_ids (fst st') t = Some (fst conn)" "snd conn = length (slots_of t st)" using st' G(2) s by simp_all
  show "ti_ids (fst st) v = Some j \<Longrightarrow> ti_ids (fst st') v = Some j"
    using g st st'(2) by (auto simp: get_type_id_def split: option.splits)
qed

lemma subscribe_correct:
  assumes "bus_inv st" "subscribe t cb st = (conn, st')"
  shows "bus_inv st'" "subscribers u st' = (if u = t then subscribers t st @ [cb] else subscribers u st)"
  using subscribe_slots(1,2) [OF assms] by (simp_all add: subscribers_def)

text \<open>A connection leads to the slot it was returned for.\<close>

lemma disconnect_slots:
  assumes "bus_inv (ids, bus)" "ti_ids ids t = Some i" "n < length (slots_of t (ids, bus))"
  shows "bus_inv (ids, disconnect (i, n) bus)"
    "slots_of u (ids, disconnect (i, n) bus) =
      (if u = t then (slots_of t (ids, bus))[n := (slots_of t (ids, bus) ! n)\<lparr>sl_connected := False\<rparr>]
       else slots_of u (ids, bus))"
proof -
  obtain tag slots where s: "i < length (eb_signals bus)" "eb_signals bus ! i = Some (tag, slots)" "slots_of t (ids, bus) = slots"
    using assms(2,3) unfolding slots_of_def fst_conv snd_conv by (auto split: if_splits option.splits)
  have tag: "tag = t" using bus_invD(2,3) [OF assms(1)] assms(2) s(1,2) by blast
  have d: "disconnect (i, n) bus = bus\<lparr>eb_signals := (eb_signals bus)[i := Some (t, slots[n := (slots ! n)\<lparr>sl_connected := False\<rparr>])]\<rparr>"
    using s(2) tag by (simp add: disconnect_def)
  note S = set_slots_inv [OF assms(1) s(1) s(2) [unfolded tag], where slots' = "slots[n := (slots ! n)\<lparr>sl_connected := False\<rparr>]"]
  show "bus_inv (ids, disconnect (i, n) bus)"
    "slots_of u (ids, disconnect (i, n) bus) =
      (if u = t then (slots_of t (ids, bus))[n := (slots_of t (ids, bus) ! n)\<lparr>sl_connected := False\<rparr>]
       else slots_of u (ids, bus))"
    using S(1) S(2) [where u = u] unfolding d s(3) by simp_all
qed

lemma publish_correct:
  assumes "bus_inv st" "publish ev st = (callbacks, st')"
  shows "callbacks = subscribers (type_of_event ev) st" "bus_inv st'" "slots_of u st' = slots_of u st"
    "ti_ids (fst st) v = Some k \<Longrightarrow> ti_ids (fst st') v = Some k"
    "publish_dynamic ev (snd st) = callbacks"
proof -
  obtain ids bus where st: "st = (ids, bus)" by (cases st)
  let ?t = "type_of_event ev"
  obtain i ids' where g: "get_type_id ?t ids = (i, ids')" by fastforce
  note G = get_type_id_inv [OF assms(1) [unfolded st] g] and D = bus_invD [OF assms(1) [unfolded st]]
  have st': "st' = (ids', bus)" "callbacks = subscribers ?t (ids', bus)"
    using assms(2) st g G(2) unfolding subscribers_def slots_of_def publish_def Let_def
    by (auto split: if_splits option.splits)
  show c: "callbacks = subscribers ?t st" and "bus_inv st'" "slots_of u st' = slots_of u st"
    using st' G st by (simp_all add: subscribers_def)
  show "ti_ids (fst st) v = Some k \<Longrightarrow> ti_ids (fst st') v = Some k"
    using g st st'(1) by (auto simp: get_type_id_def split: option.splits)
  show "publish_dynamic ev (snd st) = callbacks"
  proof (cases "eb_type_ids bus ?t")
    case (Some j)
    with D(4) [OF Some] obtain sl where j: "j < length (eb_signals bus)" "eb_signals bus ! j = Some (?t, sl)" by blast
    with D(3) [OF j] Some st c show ?thesis
      unfolding publish_dynamic_def dispatch_def subscribers_def slots_of_def by simp
  next
    case None
    have "slots_of ?t (ids, bus) = []"
    proof (cases "ti_ids ids ?t")
      case (Some j)
      show ?thesis
      proof (cases "j < length (eb_signals bus) \<and> eb_signals bus ! j \<noteq> None")
        case True
        then obtain x where "eb_signals bus ! j = Some x" "j < length (eb_signals bus)" by blast
        with D(3) [of j "fst x" "snd x"] D(2) [OF Some, of "fst x"] None show ?thesis by simp
      next
        case False
        with Some show ?thesis unfolding slots_of_def fst_conv snd_conv by (auto split: option.split)
      qed
    qed (simp add: slots_of_def)
    with None c st show ?thesis by (simp add: publish_dynamic_def subscribers_def)
  qed
qed

text \<open>Subscriptions alone: publishing an event on a new bus with these subscriptions calls the
  callbacks subscribed for the type of the event, in the order of their subscription, and the
  untyped publication calls the same ones.\<close>

theorem EventBus_delivers:
  "fst (publish ev (fold (\<lambda>(t, cb) st. snd (subscribe t cb st)) subs (type_ids_init, EventBus_create)))
     = map snd (filter (\<lambda>(t, cb). t = type_of_event ev) subs)
   \<and> publish_dynamic ev (snd (fold (\<lambda>(t, cb) st. snd (subscribe t cb st)) subs (type_ids_init, EventBus_create)))
     = map snd (filter (\<lambda>(t, cb). t = type_of_event ev) subs)"
proof -
  have "bus_inv (fold (\<lambda>(t, cb) st. snd (subscribe t cb st)) subs st)
      \<and> subscribers u (fold (\<lambda>(t, cb) st. snd (subscribe t cb st)) subs st)
        = subscribers u st @ map snd (filter (\<lambda>(t, cb). t = u) subs)" if "bus_inv st" for u st
    using that
  proof (induction subs arbitrary: st)
    case (Cons s subs)
    obtain t cb where s: "s = (t, cb)" by (cases s)
    obtain conn st' where c: "subscribe t cb st = (conn, st')" by (metis prod.collapse)
    note S = subscribe_correct [OF Cons.prems c]
    show ?case using Cons.IH [OF S(1)] S(2) [of u] s c by auto
  qed simp
  from this [OF bus_inv_init] obtain st where
    st: "st = fold (\<lambda>(t, cb) st. snd (subscribe t cb st)) subs (type_ids_init, EventBus_create)" "bus_inv st"
    "subscribers (type_of_event ev) st = map snd (filter (\<lambda>(t, cb). t = type_of_event ev) subs)"
    by (simp add: subscribers_def slots_of_def type_ids_init_def)
  obtain cbs st' where p: "publish ev st = (cbs, st')" by (metis prod.collapse)
  from publish_correct [OF st(2) p] st(3) p show ?thesis unfolding st(1) [symmetric] by simp
qed

subsection \<open>Refinement of the abstract bus\<close>

text \<open>A use of the bus: subscriptions, disconnections of the connection that the \<open>n\<close>-th
  subscription returned, and publications.\<close>

datatype 'h bus_op = Subscribe event_type 'h | Disconnect nat | Publish event

type_synonym 'h bus_state = "(nat \<times> nat) list \<times> type_ids \<times> 'h EventBus"

fun bus_step :: "'h bus_op \<Rightarrow> 'h bus_state \<Rightarrow> 'h list \<times> 'h bus_state" where
  "bus_step (Subscribe t cb) (conns, st) = (let (conn, st') = subscribe t cb st in ([], conns @ [conn], st'))"
| "bus_step (Disconnect n) (conns, ids, bus) =
     ([], conns, ids, if n < length conns then disconnect (conns ! n) bus else bus)"
| "bus_step (Publish ev) (conns, st) = (let (callbacks, st') = publish ev st in (callbacks, conns, st'))"

text \<open>The abstract bus is the list of all subscriptions in order, each alive or not.\<close>

type_synonym 'h subscriptions = "(event_type \<times> 'h slot) list"

definition abs_slots :: "event_type \<Rightarrow> 'h subscriptions \<Rightarrow> 'h slot list" where
  "abs_slots t subs = map snd (filter (\<lambda>s. fst s = t) subs)"

fun abs_step :: "'h bus_op \<Rightarrow> 'h subscriptions \<Rightarrow> 'h list \<times> 'h subscriptions" where
  "abs_step (Subscribe t cb) subs = ([], subs @ [(t, \<lparr>sl_connected = True, sl_callback = cb\<rparr>)])"
| "abs_step (Disconnect n) subs =
     ([], if n < length subs then subs[n := (fst (subs ! n), snd (subs ! n)\<lparr>sl_connected := False\<rparr>)] else subs)"
| "abs_step (Publish ev) subs = (connected_callbacks (abs_slots (type_of_event ev) subs), subs)"

fun run_ops :: "('op \<Rightarrow> 's \<Rightarrow> 'r \<times> 's) \<Rightarrow> 'op list \<Rightarrow> 's \<Rightarrow> 'r list \<times> 's" where
  "run_ops step [] s = ([], s)"
| "run_ops step (op # ops) s = (let (r, s') = step op s; (rs, s'') = run_ops step ops s' in (r # rs, s''))"

definition bus_rel :: "'h subscriptions \<Rightarrow> 'h bus_state \<Rightarrow> bool" where
  "bus_rel subs b \<longleftrightarrow> bus_inv (snd b) \<and> length (fst b) = length subs
     \<and> (\<forall>t. slots_of t (snd b) = abs_slots t subs)
     \<and> (\<forall>n < length subs. ti_ids (fst (snd b)) (fst (subs ! n)) = Some (fst (fst b ! n))
          \<and> snd (fst b ! n) = length (abs_slots (fst (subs ! n)) (take n subs)))"

lemma abs_slots_update:
  assumes "n < length subs"
  shows "abs_slots u (subs[n := (fst (subs ! n), x)]) =
      (if u = fst (subs ! n) then (abs_slots u subs)[length (abs_slots u (take n subs)) := x] else abs_slots u subs)"
    "length (abs_slots (fst (subs ! n)) (take n subs)) < length (abs_slots (fst (subs ! n)) subs)"
    "abs_slots (fst (subs ! n)) subs ! length (abs_slots (fst (subs ! n)) (take n subs)) = snd (subs ! n)"
proof -
  define xs y zs where "xs = take n subs" and "y = subs ! n" and "zs = drop (Suc n) subs"
  have s: "subs = xs @ y # zs" using id_take_nth_drop [OF assms] by (simp add: xs_def y_def zs_def)
  have n: "n = length xs" using assms by (simp add: xs_def)
  show "abs_slots u (subs[n := (fst (subs ! n), x)]) =
      (if u = fst (subs ! n) then (abs_slots u subs)[length (abs_slots u (take n subs)) := x] else abs_slots u subs)"
    unfolding s n by (simp add: abs_slots_def list_update_append)
  show "length (abs_slots (fst (subs ! n)) (take n subs)) < length (abs_slots (fst (subs ! n)) subs)"
    "abs_slots (fst (subs ! n)) subs ! length (abs_slots (fst (subs ! n)) (take n subs)) = snd (subs ! n)"
    unfolding s n by (simp_all add: abs_slots_def nth_append)
qed

lemma bus_step_simulates:
  assumes rel: "bus_rel subs b"
  shows "fst (bus_step op b) = fst (abs_step op subs)" "bus_rel (snd (abs_step op subs)) (snd (bus_step op b))"
proof -
  obtain conns ids bus where b: "b = (conns, ids, bus)" by (cases b)
  note R = rel [unfolded bus_rel_def b fst_conv snd_conv]
  have "fst (bus_step op b) = fst (abs_step op subs) \<and> bus_rel (snd (abs_step op subs)) (snd (bus_step op b))"
  proof (cases op)
    case (Subscribe t cb)
    obtain conn st' where c: "subscribe t cb (ids, bus) = (conn, st')" by (metis prod.collapse)
    note S = subscribe_slots [OF R [THEN conjunct1] c]
    have "bus_rel (subs @ [(t, \<lparr>sl_connected = True, sl_callback = cb\<rparr>)]) (conns @ [conn], st')"
      using R S unfolding bus_rel_def fst_conv snd_conv
      by (auto simp: nth_append less_Suc_eq abs_slots_def)
    then show ?thesis using b Subscribe c by simp
  next
    case (Disconnect n)
    show ?thesis
    proof (cases "n < length subs")
      case True
      define t x where "t = fst (subs ! n)" and "x = snd (subs ! n)\<lparr>sl_connected := False\<rparr>"
      have n: "n < length conns" and i: "ti_ids ids t = Some (fst (conns ! n))"
        and k: "snd (conns ! n) = length (abs_slots t (take n subs))"
        using R True by (auto simp: t_def)
      note A = abs_slots_update(1) [OF True, where x = x, folded t_def] abs_slots_update(2,3) [OF True, folded t_def]
      have "snd (conns ! n) < length (slots_of t (ids, bus))" using A(2) R k by simp
      note D = disconnect_slots [OF R [THEN conjunct1] i this, simplified prod.collapse]
      have "slots_of u (ids, disconnect (conns ! n) bus) = abs_slots u (subs[n := (t, x)])" for u
        using A(1) [of u] A(3) D(2) [of u] R k by (simp add: x_def)
      moreover have "length (abs_slots u (take m (subs[n := (t, x)]))) = length (abs_slots u (take m subs))"
        "fst (subs[n := (t, x)] ! m) = fst (subs ! m)" if "m < length subs" for u m
      proof -
        show "fst (subs[n := (t, x)] ! m) = fst (subs ! m)" using that by (cases "m = n") (auto simp: t_def)
        show "length (abs_slots u (take m (subs[n := (t, x)]))) = length (abs_slots u (take m subs))"
        proof (cases "n < m")
          case True
          with that abs_slots_update(1) [of n "take m subs" u x] show ?thesis by (simp add: take_update_swap t_def)
        next
          case False then show ?thesis by simp
        qed
      qed
      ultimately have "bus_rel (subs[n := (t, x)]) (conns, ids, disconnect (conns ! n) bus)"
        using R D(1) unfolding bus_rel_def fst_conv snd_conv by simp
      then show ?thesis using b Disconnect True n by (simp add: t_def x_def)
    qed (use b Disconnect R rel in simp)
  next
    case (Publish ev)
    obtain cbs st' where p: "publish ev (ids, bus) = (cbs, st')" by (metis prod.collapse)
    note P = publish_correct [OF R [THEN conjunct1] p]
    have "bus_rel subs (conns, st')" using R P(2-) unfolding bus_rel_def fst_conv snd_conv by simp
    moreover have "cbs = connected_callbacks (abs_slots (type_of_event ev) subs)"
      using P(1) R by (simp add: subscribers_def)
    ultimately show ?thesis using b Publish p by simp
  qed
  then show "fst (bus_step op b) = fst (abs_step op subs)" "bus_rel (snd (abs_step op subs)) (snd (bus_step op b))"
    by blast+
qed

lemma bus_rel_init: "bus_rel [] ([], type_ids_init, EventBus_create)"
  using bus_inv_init by (simp add: bus_rel_def slots_of_def type_ids_init_def abs_slots_def)

lemma run_ops_simulates:
  assumes "bus_rel subs b"
  shows "fst (run_ops bus_step ops b) = fst (run_ops abs_step ops subs)"
    "bus_rel (snd (run_ops abs_step ops subs)) (snd (run_ops bus_step ops b))"
proof -
  have "fst (run_ops bus_step ops b) = fst (run_ops abs_step ops subs)
      \<and> bus_rel (snd (run_ops abs_step ops subs)) (snd (run_ops bus_step ops b))"
    using assms
  proof (induction ops arbitrary: subs b)
    case (Cons op ops)
    note S = bus_step_simulates [OF Cons.prems, of op]
    from Cons.IH [OF S(2)] S(1) show ?case by (simp add: case_prod_beta Let_def)
  qed simp
  then show "fst (run_ops bus_step ops b) = fst (run_ops abs_step ops subs)"
    "bus_rel (snd (run_ops abs_step ops subs)) (snd (run_ops bus_step ops b))" by blast+
qed

text \<open>C31.  However subscriptions, disconnections and publications follow each other, each
  publication calls exactly the callbacks subscribed for the type of its event and not
  disconnected since, in the order of their subscription.  The untyped publication calls the same
  ones, and every signal found under the number of a type was made for that type, so that neither
  the unchecked cast of \<open>publish\<close> nor the checked one of \<open>dispatch\<close> can go wrong.\<close>

theorem EventBus_refines:
  "fst (run_ops bus_step ops ([], type_ids_init, EventBus_create)) = fst (run_ops abs_step ops [])
   \<and> (let (conns, ids, bus) = snd (run_ops bus_step ops ([], type_ids_init, EventBus_create)) in
        publish_dynamic ev bus = fst (publish ev (ids, bus))
        \<and> (\<forall>t i. ti_ids ids t = Some i \<longrightarrow>
             length (eb_signals bus) \<le> i \<or> eb_signals bus ! i = None \<or> fst (the (eb_signals bus ! i)) = t))"
proof -
  note R = run_ops_simulates [OF bus_rel_init]
  obtain conns ids bus where b: "snd (run_ops bus_step ops ([], type_ids_init, EventBus_create)) = (conns, ids, bus)"
    by (metis prod.collapse)
  have inv: "bus_inv (ids, bus)" using R(2) [of ops] unfolding b bus_rel_def by simp
  obtain callbacks st' where p: "publish ev (ids, bus) = (callbacks, st')" by (metis prod.collapse)
  have "publish_dynamic ev bus = fst (publish ev (ids, bus))" using publish_correct(5) [OF inv p] p by simp
  moreover have "length (eb_signals bus) \<le> i \<or> eb_signals bus ! i = None \<or> fst (the (eb_signals bus ! i)) = t"
    if t: "ti_ids ids t = Some i" for t i
  proof (cases "i < length (eb_signals bus) \<and> eb_signals bus ! i \<noteq> None")
    case True
    then obtain u slots where "i < length (eb_signals bus)" "eb_signals bus ! i = Some (u, slots)" by auto
    with bus_invD(3) [OF inv this] bus_invD(2) [OF inv t, of u] show ?thesis by simp
  next
    case False
    then show ?thesis unfolding linorder_not_less [symmetric] by blast
  qed
  ultimately show ?thesis using R(1) [of ops] unfolding b Let_def by simp
qed

lemma EventBus_refines_witness:
  "fst (run_ops bus_step [Subscribe TShotMessage (1 :: nat), Subscribe TShotMessage 2, Disconnect 0,
      Publish (ShotMessageEvent 7)] ([], type_ids_init, EventBus_create)) = [[], [], [], [2]]
   \<and> (let (conns, ids, bus) = snd (run_ops bus_step [Subscribe TShotMessage (1 :: nat),
          Subscribe TShotMessage 2, Disconnect 0, Publish (ShotMessageEvent 7)] ([], type_ids_init, EventBus_create))
      in ti_ids ids TShotMessage = Some 0 \<and> length (eb_signals bus) = 1
         \<and> fst (the (eb_signals bus ! 0)) = TShotMessage)"
  using EventBus_refines [of "[Subscribe TShotMessage (1 :: nat), Subscribe TShotMessage 2, Disconnect 0,
      Publish (ShotMessageEvent 7)]" "ShotMessageEvent 7"]
  by (simp add: abs_slots_def subscribe_def publish_def disconnect_def getOrCreateSignal_def resize_signals_def
      get_type_id_def type_ids_init_def EventBus_create_def connected_callbacks_def)

section \<open>The queue between threads\<close>

type_synonym 'a ThreadSafeQueue = "'a list"

definition queue_push :: "'a \<Rightarrow> 'a ThreadSafeQueue \<Rightarrow> 'a ThreadSafeQueue" where
  "queue_push value q = q @ [value]"

text \<open>\<open>drain\<close> swaps the queue for an empty one and moves the elements out one by one.\<close>

fun drain_loop :: "'a list \<Rightarrow> 'a list \<Rightarrow> 'a list" where
  "drain_loop [] result = result"
| "drain_loop (x # temp) result = drain_loop temp (result @ [x])"

definition queue_drain :: "'a ThreadSafeQueue \<Rightarrow> 'a list \<times> 'a ThreadSafeQueue" where
  "queue_drain q = (drain_loop q [], [])"

definition queue_empty :: "'a ThreadSafeQueue \<Rightarrow> bool" where
  "queue_empty q \<longleftrightarrow> q = []"

definition queue_size :: "'a ThreadSafeQueue \<Rightarrow> nat" where
  "queue_size q = length q"

lemma drain_loop_eq: "drain_loop q result = result @ q"
  by (induction q result rule: drain_loop.induct) simp_all

interpretation tsq: fifo_queue "[]" queue_push queue_drain queue_size
  by unfold_locales (simp_all add: queue_push_def queue_drain_def queue_size_def drain_loop_eq)

text \<open>The queue is a FIFO buffer: draining after any pushes gives what was there before
  and then the pushed values in order, and leaves the queue empty; the size counts them.\<close>

theorem ThreadSafeQueue_fifo:
  "queue_drain (fold queue_push as q) = (q @ as, [])
   \<and> queue_size (fold queue_push as q) = queue_size q + length as
   \<and> (queue_empty (fold queue_push as q) \<longleftrightarrow> q = [] \<and> as = [])"
proof -
  have "queue_drain (fold queue_push as q) = (q @ as, [])"
    using tsq.drain_pushes [of as q] by (simp add: queue_drain_def drain_loop_eq)
  moreover have size: "queue_size (fold queue_push as q) = queue_size q + length as"
    by (rule tsq.size_pushes)
  moreover have "queue_empty (fold queue_push as q) \<longleftrightarrow> queue_size (fold queue_push as q) = 0"
    by (simp add: queue_empty_def queue_size_def)
  moreover have "queue_size q + length as = 0 \<longleftrightarrow> q = [] \<and> as = []"
    by (simp add: queue_size_def)
  ultimately show ?thesis by simp
qed

end
