(* ===== verification/Session.thy ===== *)
theory Session
  imports FrameCodec Events "HOL-Library.Sublist"
begin

text \<open>
  src/src/server/session.h and session.cpp: one client connection.  The strand is the FIFO of
  handlers posted to it.  An outstanding \<open>async_read_some\<close> is a flag; an outstanding
  \<open>async_write\<close> is the rest of its bytes, which reach the wire in pieces.  Completion handlers
  are posted to the strand; closing the socket completes the outstanding operations with an
  error.  What other threads, the transport and the peer do is a step relation.  Published
  events are recorded in order.
\<close>

section \<open>The session\<close>

datatype session_task =
    StartRead
  | SendTask "byte list"
  | CloseTask
  | OnRead "byte list option"
  | OnWrite bool

record Session =
  se_id :: SessionId
  se_closed :: bool
  se_socket_open :: bool
  se_strand :: "session_task list"
  se_read_buffer :: "byte list"
  se_reading :: bool
  se_write_queue :: "byte list list"
  se_is_writing :: bool
  se_writing :: "byte list option"
  se_sent :: "byte list"
  se_published :: "event list"

definition READ_BLOCK_SIZE :: nat where "READ_BLOCK_SIZE = 4096"

definition Session_ctor :: "bool \<Rightarrow> SessionId \<Rightarrow> exn + Session" where
  "Session_ctor has_event_bus sid =
     (if \<not> has_event_bus then Inl (InvalidArgument ''event_bus is null'')
      else Inr \<lparr>se_id = sid, se_closed = False, se_socket_open = True, se_strand = [], se_read_buffer = [],
             se_reading = False, se_write_queue = [], se_is_writing = False, se_writing = None,
             se_sent = [], se_published = []\<rparr>)"

abbreviation se_post :: "session_task \<Rightarrow> Session \<Rightarrow> Session" where
  "se_post t s \<equiv> s\<lparr>se_strand := se_strand s @ [t]\<rparr>"

definition session_start :: "Session \<Rightarrow> Session" where
  "session_start s = (if se_closed s then s else se_post StartRead s)"

definition session_send :: "byte list \<Rightarrow> Session \<Rightarrow> Session" where
  "session_send data s = se_post (SendTask data) s"

definition session_close :: "Session \<Rightarrow> Session" where
  "session_close s = (if se_closed s then s else se_post CloseTask (s\<lparr>se_closed := True\<rparr>))"

definition doRead :: "Session \<Rightarrow> Session" where
  "doRead s = (if se_closed s then s else s\<lparr>se_reading := True\<rparr>)"

definition doWrite :: "(u32 \<Rightarrow> byte list) \<Rightarrow> Session \<Rightarrow> Session" where
  "doWrite store s =
     (if se_closed s then s\<lparr>se_is_writing := False\<rparr>
      else case se_write_queue s of
        [] \<Rightarrow> s\<lparr>se_is_writing := False\<rparr>
      | payload # rest \<Rightarrow>
          let s = s\<lparr>se_write_queue := rest\<rparr>
          in case frame_encode store payload of
               Inl e \<Rightarrow> session_close (s\<lparr>se_is_writing := False\<rparr>)
             | Inr frame \<Rightarrow> s\<lparr>se_writing := Some (concat (buffers frame))\<rparr>)"

text \<open>The handlers on the strand.\<close>

definition on_send :: "(u32 \<Rightarrow> byte list) \<Rightarrow> byte list \<Rightarrow> Session \<Rightarrow> Session" where
  "on_send store data s =
     (if se_closed s then s
      else
        let s = s\<lparr>se_write_queue := se_write_queue s @ [data]\<rparr>
        in if \<not> se_is_writing s then doWrite store (s\<lparr>se_is_writing := True\<rparr>) else s)"

text \<open>Closing the socket aborts what is outstanding on it.\<close>

definition close_socket :: "Session \<Rightarrow> Session" where
  "close_socket s =
     s\<lparr>se_socket_open := False, se_reading := False, se_writing := None,
       se_strand := se_strand s @ (if se_reading s then [OnRead None] else [])
         @ (if se_writing s \<noteq> None then [OnWrite False] else [])\<rparr>"

definition on_close :: "Session \<Rightarrow> Session" where
  "on_close s =
     (let s = close_socket s
      in s\<lparr>se_published := se_published s @ [ClientDisconnectedEvent (se_id s)]\<rparr>)"

text \<open>The callback given to \<open>decode\<close>: the published messages are its state.\<close>

definition publish_frame :: "SessionId \<Rightarrow> event list frame_handler" where
  "publish_frame sid payload evs = (evs @ [NetworkMessageEvent sid payload], None)"

definition on_read :: "(byte list \<Rightarrow> u32) \<Rightarrow> byte list option \<Rightarrow> Session \<Rightarrow> Session" where
  "on_read load result s =
     (case result of
        None \<Rightarrow> session_close s
      | Some bytes \<Rightarrow>
          let (messages, rest, evs, err) =
                frame_decode load (publish_frame (se_id s)) (se_read_buffer s @ bytes) (se_published s)
          in doRead (s\<lparr>se_read_buffer := rest, se_published := evs\<rparr>))"

definition on_write :: "(u32 \<Rightarrow> byte list) \<Rightarrow> bool \<Rightarrow> Session \<Rightarrow> Session" where
  "on_write store ok s =
     (if \<not> ok then session_close (s\<lparr>se_is_writing := False\<rparr>) else doWrite store s)"

definition run_session_task ::
  "(u32 \<Rightarrow> byte list) \<Rightarrow> (byte list \<Rightarrow> u32) \<Rightarrow> session_task \<Rightarrow> Session \<Rightarrow> Session" where
  "run_session_task store load t s =
     (case t of
        StartRead \<Rightarrow> doRead s
      | SendTask data \<Rightarrow> on_send store data s
      | CloseTask \<Rightarrow> on_close s
      | OnRead result \<Rightarrow> on_read load result s
      | OnWrite ok \<Rightarrow> on_write store ok s)"

section \<open>Steps\<close>

datatype session_label =
    SStart | SSend "byte list" | SClose | SReadDone "byte list" | SReadFail | SWriteSome nat | SWriteDone
  | SWriteFail | SRun session_task

inductive session_step ::
  "(u32 \<Rightarrow> byte list) \<Rightarrow> (byte list \<Rightarrow> u32) \<Rightarrow> Session \<Rightarrow> session_label \<Rightarrow> Session \<Rightarrow> bool"
  for store :: "u32 \<Rightarrow> byte list" and load :: "byte list \<Rightarrow> u32" where
  s_start: "session_step store load s SStart (session_start s)"
| s_send: "session_step store load s (SSend data) (session_send data s)"
| s_close: "session_step store load s SClose (session_close s)"
| s_read_done: "se_reading s \<Longrightarrow> bytes \<noteq> [] \<Longrightarrow> length bytes \<le> READ_BLOCK_SIZE \<Longrightarrow>
    session_step store load s (SReadDone bytes) (se_post (OnRead (Some bytes)) (s\<lparr>se_reading := False\<rparr>))"
| s_read_fail: "se_reading s \<Longrightarrow>
    session_step store load s SReadFail (se_post (OnRead None) (s\<lparr>se_reading := False\<rparr>))"
| s_write_some: "se_writing s = Some rem \<Longrightarrow> 0 < k \<Longrightarrow> k \<le> length rem \<Longrightarrow>
    session_step store load s (SWriteSome k) (s\<lparr>se_writing := Some (drop k rem), se_sent := se_sent s @ take k rem\<rparr>)"
| s_write_done: "se_writing s = Some [] \<Longrightarrow>
    session_step store load s SWriteDone (se_post (OnWrite True) (s\<lparr>se_writing := None\<rparr>))"
| s_write_fail: "se_writing s \<noteq> None \<Longrightarrow>
    session_step store load s SWriteFail (se_post (OnWrite False) (s\<lparr>se_writing := None\<rparr>))"
| s_run: "se_strand s = t # rest \<Longrightarrow>
    session_step store load s (SRun t) (run_session_task store load t (s\<lparr>se_strand := rest\<rparr>))"

inductive session_run ::
  "(u32 \<Rightarrow> byte list) \<Rightarrow> (byte list \<Rightarrow> u32) \<Rightarrow> SessionId \<Rightarrow> session_label list \<Rightarrow> Session \<Rightarrow> bool"
  for store :: "u32 \<Rightarrow> byte list" and load :: "byte list \<Rightarrow> u32" and sid :: SessionId where
  created: "Session_ctor True sid = Inr s \<Longrightarrow> session_run store load sid [] s"
| stepped: "session_run store load sid tr s \<Longrightarrow> session_step store load s a s' \<Longrightarrow>
    session_run store load sid (tr @ [a]) s'"

inductive_cases session_stepE: "session_step store load s a s'"

lemmas session_defs = session_start_def session_send_def session_close_def doRead_def on_send_def close_socket_def
  on_close_def on_write_def doWrite_def

section \<open>One operation of each kind\<close>

definition count_task :: "(session_task \<Rightarrow> bool) \<Rightarrow> Session \<Rightarrow> nat" where
  "count_task P s = length (filter P (se_strand s))"

definition is_OnWrite :: "session_task \<Rightarrow> bool" where
  "is_OnWrite t = (case t of OnWrite _ \<Rightarrow> True | _ \<Rightarrow> False)"

definition is_read :: "session_task \<Rightarrow> bool" where
  "is_read t = (case t of OnRead _ \<Rightarrow> True | StartRead \<Rightarrow> True | _ \<Rightarrow> False)"

definition is_CloseTask :: "session_task \<Rightarrow> bool" where
  "is_CloseTask t = (t = CloseTask)"

text \<open>The writes that are on their way: outstanding, or completed with the handler waiting.\<close>

definition writes :: "Session \<Rightarrow> nat" where
  "writes s = of_bool (se_writing s \<noteq> None) + count_task is_OnWrite s"

definition reads :: "Session \<Rightarrow> nat" where
  "reads s = of_bool (se_reading s) + count_task is_read s"

definition disconnects :: "Session \<Rightarrow> nat" where
  "disconnects s = length (filter (\<lambda>e. e = ClientDisconnectedEvent (se_id s)) (se_published s)) + count_task is_CloseTask s"

lemmas task_kinds = is_OnWrite_def is_read_def is_CloseTask_def count_task_def

lemma publish_frame_deliver:
  "deliver (publish_frame sid) ps evs = (length ps, evs @ map (NetworkMessageEvent sid) ps, None)"
  by (induction ps arbitrary: evs) (simp_all add: publish_frame_def)

text \<open>What a completed read does.\<close>

lemma on_read_eq:
  "on_read load (Some bytes) s = doRead (s\<lparr>se_read_buffer := snd (frames load (se_read_buffer s @ bytes)),
     se_published := se_published s @ map (NetworkMessageEvent (se_id s)) (fst (frames load (se_read_buffer s @ bytes)))\<rparr>)"
proof -
  obtain ps rest where u: "unframe load (se_read_buffer s @ bytes) = (ps, rest)" by fastforce
  from frame_decode_deliver [OF u publish_frame_deliver [of "se_id s" ps "se_published s"]] u
  show ?thesis by (auto simp: on_read_def frames_unframe)
qed

lemma on_read_None: "on_read load None s = session_close s"
  by (simp add: on_read_def)

text \<open>What the operations do to the three counts.\<close>

lemma counts_close:
  "writes (session_close s) = writes s" "reads (session_close s) = reads s"
  "disconnects (session_close s) = disconnects s + of_bool (\<not> se_closed s)"
  "se_is_writing (session_close s) = se_is_writing s" "se_closed (session_close s)" "se_id (session_close s) = se_id s"
  by (simp_all add: session_close_def writes_def reads_def disconnects_def task_kinds)

lemma counts_doRead:
  "writes (doRead s) = writes s" "\<not> se_reading s \<Longrightarrow> reads (doRead s) = reads s + of_bool (\<not> se_closed s)"
  "reads (doRead s) \<le> reads s + 1"
  "disconnects (doRead s) = disconnects s" "se_is_writing (doRead s) = se_is_writing s"
  "se_closed (doRead s) = se_closed s" "se_id (doRead s) = se_id s"
  by (simp_all add: doRead_def writes_def reads_def disconnects_def task_kinds)

lemma counts_doWrite:
  "se_writing s = None \<Longrightarrow> se_is_writing s \<Longrightarrow> writes (doWrite store s) = writes s + of_bool (se_is_writing (doWrite store s))"
  "reads (doWrite store s) = reads s"
  "disconnects (doWrite store s) = disconnects s + of_bool (\<not> se_closed s \<and> se_closed (doWrite store s))"
  "se_closed s \<Longrightarrow> se_closed (doWrite store s)" "se_id (doWrite store s) = se_id s"
  by (simp_all add: doWrite_def session_close_def writes_def reads_def disconnects_def task_kinds Let_def
      split: list.split sum.split)

lemma counts_queue:
  "writes (s\<lparr>se_write_queue := q\<rparr>) = writes s" "reads (s\<lparr>se_write_queue := q\<rparr>) = reads s"
  "disconnects (s\<lparr>se_write_queue := q\<rparr>) = disconnects s"
  "writes (s\<lparr>se_is_writing := b\<rparr>) = writes s" "reads (s\<lparr>se_is_writing := b\<rparr>) = reads s"
  "disconnects (s\<lparr>se_is_writing := b\<rparr>) = disconnects s"
  by (simp_all add: writes_def reads_def disconnects_def task_kinds)

lemma counts_messages:
  "writes (s\<lparr>se_read_buffer := b, se_published := se_published s @ map (NetworkMessageEvent k) ps\<rparr>) = writes s"
  "reads (s\<lparr>se_read_buffer := b, se_published := se_published s @ map (NetworkMessageEvent k) ps\<rparr>) = reads s"
  "disconnects (s\<lparr>se_read_buffer := b, se_published := se_published s @ map (NetworkMessageEvent k) ps\<rparr>) = disconnects s"
  by (simp_all add: writes_def reads_def disconnects_def task_kinds filter_empty_conv)

lemma counts_pop:
  assumes "se_strand s = t # rest"
  shows "writes s = writes (s\<lparr>se_strand := rest\<rparr>) + of_bool (is_OnWrite t)"
    "reads s = reads (s\<lparr>se_strand := rest\<rparr>) + of_bool (is_read t)"
    "disconnects s = disconnects (s\<lparr>se_strand := rest\<rparr>) + of_bool (is_CloseTask t)"
  using assms by (simp_all add: writes_def reads_def disconnects_def count_task_def)

lemma counts_socket:
  "writes (close_socket s) = writes s" "reads (close_socket s) = reads s"
  "disconnects (close_socket s) = disconnects s" "se_is_writing (close_socket s) = se_is_writing s"
  "se_closed (close_socket s) = se_closed s" "se_id (close_socket s) = se_id s" "se_published (close_socket s) = se_published s"
  by (simp_all add: close_socket_def writes_def reads_def disconnects_def task_kinds)

lemma counts_on_close:
  "writes (on_close s) = writes s" "reads (on_close s) = reads s" "disconnects (on_close s) = disconnects s + 1"
  "se_is_writing (on_close s) = se_is_writing s" "se_closed (on_close s) = se_closed s" "se_id (on_close s) = se_id s"
  using counts_socket [of s]
  by (simp_all add: on_close_def Let_def) (simp_all add: writes_def reads_def disconnects_def count_task_def)

lemma counts_on_read:
  "writes (on_read load result s) = writes s" "reads (on_read load result s) \<le> reads s + 1"
  "disconnects (on_read load result s) = disconnects s + of_bool (\<not> se_closed s \<and> se_closed (on_read load result s))"
  "se_is_writing (on_read load result s) = se_is_writing s" "se_closed s \<Longrightarrow> se_closed (on_read load result s)"
  "se_id (on_read load result s) = se_id s"
proof -
  let ?P = "writes (on_read load result s) = writes s \<and> reads (on_read load result s) \<le> reads s + 1
    \<and> disconnects (on_read load result s) = disconnects s + of_bool (\<not> se_closed s \<and> se_closed (on_read load result s))
    \<and> se_is_writing (on_read load result s) = se_is_writing s \<and> (se_closed s \<longrightarrow> se_closed (on_read load result s))
    \<and> se_id (on_read load result s) = se_id s"
  have ?P
  proof (cases result)
    case None
    then show ?thesis by (simp add: on_read_None counts_close)
  next
    case (Some bytes)
    let ?s = "s\<lparr>se_read_buffer := snd (frames load (se_read_buffer s @ bytes)),
       se_published := se_published s @ map (NetworkMessageEvent (se_id s)) (fst (frames load (se_read_buffer s @ bytes)))\<rparr>"
    show ?thesis using counts_doRead [of ?s] counts_messages [of s] unfolding Some on_read_eq by simp
  qed
  then show "writes (on_read load result s) = writes s" "reads (on_read load result s) \<le> reads s + 1"
    "disconnects (on_read load result s) = disconnects s + of_bool (\<not> se_closed s \<and> se_closed (on_read load result s))"
    "se_is_writing (on_read load result s) = se_is_writing s" "se_closed s \<Longrightarrow> se_closed (on_read load result s)"
    "se_id (on_read load result s) = se_id s"
    by blast+
qed

lemmas session_counts = counts_close counts_doRead(1,3-) counts_doWrite(2-) counts_queue counts_messages counts_on_close

text \<open>One write is on its way exactly if \<open>is_writing_\<close> is set, at most one read for each
  \<open>start\<close>, and one disconnect, published or about to be, exactly if the session is closed.\<close>

definition one_each :: "Session \<Rightarrow> nat \<Rightarrow> bool" where
  "one_each s n \<longleftrightarrow> writes s = of_bool (se_is_writing s) \<and> reads s \<le> n \<and> disconnects s = of_bool (se_closed s)"

lemma run_one_each:
  assumes "se_strand s = t # rest" "one_each s n"
  shows "one_each (run_session_task store load t (s\<lparr>se_strand := rest\<rparr>)) n
    \<and> se_id (run_session_task store load t (s\<lparr>se_strand := rest\<rparr>)) = se_id s"
proof -
  let ?s = "s\<lparr>se_strand := rest\<rparr>"
  note pop = counts_pop [OF assms(1)] and inv = assms(2) [unfolded one_each_def]
  show ?thesis
  proof (cases t)
    case StartRead
    then show ?thesis using pop inv counts_doRead(3) [of ?s]
      by (simp add: run_session_task_def one_each_def session_counts is_OnWrite_def is_read_def is_CloseTask_def)
  next
    case (SendTask data)
    let ?q = "?s\<lparr>se_write_queue := se_write_queue s @ [data], se_is_writing := True\<rparr>"
    have "se_writing ?q = None" if "\<not> se_is_writing s" using inv that by (simp add: writes_def)
    then show ?thesis using SendTask pop inv counts_doWrite(1) [of ?q store]
      by (cases "se_closed s"; cases "se_is_writing s")
        (simp_all add: run_session_task_def one_each_def on_send_def session_counts is_OnWrite_def is_read_def is_CloseTask_def)
  next
    case CloseTask
    then show ?thesis using pop inv
      by (simp add: run_session_task_def one_each_def session_counts is_OnWrite_def is_read_def is_CloseTask_def)
  next
    case (OnRead result)
    then show ?thesis using pop inv counts_on_read [where load = load and result = result and s = ?s]
      by (cases "se_closed s")
        (simp_all add: run_session_task_def one_each_def is_OnWrite_def is_read_def is_CloseTask_def)
  next
    case (OnWrite ok)
    then have "se_is_writing s" "se_writing s = None" using inv pop
      by (cases "se_is_writing s"; cases "se_writing s"; auto simp: writes_def task_kinds)+
    with OnWrite show ?thesis using pop inv counts_doWrite(1) [of ?s store]
      by (cases ok; cases "se_closed s")
        (simp_all add: run_session_task_def one_each_def on_write_def session_counts is_OnWrite_def is_read_def is_CloseTask_def)
  qed
qed

lemma session_step_one_each:
  assumes "session_step store load s a s'" "one_each s n"
  shows "one_each s' (n + of_bool (a = SStart)) \<and> se_id s' = se_id s"
  using assms
proof (cases rule: session_step.cases)
  case (s_run t rest)
  then show ?thesis using run_one_each [OF _ assms(2)] by simp
qed (auto simp: one_each_def writes_def reads_def disconnects_def task_kinds session_start_def session_send_def
    session_close_def)

section \<open>What has been sent\<close>

text \<open>The payloads handed to the session and the bytes read by it, in the order in which the
  strand handled them.\<close>

fun sends :: "session_label list \<Rightarrow> byte list list" where
  "sends [] = []"
| "sends (a # tr) = (case a of SRun (SendTask d) \<Rightarrow> [d] | _ \<Rightarrow> []) @ sends tr"

fun received :: "session_label list \<Rightarrow> byte list" where
  "received [] = []"
| "received (a # tr) = (case a of SRun (OnRead (Some bytes)) \<Rightarrow> bytes | _ \<Rightarrow> []) @ received tr"

lemma sends_append: "sends (tr @ tr') = sends tr @ sends tr'"
  by (induction tr) simp_all

lemma received_append: "received (tr @ tr') = received tr @ received tr'"
  by (induction tr) simp_all

definition unsent :: "Session \<Rightarrow> byte list" where
  "unsent s = (case se_writing s of None \<Rightarrow> [] | Some rem \<Rightarrow> rem)"

definition write_broken :: "Session \<Rightarrow> bool" where
  "write_broken s \<longleftrightarrow> se_closed s \<or> OnWrite False \<in> set (se_strand s)"

text \<open>\<open>W\<close> are the payloads taken for writing, \<open>X\<close> the others that were handed over.\<close>

definition write_history :: "(u32 \<Rightarrow> byte list) \<Rightarrow> byte list list \<Rightarrow> Session \<Rightarrow> bool" where
  "write_history store ds s \<longleftrightarrow> (\<exists>W X. W @ X = ds \<and> (\<forall>d\<in>set W. frame_ok d)
     \<and> prefix (se_sent s @ unsent s) (concat (map (wire store) W))
     \<and> (\<not> write_broken s \<longrightarrow> se_sent s @ unsent s = concat (map (wire store) W))
     \<and> (\<not> se_closed s \<longrightarrow> X = se_write_queue s))"

lemma frame_encode_cases:
  "frame_encode store d = (if frame_ok d then Inr \<lparr>fr_header = store kMagic @ store (of_nat (length d)), fr_payload = d\<rparr>
     else Inl (LengthError ''FrameCodec::encode: payload exceeds kMaxMessageSize''))"
  by (simp add: frame_encode_def frame_ok_def)

lemma doWrite_history:
  assumes "write_history store ds s" "se_writing s = None" "\<not> write_broken s"
  shows "write_history store ds (doWrite store s)"
proof -
  from assms obtain W where W: "W @ se_write_queue s = ds" "\<forall>d\<in>set W. frame_ok d"
    "se_sent s = concat (map (wire store) W)"
    by (auto simp: write_history_def unsent_def write_broken_def)
  show ?thesis
  proof (cases "se_write_queue s")
    case Nil
    then have "doWrite store s = s\<lparr>se_is_writing := False\<rparr>" by (simp add: doWrite_def)
    with assms show ?thesis by (simp add: write_history_def unsent_def write_broken_def)
  next
    case (Cons d rest)
    show ?thesis
    proof (cases "frame_ok d")
      case True
      then have "doWrite store s = s\<lparr>se_write_queue := rest, se_writing := Some (wire store d)\<rparr>"
        using Cons assms(3) by (simp add: doWrite_def Let_def wire_def frame_encode_cases frame_bytes_def write_broken_def)
      with W Cons True assms(3) show ?thesis unfolding write_history_def
        by (intro exI [of _ "W @ [d]"] exI [of _ rest]) (simp add: unsent_def)
    next
      case False
      then have "doWrite store s = session_close (s\<lparr>se_write_queue := rest, se_is_writing := False\<rparr>)"
        using Cons assms(3) by (simp add: doWrite_def Let_def frame_encode_cases write_broken_def)
      with W Cons assms(2,3) show ?thesis unfolding write_history_def
        by (intro exI [of _ W] exI [of _ "d # rest"]) (simp add: unsent_def session_close_def write_broken_def)
    qed
  qed
qed

lemma write_history_cong:
  assumes "write_history store ds s" "prefix (se_sent s' @ unsent s') (se_sent s @ unsent s)"
    "\<not> write_broken s' \<Longrightarrow> se_sent s' @ unsent s' = se_sent s @ unsent s \<and> \<not> write_broken s"
    "se_closed s \<Longrightarrow> se_closed s'" "\<not> se_closed s' \<Longrightarrow> se_write_queue s' = se_write_queue s"
  shows "write_history store ds s'"
proof -
  from assms(1) obtain W X where W: "W @ X = ds" "\<forall>d\<in>set W. frame_ok d"
     "prefix (se_sent s @ unsent s) (concat (map (wire store) W))"
     "\<not> write_broken s \<longrightarrow> se_sent s @ unsent s = concat (map (wire store) W)"
     "\<not> se_closed s \<longrightarrow> X = se_write_queue s"
    unfolding write_history_def by blast
  have "prefix (se_sent s' @ unsent s') (concat (map (wire store) W))"
    using assms(2) W(3) by (rule prefix_order.trans)
  moreover have "\<not> write_broken s' \<longrightarrow> se_sent s' @ unsent s' = concat (map (wire store) W)"
    using assms(3) W(4) by simp
  moreover have "\<not> se_closed s' \<longrightarrow> X = se_write_queue s'" using assms(4,5) W(5) by auto
  ultimately show ?thesis unfolding write_history_def using W(1,2) by blast
qed

lemma write_history_more:
  assumes "write_history store ds s" "se_sent s' @ unsent s' = se_sent s @ unsent s" "write_broken s' \<longleftrightarrow> write_broken s"
    "se_closed s' \<longleftrightarrow> se_closed s" "\<not> se_closed s \<Longrightarrow> se_write_queue s' = se_write_queue s @ [d]"
  shows "write_history store (ds @ [d]) s'"
proof -
  from assms(1) obtain W X where "W @ X = ds" "\<forall>d\<in>set W. frame_ok d"
     "prefix (se_sent s @ unsent s) (concat (map (wire store) W))"
     "\<not> write_broken s \<longrightarrow> se_sent s @ unsent s = concat (map (wire store) W)"
     "\<not> se_closed s \<longrightarrow> X = se_write_queue s"
    unfolding write_history_def by blast
  with assms(2-) show ?thesis unfolding write_history_def
    by (intro exI [of _ W] exI [of _ "X @ [d]"]) simp
qed

lemma send_write_history:
  assumes "se_strand s = SendTask d # rest" "one_each s n" "write_history store ds s"
  shows "write_history store (ds @ [d]) (on_send store d (s\<lparr>se_strand := rest\<rparr>))"
proof -
  let ?s = "s\<lparr>se_strand := rest\<rparr>"
  have broken: "write_broken s \<longleftrightarrow> write_broken ?s" using assms(1) by (auto simp: write_broken_def)
  show ?thesis
  proof (cases "se_closed s")
    case True
    then show ?thesis using broken write_history_more [OF assms(3), of ?s d] by (simp add: on_send_def unsent_def)
  next
    case op: False
    let ?q = "?s\<lparr>se_write_queue := se_write_queue s @ [d]\<rparr>"
    have q: "write_history store (ds @ [d]) (?q\<lparr>se_is_writing := True\<rparr>)" "write_history store (ds @ [d]) ?q"
      using broken by (auto intro!: write_history_more [OF assms(3)] simp: unsent_def write_broken_def)
    show ?thesis
    proof (cases "se_is_writing s")
      case True
      with q op show ?thesis by (simp add: on_send_def)
    next
      case False
      then have "se_writing s = None" "\<forall>t\<in>set (se_strand s). \<not> is_OnWrite t"
        using assms(2) by (auto simp: one_each_def writes_def count_task_def filter_empty_conv)
      then have "se_writing ?q = None" "\<not> write_broken (?q\<lparr>se_is_writing := True\<rparr>)"
        using op assms(1) by (auto simp: write_broken_def is_OnWrite_def)
      with doWrite_history [OF q(1)] False op show ?thesis by (simp add: on_send_def)
    qed
  qed
qed

lemma run_write_history:
  assumes "se_strand s = t # rest" "one_each s n" "write_history store ds s"
  shows "write_history store (ds @ sends [SRun t]) (run_session_task store load t (s\<lparr>se_strand := rest\<rparr>))"
proof -
  let ?s = "s\<lparr>se_strand := rest\<rparr>"
  note inv = assms(2) [unfolded one_each_def] and pop = counts_pop [OF assms(1)]
  have keep: "write_history store ds (f ?s)"
    if "se_sent (f ?s) = se_sent s" "se_writing (f ?s) = se_writing s" "se_closed s \<Longrightarrow> se_closed (f ?s)"
      "se_write_queue (f ?s) = se_write_queue s" "\<not> se_closed (f ?s) \<Longrightarrow> t \<noteq> OnWrite False \<and> set (se_strand (f ?s)) = set rest" for f
    by (rule write_history_cong [OF assms(3)]) (use that assms(1) in \<open>auto simp: unsent_def write_broken_def\<close>)
  show ?thesis
  proof (cases t)
    case StartRead
    with keep [of doRead] show ?thesis by (cases "se_closed s") (simp_all add: run_session_task_def doRead_def)
  next
    case (SendTask d)
    with send_write_history [OF _ assms(2,3)] assms(1) show ?thesis by (simp add: run_session_task_def)
  next
    case CloseTask
    then have "se_closed s" using inv pop by (cases "se_closed s") (simp_all add: is_CloseTask_def)
    then show ?thesis using CloseTask assms(1)
      by (auto intro!: write_history_cong [OF assms(3)]
          simp: run_session_task_def on_close_def close_socket_def unsent_def write_broken_def)
  next
    case (OnRead result)
    show ?thesis
    proof (cases result)
      case None
      with OnRead keep [of session_close] show ?thesis
        by (cases "se_closed s") (simp_all add: run_session_task_def on_read_None session_close_def)
    next
      case (Some bytes)
      with OnRead keep [of "on_read load result"] show ?thesis
        by (cases "se_closed s") (simp_all add: run_session_task_def on_read_eq doRead_def)
    qed
  next
    case (OnWrite ok)
    then have w: "se_writing s = None" "\<forall>t\<in>set rest. \<not> is_OnWrite t"
      using inv pop by (cases "se_is_writing s"; auto simp: writes_def task_kinds filter_empty_conv)+
    show ?thesis
    proof (cases "ok \<and> \<not> se_closed s")
      case True
      then have "\<not> write_broken ?s" using w(2) by (auto simp: write_broken_def is_OnWrite_def)
      moreover have "write_history store ds ?s"
        using True OnWrite keep [of "\<lambda>s. s"] by simp
      ultimately show ?thesis
        using True OnWrite w(1) doWrite_history [of store ds ?s] by (simp add: run_session_task_def on_write_def)
    next
      case False
      with OnWrite keep [of "on_write store ok"] show ?thesis
        by (cases ok; cases "se_closed s") (simp_all add: run_session_task_def on_write_def session_close_def doWrite_def)
    qed
  qed
qed

lemma step_write_history:
  assumes "session_step store load s a s'" "one_each s n" "write_history store ds s"
  shows "write_history store (ds @ sends [a]) s'"
  using assms
proof (cases rule: session_step.cases)
  case (s_run t rest)
  then show ?thesis using run_write_history [OF _ assms(2,3)] by simp
next
  case (s_write_some rem k)
  then show ?thesis
    by (auto intro!: write_history_cong [OF assms(3)] simp: unsent_def write_broken_def)
next
  case s_write_fail
  then show ?thesis
    by (auto intro!: write_history_cong [OF assms(3)] simp: unsent_def write_broken_def split: option.splits)
qed (auto intro!: write_history_cong [OF assms(3)]
    simp: unsent_def write_broken_def session_start_def session_send_def session_close_def)

section \<open>What has been received\<close>

definition messages :: "SessionId \<Rightarrow> event list \<Rightarrow> byte list list" where
  "messages sid evs = map ev_payload (filter (\<lambda>e. \<exists>p. e = NetworkMessageEvent sid p) evs)"

definition read_history :: "(byte list \<Rightarrow> u32) \<Rightarrow> byte list \<Rightarrow> Session \<Rightarrow> bool" where
  "read_history load bs s \<longleftrightarrow> unframe load bs = (messages (se_id s) (se_published s), se_read_buffer s)"

lemma messages_append: "messages sid (evs @ evs') = messages sid evs @ messages sid evs'"
  by (simp add: messages_def)

lemma messages_of_frames: "messages sid (map (NetworkMessageEvent sid) ps) = ps"
  by (induction ps) (simp_all add: messages_def)

lemma step_read_history:
  assumes "session_step store load s a s'" "read_history load bs s"
  shows "read_history load (bs @ received [a]) s'"
  using assms
proof (cases rule: session_step.cases)
  case (s_run t rest)
  show ?thesis
  proof (cases t)
    case (OnRead result)
    show ?thesis
    proof (cases result)
      case (Some bytes)
      have "read_history load (bs @ bytes) s'"
        using assms(2) s_run OnRead Some unframe_append [of load bs bytes]
        by (simp add: read_history_def run_session_task_def on_read_eq doRead_def messages_append messages_of_frames frames_unframe)
      with s_run OnRead Some show ?thesis by simp
    qed (use s_run OnRead assms(2) in \<open>simp add: read_history_def run_session_task_def on_read_None session_close_def\<close>)
  qed (use s_run assms(2) in \<open>auto simp: read_history_def run_session_task_def session_defs messages_append messages_def Let_def
        split: list.split sum.split\<close>)
qed (use assms(2) in \<open>auto simp: read_history_def session_start_def session_send_def session_close_def\<close>)

text \<open>The bytes that have arrived, and those whose handler is waiting.\<close>

definition arrived :: "session_label list \<Rightarrow> byte list" where
  "arrived tr = concat (map (\<lambda>a. case a of SReadDone bytes \<Rightarrow> bytes | _ \<Rightarrow> []) tr)"

definition reads_pending :: "Session \<Rightarrow> byte list" where
  "reads_pending s = concat (map (\<lambda>t. case t of OnRead (Some bytes) \<Rightarrow> bytes | _ \<Rightarrow> []) (se_strand s))"

lemma session_step_arrived:
  assumes "session_step store load s a s'"
  shows "received [a] @ reads_pending s' = reads_pending s @ arrived [a]"
  using assms
proof (cases rule: session_step.cases)
  case (s_run t rest)
  have keep: "reads_pending (doRead s) = reads_pending s" "reads_pending (session_close s) = reads_pending s"
    "reads_pending (doWrite store s) = reads_pending s" "reads_pending (close_socket s) = reads_pending s" for s
    by (simp_all add: reads_pending_def session_defs Let_def split: list.split sum.split)
  show ?thesis
  proof (cases t)
    case (OnRead result)
    then show ?thesis using s_run keep
      by (cases result)
        (simp_all add: run_session_task_def on_read_None on_read_eq arrived_def, simp_all add: reads_pending_def)
  qed (use s_run keep in \<open>auto simp: run_session_task_def on_send_def on_close_def on_write_def arrived_def Let_def\<close>,
       use s_run in \<open>auto simp: reads_pending_def\<close>)
qed (auto simp: reads_pending_def arrived_def session_start_def session_send_def session_close_def)

lemma session_run_arrived: "session_run store load sid tr s \<Longrightarrow> received tr @ reads_pending s = arrived tr"
proof (induction rule: session_run.induct)
  case (created s)
  then show ?case by (auto simp: Session_ctor_def reads_pending_def arrived_def)
next
  case (stepped tr s a s')
  have "received (tr @ [a]) @ reads_pending s' = received tr @ reads_pending s @ arrived [a]"
    using session_step_arrived [OF stepped.hyps(2)] by (simp only: received_append append_assoc)
  also have "\<dots> = arrived (tr @ [a])" using stepped.IH by (simp add: arrived_def flip: append_assoc)
  finally show ?case .
qed

lemma session_run_all:
  assumes "session_run store load sid tr s"
  shows "one_each s (length (filter (\<lambda>a. a = SStart) tr)) \<and> se_id s = sid
    \<and> write_history store (sends tr) s \<and> read_history load (received tr) s"
  using assms
proof (induction rule: session_run.induct)
  case (created s)
  have nil: "unframe load [] = ([], [])" by (subst unframe.simps) (simp add: front_of_def frame_constants)
  from created show ?case
    by (auto simp: Session_ctor_def one_each_def writes_def reads_def disconnects_def count_task_def write_history_def
        unsent_def read_history_def messages_def nil)
next
  case (stepped tr s a s')
  from stepped.IH have one: "one_each s (length (filter (\<lambda>a. a = SStart) tr))" and id: "se_id s = sid"
    and wh: "write_history store (sends tr) s" and rh: "read_history load (received tr) s" by simp_all
  have "one_each s' (length (filter (\<lambda>a. a = SStart) (tr @ [a])))" "se_id s' = sid"
    using session_step_one_each [OF stepped.hyps(2) one] id by (cases "a = SStart"; simp)+
  then show ?case
    using step_write_history [OF stepped.hyps(2) one wh] step_read_history [OF stepped.hyps(2) rh]
    by (simp add: sends_append received_append)
qed

section \<open>What a session promises\<close>

lemma frames_mono: "prefix a b \<Longrightarrow> prefix (fst (frames load a)) (fst (frames load b))"
proof -
  assume "prefix a b"
  then obtain c where "b = a @ c" by (auto simp: prefix_def)
  then show ?thesis using unframe_append [of load a c] by (simp add: frames_unframe)
qed

lemma session_sent_frames:
  assumes "u32_wire store load" "session_run store load sid tr s"
  shows "prefix (fst (frames load (se_sent s))) (sends tr)"
    "\<not> write_broken s \<Longrightarrow> se_writing s = None \<Longrightarrow> se_write_queue s = [] \<Longrightarrow> frames load (se_sent s) = (sends tr, [])"
proof -
  obtain W X where W: "W @ X = sends tr" "\<forall>d\<in>set W. frame_ok d"
    "prefix (se_sent s @ unsent s) (concat (map (wire store) W))"
    "\<not> write_broken s \<longrightarrow> se_sent s @ unsent s = concat (map (wire store) W)"
    "\<not> se_closed s \<longrightarrow> X = se_write_queue s"
    using session_run_all [OF assms(2)] unfolding write_history_def by blast
  have all: "frames load (concat (map (wire store) W)) = (W, [])"
    by (rule stream_codec.dec_encs [OF frames_stream_codec [OF assms(1)] W(2)])
  have "prefix (se_sent s) (concat (map (wire store) W))" using W(3) prefix_order.trans prefixI by blast
  from frames_mono [OF this, of load] all have "prefix (fst (frames load (se_sent s))) W" by simp
  moreover have "prefix W (sends tr)" using W(1) by (metis prefixI)
  ultimately show "prefix (fst (frames load (se_sent s))) (sends tr)" by (rule prefix_order.trans)
  show "frames load (se_sent s) = (sends tr, [])"
    if "\<not> write_broken s" "se_writing s = None" "se_write_queue s = []"
    using that W all by (simp add: unsent_def write_broken_def)
qed

text \<open>C8.  A session sends what it is given, in order, undamaged: however the strand, the socket
  and other threads interleave, and however the receiver reads the bytes that were written so
  far, it decodes a prefix of the payloads handed over; it decodes all of them once the session
  is idle and neither closed nor failing.\<close>

theorem session_sends_in_order:
  assumes "u32_wire store load" "session_run store load sid tr s" "concat chunks = se_sent s"
  shows "prefix (fst (feed (frames load) chunks [])) (sends tr)
    \<and> (\<not> write_broken s \<longrightarrow> se_writing s = None \<longrightarrow> se_write_queue s = [] \<longrightarrow>
         feed (frames load) chunks [] = (sends tr, []))"
  using session_sent_frames [OF assms(1,2)] unfolding feed_frames assms(3) by blast

text \<open>C9.  A session publishes exactly the frames in the bytes it has read: one message event per
  complete frame, in order, whatever the sizes of the reads; the rest stays in its buffer.\<close>

theorem session_publishes_frames:
  assumes "session_run store load sid tr s"
  shows "(messages sid (se_published s), se_read_buffer s) = frames load (received tr)"
  using session_run_all [OF assms] by (simp add: read_history_def frames_unframe)

text \<open>There is never more than one write under way, and \<open>is_writing_\<close> says exactly whether
  there is one; a session started once never has two reads under way.\<close>

theorem session_one_write:
  assumes "session_run store load sid tr s"
  shows "writes s = of_bool (se_is_writing s) \<and> reads s \<le> length (filter (\<lambda>a. a = SStart) tr)"
  using session_run_all [OF assms] by (simp add: one_each_def)

text \<open>The disconnect is published exactly once for a session that closes, whoever closes it
  and how often, and never for one that does not: as long as the strand has handlers to run it
  may still be waiting there.\<close>

theorem session_disconnects_once:
  assumes "session_run store load sid tr s"
  shows "length (filter (\<lambda>e. e = ClientDisconnectedEvent sid) (se_published s)) \<le> of_bool (se_closed s)
    \<and> (se_strand s = [] \<longrightarrow>
        length (filter (\<lambda>e. e = ClientDisconnectedEvent sid) (se_published s)) = of_bool (se_closed s))"
  using session_run_all [OF assms]
  by (cases "se_closed s") (auto simp: one_each_def disconnects_def count_task_def)

text \<open>A run given by its labels: each step in turn.\<close>

lemma session_run_steps:
  assumes "session_run store load sid tr s" "session_step store load s a s'"
  shows "session_run store load sid (tr @ [a]) s'"
  by (rule session_run.stepped [OF assms])

definition fresh_session :: "SessionId \<Rightarrow> Session" where
  "fresh_session sid = \<lparr>se_id = sid, se_closed = False, se_socket_open = True, se_strand = [], se_read_buffer = [],
     se_reading = False, se_write_queue = [], se_is_writing = False, se_writing = None, se_sent = [], se_published = []\<rparr>"

lemma fresh_session_run: "session_run store load sid [] (fresh_session sid)"
  by (rule session_run.created) (simp add: Session_ctor_def fresh_session_def)

definition late_trace :: "byte list \<Rightarrow> session_label list" where
  "late_trace b = [SStart, SRun StartRead, SClose, SReadDone b, SRun CloseTask, SRun (OnRead (Some b))]"

lemma late_message:
  assumes "u32_wire store load" "kHeaderLength + length payload \<le> READ_BLOCK_SIZE"
  shows "\<exists>s. session_run store load sid (late_trace (wire store payload)) s
    \<and> se_published s = [ClientDisconnectedEvent sid, NetworkMessageEvent sid payload] \<and> se_closed s \<and> se_strand s = []"
proof -
  let ?b = "wire store payload"
  have ok: "frame_ok payload"
    using assms(2) by (simp add: frame_ok_def kMaxMessageSize_def READ_BLOCK_SIZE_def frame_constants)
  have "length ?b = kHeaderLength + length payload"
    using ok u32_wire.length_store [OF assms(1)]
    by (simp add: wire_def frame_encode_cases frame_bytes_def buffers_def frame_constants)
  then have ne: "?b \<noteq> []" "length ?b \<le> READ_BLOCK_SIZE"
    using assms(2) by (auto simp: frame_constants)
  have dec: "frames load ?b = ([payload], [])"
    by (rule stream_codec.dec_enc [OF frames_stream_codec [OF assms(1)] ok])
  let ?s0 = "fresh_session sid"
  let ?s1 = "?s0\<lparr>se_strand := [StartRead]\<rparr>"
  let ?s2 = "?s0\<lparr>se_reading := True\<rparr>"
  let ?s3 = "?s2\<lparr>se_closed := True, se_strand := [CloseTask]\<rparr>"
  let ?s4 = "?s3\<lparr>se_reading := False, se_strand := [CloseTask, OnRead (Some ?b)]\<rparr>"
  let ?s5 = "?s4\<lparr>se_socket_open := False, se_strand := [OnRead (Some ?b)], se_published := [ClientDisconnectedEvent sid]\<rparr>"
  let ?s6 = "?s5\<lparr>se_strand := [], se_published := [ClientDisconnectedEvent sid, NetworkMessageEvent sid payload]\<rparr>"
  have t1: "session_step store load ?s0 SStart ?s1"
    using session_step.s_start [of store load ?s0] by (simp add: session_start_def fresh_session_def)
  have t2: "session_step store load ?s1 (SRun StartRead) ?s2"
    using session_step.s_run [of ?s1 StartRead "[]" store load] by (simp add: run_session_task_def doRead_def fresh_session_def)
  have t3: "session_step store load ?s2 SClose ?s3"
    using session_step.s_close [of store load ?s2] by (simp add: session_close_def fresh_session_def)
  have t4: "session_step store load ?s3 (SReadDone ?b) ?s4"
    using session_step.s_read_done [of ?s3 ?b store load] ne by (simp add: fresh_session_def)
  have t5: "session_step store load ?s4 (SRun CloseTask) ?s5"
    using session_step.s_run [of ?s4 CloseTask "[OnRead (Some ?b)]" store load]
    by (simp add: run_session_task_def on_close_def close_socket_def fresh_session_def)
  have t6: "session_step store load ?s5 (SRun (OnRead (Some ?b))) ?s6"
    using session_step.s_run [of ?s5 "OnRead (Some ?b)" "[]" store load] dec
    by (simp add: run_session_task_def on_read_eq doRead_def fresh_session_def)
  have "session_run store load sid (late_trace ?b) ?s6"
    using session_run_steps [OF session_run_steps [OF session_run_steps [OF session_run_steps [OF session_run_steps
        [OF session_run_steps [OF fresh_session_run t1] t2] t3] t4] t5] t6] by (simp add: late_trace_def)
  then show ?thesis by (intro exI [of _ ?s6]) (simp add: fresh_session_def)
qed

text \<open>A message can be published after the disconnect of its session: if a read completes
  between \<open>close\<close> and the handler that closes the socket, the frame in it is published last,
  when the server has already forgotten the session.  The payload is arbitrary, a join too.\<close>

theorem message_after_disconnect:
  assumes "u32_wire store load" "kHeaderLength + length payload \<le> READ_BLOCK_SIZE"
  shows "\<exists>tr s. session_run store load sid tr s
    \<and> se_published s = [ClientDisconnectedEvent sid, NetworkMessageEvent sid payload]"
  using late_message [OF assms] by blast

section \<open>Witnesses\<close>

lemma late_sample:
  obtains s where "session_run be_bytes be_value 4 (late_trace (wire be_bytes (to_bytes ''JOIN Ann''))) s"
    "se_published s = [ClientDisconnectedEvent 4, NetworkMessageEvent 4 (to_bytes ''JOIN Ann'')]"
    "se_closed s" "se_strand s = []"
  using late_message [OF be.u32_wire_axioms, of "to_bytes ''JOIN Ann''" 4]
  by (auto simp: frame_constants READ_BLOCK_SIZE_def)

theorem message_after_disconnect_witness:
  "\<exists>tr s. session_run be_bytes be_value 4 tr s
    \<and> se_published s = [ClientDisconnectedEvent 4, NetworkMessageEvent 4 (to_bytes ''JOIN Ann'')]"
  by (rule message_after_disconnect [OF be.u32_wire_axioms]) (simp add: frame_constants READ_BLOCK_SIZE_def)

theorem session_publishes_frames_witness:
  "\<exists>s :: Session. messages 4 (se_published s) = [to_bytes ''JOIN Ann''] \<and> se_read_buffer s = []"
proof -
  obtain s where s: "session_run be_bytes be_value 4 (late_trace (wire be_bytes (to_bytes ''JOIN Ann''))) s"
    by (rule late_sample)
  have "frame_ok (to_bytes ''JOIN Ann'')" by (simp add: frame_ok_def kMaxMessageSize_def)
  with session_publishes_frames [OF s] frame_stream.dec_enc show ?thesis
    by (intro exI [of _ s]) (simp add: late_trace_def)
qed

theorem session_one_write_witness:
  "\<exists>s :: Session. writes s = of_bool (se_is_writing s) \<and> reads s \<le> 1 \<and> se_closed s"
proof -
  obtain s where s: "session_run be_bytes be_value 4 (late_trace (wire be_bytes (to_bytes ''JOIN Ann''))) s" "se_closed s"
    by (rule late_sample)
  have "writes s = of_bool (se_is_writing s) \<and> reads s \<le> 1"
    using session_one_write [OF s(1)] by (simp add: late_trace_def)
  with s(2) show ?thesis by blast
qed

theorem session_disconnects_once_witness:
  "\<exists>s :: Session. length (filter (\<lambda>e. e = ClientDisconnectedEvent 4) (se_published s)) = 1 \<and> se_closed s"
proof -
  obtain s where s: "session_run be_bytes be_value 4 (late_trace (wire be_bytes (to_bytes ''JOIN Ann''))) s" "se_closed s"
    "se_strand s = []"
    by (rule late_sample)
  with session_disconnects_once [OF s(1)] show ?thesis by auto
qed

text \<open>A session that has written one payload.\<close>

lemma written_sample:
  "session_run be_bytes be_value 4 [SSend [7], SRun (SendTask [7]), SWriteSome 9, SWriteDone, SRun (OnWrite True)]
     ((fresh_session 4)\<lparr>se_sent := wire be_bytes [7]\<rparr>)"
proof -
  let ?s0 = "fresh_session 4" and ?w = "wire be_bytes [7]"
  have w: "length ?w = 9" "frame_encode be_bytes [7] = Inr \<lparr>fr_header = be_bytes kMagic @ be_bytes (of_nat 1), fr_payload = [7]\<rparr>"
    "?w = concat (buffers \<lparr>fr_header = be_bytes kMagic @ be_bytes (of_nat 1), fr_payload = [7]\<rparr>)"
    by (simp_all add: wire_def frame_encode_cases frame_bytes_def buffers_def be.length_store frame_ok_def kMaxMessageSize_def)
  let ?s1 = "?s0\<lparr>se_strand := [SendTask [7]]\<rparr>"
  let ?s2 = "?s0\<lparr>se_is_writing := True, se_writing := Some ?w\<rparr>"
  let ?s3 = "?s2\<lparr>se_writing := Some [], se_sent := ?w\<rparr>"
  let ?s4 = "?s3\<lparr>se_writing := None, se_strand := [OnWrite True]\<rparr>"
  let ?s5 = "?s4\<lparr>se_strand := [], se_is_writing := False\<rparr>"
  have t1: "session_step be_bytes be_value ?s0 (SSend [7]) ?s1"
    using session_step.s_send [of be_bytes be_value ?s0 "[7]"] by (simp add: session_send_def fresh_session_def)
  have t2: "session_step be_bytes be_value ?s1 (SRun (SendTask [7])) ?s2"
    using session_step.s_run [of ?s1 "SendTask [7]" "[]" be_bytes be_value] w(2,3)
    by (simp add: run_session_task_def on_send_def doWrite_def fresh_session_def)
  have t3: "session_step be_bytes be_value ?s2 (SWriteSome 9) ?s3"
    using session_step.s_write_some [of ?s2 ?w 9 be_bytes be_value] w(1) by (simp add: fresh_session_def)
  have t4: "session_step be_bytes be_value ?s3 SWriteDone ?s4"
    using session_step.s_write_done [of ?s3 be_bytes be_value] by (simp add: fresh_session_def)
  have t5: "session_step be_bytes be_value ?s4 (SRun (OnWrite True)) ?s5"
    using session_step.s_run [of ?s4 "OnWrite True" "[]" be_bytes be_value]
    by (simp add: run_session_task_def on_write_def doWrite_def fresh_session_def)
  have "?s5 = (fresh_session 4)\<lparr>se_sent := ?w\<rparr>" by (simp add: fresh_session_def)
  with session_run_steps [OF session_run_steps [OF session_run_steps [OF session_run_steps
        [OF session_run_steps [OF fresh_session_run t1] t2] t3] t4] t5]
  show ?thesis by simp
qed

theorem session_sends_in_order_witness:
  "feed (frames be_value) [take 4 (wire be_bytes [7]), drop 4 (wire be_bytes [7])] [] = ([[7]], [])"
  using session_sends_in_order [OF be.u32_wire_axioms written_sample,
      of "[take 4 (wire be_bytes [7]), drop 4 (wire be_bytes [7])]"]
  by (simp add: write_broken_def fresh_session_def)

end
