(* ===== verification/Stod.thy ===== *)
theory Stod
  imports Scalar
begin

text \<open>
  \<open>std::stod\<close>, which the router calls on text that clients send: the longest prefix of the
  text, after white space, that is a decimal or hexadecimal number, an infinity or a NaN;
  whatever follows is ignored.  No such prefix is \<open>invalid_argument\<close>, a number out of the
  range of a double is \<open>out_of_range\<close> (a number too small for a normal double counts as
  such if it is not a multiple of the smallest one, as in glibc).  Numbers in range are kept
  exact.
\<close>

definition is_space :: "char \<Rightarrow> bool" where
  "is_space c \<longleftrightarrow> c = CHR '' '' \<or> (9 \<le> (of_char c :: nat) \<and> (of_char c :: nat) \<le> 13)"

definition digit_value :: "char \<Rightarrow> nat" where
  "digit_value c =
     (let n = (of_char c :: nat) in
      if 48 \<le> n \<and> n \<le> 57 then n - 48
      else if 97 \<le> n \<and> n \<le> 102 then n - 87
      else if 65 \<le> n \<and> n \<le> 70 then n - 55 else 99)"

definition is_digit_of :: "nat \<Rightarrow> char \<Rightarrow> bool" where
  "is_digit_of base c \<longleftrightarrow> digit_value c < base"

definition digits_value :: "nat \<Rightarrow> string \<Rightarrow> nat" where
  "digits_value base ds = foldl (\<lambda>v d. v * base + digit_value d) 0 ds"

definition lower :: "char \<Rightarrow> char" where
  "lower c = (let n = (of_char c :: nat) in if 65 \<le> n \<and> n \<le> 90 then char_of (n + 32) else c)"

text \<open>A sign, if there is one, and the rest.\<close>

definition split_sign :: "string \<Rightarrow> bool \<times> string" where
  "split_sign s = (case s of
     CHR ''-'' # t \<Rightarrow> (True, t) | CHR ''+'' # t \<Rightarrow> (False, t) | _ \<Rightarrow> (False, s))"

text \<open>The exponent: the letter, an optional sign and at least one decimal digit; otherwise
  the exponent is absent, that is zero.\<close>

definition parse_exponent :: "char \<Rightarrow> string \<Rightarrow> int" where
  "parse_exponent letter s = (case s of
     [] \<Rightarrow> 0
   | c # t \<Rightarrow>
       if lower c \<noteq> letter then 0
       else let (neg, u) = split_sign t; ds = takeWhile (is_digit_of 10) u
            in if ds = [] then 0
               else if neg then - int (digits_value 10 ds) else int (digits_value 10 ds))"

definition scale :: "real \<Rightarrow> nat \<Rightarrow> int \<Rightarrow> real" where
  "scale x base e = (if 0 \<le> e then x * real base ^ nat e else x / real base ^ nat (- e))"

text \<open>Digits with an optional point, and an exponent to \<open>exp_base\<close>.\<close>

definition parse_unsigned :: "nat \<Rightarrow> char \<Rightarrow> nat \<Rightarrow> string \<Rightarrow> real option" where
  "parse_unsigned base letter exp_base s =
     (let whole = takeWhile (is_digit_of base) s;
          rest = dropWhile (is_digit_of base) s;
          (frac, rest) = (case rest of
              CHR ''.'' # t \<Rightarrow> (takeWhile (is_digit_of base) t, dropWhile (is_digit_of base) t)
            | _ \<Rightarrow> ([], rest))
      in if whole = [] \<and> frac = [] then None
         else Some (scale (scale (real (digits_value base (whole @ frac))) base (- int (length frac)))
                exp_base (parse_exponent letter rest)))"

definition has_prefix :: "string \<Rightarrow> string \<Rightarrow> bool" where
  "has_prefix p s \<longleftrightarrow> map lower (take (length p) s) = p"

definition parse_magnitude :: "string \<Rightarrow> scalar option" where
  "parse_magnitude s =
     (if has_prefix ''inf'' s then Some PInf
      else if has_prefix ''nan'' s then Some NaN
      else if has_prefix ''0x'' s \<and> parse_unsigned 16 (CHR ''p'') 2 (drop 2 s) \<noteq> None
      then map_option Fin (parse_unsigned 16 (CHR ''p'') 2 (drop 2 s))
      else map_option Fin (parse_unsigned 10 (CHR ''e'') 10 s))"

definition out_of_double :: "real \<Rightarrow> bool" where
  "out_of_double r \<longleftrightarrow> 2 ^ 1024 - 2 ^ 970 \<le> \<bar>r\<bar>
     \<or> (r \<noteq> 0 \<and> \<bar>r\<bar> < 1 / 2 ^ 1022 \<and> of_int \<lfloor>r * 2 ^ 1074\<rfloor> \<noteq> r * 2 ^ 1074)"

definition stod :: "string \<Rightarrow> exn + scalar" where
  "stod s =
     (let (neg, t) = split_sign (dropWhile is_space s)
      in case parse_magnitude t of
           None \<Rightarrow> Inl (InvalidArgument ''stod'')
         | Some x \<Rightarrow>
             (case x of Fin r \<Rightarrow> if out_of_double r then Inl (OutOfRange ''stod'')
                                else Inr (if neg then - x else x)
              | _ \<Rightarrow> Inr (if neg then - x else x)))"

text \<open>A sample of inputs.\<close>

lemmas stod_defs = stod_def parse_magnitude_def parse_unsigned_def parse_exponent_def scale_def
  split_sign_def has_prefix_def digits_value_def digit_value_def is_digit_of_def lower_def is_space_def

lemma stod_samples:
  "stod ''nan'' = Inr NaN" "stod ''-inf'' = Inr NInf" "stod '' 1.5x'' = Inr (Fin (3 / 2))"
  "stod ''up'' = Inl (InvalidArgument ''stod'')" "stod '''' = Inl (InvalidArgument ''stod'')"
  "stod ''-25e-1'' = Inr (Fin (- 5 / 2))" "stod ''0x1p4'' = Inr (Fin 16)"
  by (simp_all add: stod_defs out_of_double_def)

end
