(* ===== verification/Protocol.thy ===== *)
theory Protocol
  imports StrongId
begin

text \<open>
  src/src/common/protocol.h and protocol.cpp: the text protocol between client and server.
\<close>

datatype ClientMsgType = Join | Move | Attack

record JoinMsg =
  jm_playerName :: string

record MoveMsg =
  mm_direction :: Direction

definition toWire :: "Direction \<Rightarrow> string" where
  "toWire d = (case d of DirUp \<Rightarrow> ''up'' | DirDown \<Rightarrow> ''down'' | DirLeft \<Rightarrow> ''left'' | DirRight \<Rightarrow> ''right'')"

definition encode_join :: "JoinMsg \<Rightarrow> byte list" where
  "encode_join m = to_bytes (''JOIN '' @ jm_playerName m)"

definition encode_move :: "MoveMsg \<Rightarrow> byte list" where
  "encode_move m = to_bytes (''MOVE '' @ toWire (mm_direction m))"

definition encodeShoot :: "byte list" where
  "encodeShoot = to_bytes ''SHOOT''"

datatype ServerMsgType = Accept | Reject | GameEnd | Unknown

record ServerMsg =
  sm_type :: ServerMsgType
  sm_argument :: string

text \<open>\<open>find\<close> and \<open>substr\<close>: the text before the first space and the text after it.\<close>

definition space :: char where "space = CHR '' ''"

definition after_char :: "char \<Rightarrow> string \<Rightarrow> string" where
  "after_char c s = tl (dropWhile (\<lambda>d. d \<noteq> c) s)"

definition decode :: "byte list \<Rightarrow> ServerMsg" where
  "decode wire =
     (let text = to_text wire;
          keyword = before_char space text;
          argView = after_char space text;
          argView = dropWhile (\<lambda>c. c = space \<or> c = CHR 0x09) argView;
          msg_type = (if keyword = ''ACCEPT'' then Accept
                      else if keyword = ''REJECT'' then Reject
                      else if keyword = ''GAME_END'' then GameEnd
                      else Unknown)
      in \<lparr>sm_type = msg_type, sm_argument = argView\<rparr>)"

lemma after_char_none: "c \<notin> set s \<Longrightarrow> after_char c s = []"
  by (induction s) (auto simp: after_char_def)

lemma after_char_append: "c \<notin> set s \<Longrightarrow> after_char c (s @ c # t) = t"
  by (induction s) (auto simp: after_char_def)

lemma before_char_eq_iff:
  assumes "c \<notin> set kw"
  shows "before_char c s = kw \<longleftrightarrow> s = kw \<or> (\<exists>t. s = kw @ c # t)"
proof
  assume kw: "before_char c s = kw"
  show "s = kw \<or> (\<exists>t. s = kw @ c # t)"
  proof (cases "c \<in> set s")
    case True
    then obtain u t where "s = u @ c # t" "c \<notin> set u" by (metis split_list_first)
    with kw show ?thesis by (auto simp: before_char_append)
  next
    case False
    with kw show ?thesis by (simp add: before_char_id)
  qed
qed (use assms in \<open>auto simp: before_char_id before_char_append\<close>)

text \<open>Keywords match exactly: a payload is an accept (reject, game end) message just
  when it is the keyword alone or the keyword followed by a space, and the argument is what
  follows that space without leading blanks.\<close>

theorem decode_keyword_exact:
  "(sm_type (decode wire) = Accept \<longleftrightarrow> to_text wire = ''ACCEPT'' \<or> (\<exists>t. to_text wire = ''ACCEPT'' @ space # t))
   \<and> (sm_type (decode wire) = Reject \<longleftrightarrow> to_text wire = ''REJECT'' \<or> (\<exists>t. to_text wire = ''REJECT'' @ space # t))
   \<and> (sm_type (decode wire) = GameEnd \<longleftrightarrow> to_text wire = ''GAME_END'' \<or> (\<exists>t. to_text wire = ''GAME_END'' @ space # t))
   \<and> sm_argument (decode (to_bytes (''ACCEPT'' @ space # t))) = dropWhile (\<lambda>c. c = space \<or> c = CHR 0x09) t
   \<and> sm_argument (decode (to_bytes ''ACCEPT'')) = []"
proof -
  have no_space: "space \<notin> set ''ACCEPT''" "space \<notin> set ''REJECT''" "space \<notin> set ''GAME_END''"
    by (simp_all add: space_def)
  have "sm_type (decode wire) = Accept \<longleftrightarrow> before_char space (to_text wire) = ''ACCEPT''"
    "sm_type (decode wire) = Reject \<longleftrightarrow> before_char space (to_text wire) = ''REJECT''"
    "sm_type (decode wire) = GameEnd \<longleftrightarrow> before_char space (to_text wire) = ''GAME_END''"
    by (auto simp: decode_def Let_def)
  moreover have "sm_argument (decode (to_bytes (''ACCEPT'' @ space # t))) = dropWhile (\<lambda>c. c = space \<or> c = CHR 0x09) t"
    unfolding decode_def Let_def to_text_to_bytes after_char_append [OF no_space(1)] by simp
  moreover have "sm_argument (decode (to_bytes ''ACCEPT'')) = []"
    unfolding decode_def Let_def to_text_to_bytes after_char_none [OF no_space(1)] by simp
  ultimately show ?thesis unfolding before_char_eq_iff [OF no_space(1)] before_char_eq_iff [OF no_space(2)]
      before_char_eq_iff [OF no_space(3)] by blast
qed

end
