(* ===== verification/Router.thy ===== *)
theory Router
  imports Events Stod Protocol
begin

text \<open>
  src/src/server/network_response_router.h and network_response_router.cpp: what the server does
  with a decoded payload of a client.  A handler returns the actions it performs, in order:
  publications on the bus (synchronous) and the call of the external message handler.
\<close>

definition kBroadcastSessionId :: SessionId where "kBroadcastSessionId = 0"

datatype 'h router_action = Publish event | CallHandler 'h SessionId "byte list"

datatype router_slot = OnMessageReceived | OnClientConnected | OnClientDisconnected

record 'h Router =
  ro_message_handler :: "'h option"

definition setMessageHandler :: "'h option \<Rightarrow> 'h Router \<Rightarrow> 'h Router" where
  "setMessageHandler handler r = r\<lparr>ro_message_handler := handler\<rparr>"

definition starts_with :: "string \<Rightarrow> string \<Rightarrow> bool" where
  "starts_with p s \<longleftrightarrow> take (length p) s = p"

definition onMessageReceived :: "'h Router \<Rightarrow> SessionId \<Rightarrow> byte list \<Rightarrow> 'h router_action list" where
  "onMessageReceived r session_id payload =
     (let msg = to_text payload
      in if msg = ''SHOOT'' then [Publish (ShotMessageEvent session_id)]
         else if starts_with ''JOIN '' msg
         then [Publish (PlayerJoinEvent session_id (drop 5 msg)),
               Publish (SendPacketEvent session_id (to_bytes ''ACCEPT''))]
         else if starts_with ''MOVE '' msg
         then (case stod (drop 5 msg) of
             Inl e \<Rightarrow> []
           | Inr angle \<Rightarrow> [Publish (PlayerMoveEvent session_id angle)])
         else case ro_message_handler r of
             None \<Rightarrow> []
           | Some handler \<Rightarrow> [CallHandler handler session_id payload])"

text \<open>The other two handlers only log.\<close>

definition onClientConnected :: "SessionId \<Rightarrow> string \<Rightarrow> 'h router_action list" where
  "onClientConnected session_id remote_address = []"

definition onClientDisconnected :: "SessionId \<Rightarrow> 'h router_action list" where
  "onClientDisconnected session_id = []"

definition sendTo :: "SessionId \<Rightarrow> byte list \<Rightarrow> 'h router_action list" where
  "sendTo session_id payload = [Publish (SendPacketEvent session_id payload)]"

definition broadcast :: "byte list \<Rightarrow> 'h router_action list" where
  "broadcast payload = [Publish (SendPacketEvent kBroadcastSessionId payload)]"

text \<open>The callbacks of the router are wrapped by \<open>cb\<close> into those of the bus.\<close>

definition setupSubscriptions ::
  "(router_slot \<Rightarrow> 'c) \<Rightarrow> type_ids \<times> 'c EventBus \<Rightarrow> (nat \<times> nat) list \<times> type_ids \<times> 'c EventBus" where
  "setupSubscriptions cb st =
     (let (c1, st) = subscribe TNetworkMessage (cb OnMessageReceived) st;
          (c2, st) = subscribe TClientConnected (cb OnClientConnected) st;
          (c3, st) = subscribe TClientDisconnected (cb OnClientDisconnected) st
      in ([c1, c2, c3], st))"

definition Router_create ::
  "(router_slot \<Rightarrow> 'c) \<Rightarrow> (type_ids \<times> 'c EventBus) option \<Rightarrow> ('h Router \<times> type_ids \<times> 'c EventBus) option" where
  "Router_create cb event_bus =
     (case event_bus of
        None \<Rightarrow> None
      | Some st \<Rightarrow> Some (\<lparr>ro_message_handler = None\<rparr>, snd (setupSubscriptions cb st)))"

lemma starts_with_append [simp]: "starts_with p (p @ s)"
  by (simp add: starts_with_def)

section \<open>Joining\<close>

text \<open>The join handshake: the payload a client encodes for a player name makes the router
  publish the join of exactly that name for that session, and then send that session an answer
  that the client decodes as an acceptance.\<close>

theorem join_handshake:
  "onMessageReceived r sid (encode_join \<lparr>jm_playerName = name\<rparr>) =
     [Publish (PlayerJoinEvent sid name), Publish (SendPacketEvent sid (to_bytes ''ACCEPT''))]
   \<and> sm_type (decode (to_bytes ''ACCEPT'')) = Accept"
proof -
  have "sm_type (decode (to_bytes ''ACCEPT'')) = Accept"
    by (simp add: decode_def before_char_id space_def)
  moreover have "starts_with ''JOIN '' (''JOIN '' @ name)" by (rule starts_with_append)
  ultimately show ?thesis
    by (simp add: onMessageReceived_def encode_join_def)
qed

section \<open>Moving\<close>

text \<open>The two ends disagree on the move command: every move message the client can encode
  carries a word, which the router, expecting an angle, rejects without any event.  So no
  client of this repository can move its ship.\<close>

theorem client_moves_rejected:
  "onMessageReceived r sid (encode_move m) = []"
proof -
  have "stod (toWire (mm_direction m)) = Inl (InvalidArgument ''stod'')"
    by (cases "mm_direction m") (simp_all add: toWire_def stod_defs)
  moreover have "starts_with ''MOVE '' (''MOVE '' @ toWire (mm_direction m))" by (rule starts_with_append)
  ultimately show ?thesis
    by (simp add: onMessageReceived_def encode_move_def starts_with_def)
qed

text \<open>A client can make the router publish a move whose angle is not a number.\<close>

theorem nan_angle_accepted:
  "onMessageReceived r sid (to_bytes ''MOVE nan'') = [Publish (PlayerMoveEvent sid NaN)]"
  by (simp add: onMessageReceived_def starts_with_def stod_samples)

section \<open>Isolation\<close>

text \<open>One payload makes the router publish at most two events, all about the session that
  sent it; the external handler sees it exactly if it is no shoot, join or move command, and
  then nothing is published.\<close>

theorem router_isolation:
  "length (onMessageReceived r sid payload) \<le> 2
   \<and> (\<forall>a\<in>set (onMessageReceived r sid payload).
        (\<exists>e. a = Publish e \<and> ev_session_id e = sid) \<or> onMessageReceived r sid payload = [a])
   \<and> (onMessageReceived r sid payload = [CallHandler h sid' payload'] \<longleftrightarrow>
        ro_message_handler r = Some h \<and> sid' = sid \<and> payload' = payload \<and> to_text payload \<noteq> ''SHOOT''
        \<and> \<not> starts_with ''JOIN '' (to_text payload) \<and> \<not> starts_with ''MOVE '' (to_text payload))"
  by (auto simp: onMessageReceived_def Let_def split: sum.split option.split)

theorem router_isolation_witness:
  "length (onMessageReceived \<lparr>ro_message_handler = Some ''log''\<rparr> 4 (to_bytes ''JOIN Ann'')) \<le> 2
   \<and> onMessageReceived \<lparr>ro_message_handler = Some ''log''\<rparr> 4 (to_bytes ''PING'') = [CallHandler ''log'' 4 (to_bytes ''PING'')]"
  using router_isolation [of "\<lparr>ro_message_handler = Some ''log''\<rparr>" 4 "to_bytes ''JOIN Ann''"]
    router_isolation [of "\<lparr>ro_message_handler = Some ''log''\<rparr>" 4 "to_bytes ''PING''" "''log''" 4 "to_bytes ''PING''"]
  by (simp add: starts_with_def)

section \<open>Subscriptions\<close>

lemma setupSubscriptions_correct:
  assumes "bus_inv st" "setupSubscriptions cb st = (conns, st')"
  shows "bus_inv st'" "subscribers t st' = subscribers t st @
        (case t of TNetworkMessage \<Rightarrow> [cb OnMessageReceived] | TClientConnected \<Rightarrow> [cb OnClientConnected]
          | TClientDisconnected \<Rightarrow> [cb OnClientDisconnected] | _ \<Rightarrow> [])"
proof -
  obtain c1 st1 where s1: "subscribe TNetworkMessage (cb OnMessageReceived) st = (c1, st1)" by (metis prod.collapse)
  obtain c2 st2 where s2: "subscribe TClientConnected (cb OnClientConnected) st1 = (c2, st2)" by (metis prod.collapse)
  obtain c3 st3 where s3: "subscribe TClientDisconnected (cb OnClientDisconnected) st2 = (c3, st3)" by (metis prod.collapse)
  note S1 = subscribe_correct [OF assms(1) s1] note S2 = subscribe_correct [OF S1(1) s2]
  note S3 = subscribe_correct [OF S2(1) s3]
  have st': "st' = st3" using assms(2) by (simp add: setupSubscriptions_def s1 s2 s3)
  show "bus_inv st'" using S3(1) by (simp add: st')
  show "subscribers t st' = subscribers t st @
        (case t of TNetworkMessage \<Rightarrow> [cb OnMessageReceived] | TClientConnected \<Rightarrow> [cb OnClientConnected]
          | TClientDisconnected \<Rightarrow> [cb OnClientDisconnected] | _ \<Rightarrow> [])"
    unfolding st' using S1(2) [of t] S2(2) [of t] S3(2) [of t] by (cases t) simp_all
qed

text \<open>The router a non-null bus creates is called for messages, connections and
  disconnections, after whoever subscribed before it, and for no other event.\<close>

theorem Router_create_subscriptions:
  assumes "bus_inv st"
  shows "\<exists>st'. Router_create cb (Some st) = Some (\<lparr>ro_message_handler = None\<rparr>, st') \<and> bus_inv st'
    \<and> subscribers t st' = subscribers t st @
        (case t of TNetworkMessage \<Rightarrow> [cb OnMessageReceived] | TClientConnected \<Rightarrow> [cb OnClientConnected]
          | TClientDisconnected \<Rightarrow> [cb OnClientDisconnected] | _ \<Rightarrow> [])"
proof -
  obtain conns st' where s: "setupSubscriptions cb st = (conns, st')" by (metis prod.collapse)
  from setupSubscriptions_correct [OF assms s] s show ?thesis
    by (intro exI [of _ st']) (simp add: Router_create_def)
qed

theorem Router_create_subscriptions_witness:
  "\<exists>st'. Router_create id (Some (type_ids_init, EventBus_create)) = Some (\<lparr>ro_message_handler = None\<rparr>, st')
     \<and> bus_inv st' \<and> subscribers TNetworkMessage st' = [OnMessageReceived]"
  using Router_create_subscriptions [OF bus_inv_init, of id TNetworkMessage]
  by (simp add: subscribers_def slots_of_def type_ids_init_def)

end
