(* ===== verification/TcpServer.thy ===== *)
theory TcpServer
  imports Session Router
begin

text \<open>
  src/src/server/session_registry.h, session_registry.cpp, tcp_server.h and tcp_server.cpp: the
  table of sessions and the acceptor that fills it.  A \<open>shared_ptr<Session>\<close> is the index of the
  session object in the list of all sessions ever created (an object lives as long as something
  points to it, so none is removed from the list); the table is iterated over, so it is an
  association list.
\<close>

section \<open>The registry\<close>

type_synonym SessionRef = nat

record SessionRegistry =
  rg_sessions :: "(SessionId \<times> SessionRef) list"

datatype registry_slot = RegistrySend | RegistryRemove

text \<open>The constructor subscribes two callbacks, wrapped by \<open>cb\<close> into the callbacks of the bus; a fresh
  connection is connected, so the second check of the source never throws.\<close>

definition SessionRegistry_ctor ::
  "(registry_slot \<Rightarrow> 'h) \<Rightarrow> (type_ids \<times> 'h EventBus) option \<Rightarrow> exn + (SessionRegistry \<times> type_ids \<times> 'h EventBus)" where
  "SessionRegistry_ctor cb event_bus =
     (case event_bus of
        None \<Rightarrow> Inl (InvalidArgument ''Eventbus is null'')
      | Some st \<Rightarrow>
          let (send_subscription, st) = subscribe TSendPacket (cb RegistrySend) st;
              (remove_subscription, st) = subscribe TClientDisconnected (cb RegistryRemove) st
          in Inr (\<lparr>rg_sessions = []\<rparr>, st))"

definition addSession :: "SessionRef option \<Rightarrow> Session list \<Rightarrow> SessionRegistry \<Rightarrow> SessionRegistry" where
  "addSession session heap reg =
     (case session of
        None \<Rightarrow> reg
      | Some r \<Rightarrow>
          let sid = se_id (heap ! r)
          in if map_of (rg_sessions reg) sid = None
             then reg\<lparr>rg_sessions := (sid, r) # rg_sessions reg\<rparr> else reg)"

definition at_session :: "SessionRef \<Rightarrow> (Session \<Rightarrow> Session) \<Rightarrow> Session list \<Rightarrow> Session list" where
  "at_session r f heap = heap[r := f (heap ! r)]"

definition removeSession :: "SessionId \<Rightarrow> SessionRegistry \<times> Session list \<Rightarrow> SessionRegistry \<times> Session list" where
  "removeSession sid st =
     (case map_of (rg_sessions (fst st)) sid of
        None \<Rightarrow> st
      | Some session_to_remove \<Rightarrow>
          ((fst st)\<lparr>rg_sessions := AList.delete sid (rg_sessions (fst st))\<rparr>,
           at_session session_to_remove session_close (snd st)))"

definition registry_broadcast :: "byte list \<Rightarrow> SessionRegistry \<Rightarrow> Session list \<Rightarrow> Session list" where
  "registry_broadcast data reg heap =
     fold (\<lambda>r. at_session r (session_send data)) (map snd (rg_sessions reg)) heap"

definition getSession :: "SessionId \<Rightarrow> SessionRegistry \<Rightarrow> SessionRef option" where
  "getSession sid reg = map_of (rg_sessions reg) sid"

text \<open>The callback subscribed to \<open>SendPacketEvent\<close>.\<close>

definition onSendPacket :: "SessionId \<Rightarrow> byte list \<Rightarrow> SessionRegistry \<Rightarrow> Session list \<Rightarrow> Session list" where
  "onSendPacket sid payload reg heap =
     (if sid = kBroadcastSessionId then registry_broadcast payload reg heap
      else case map_of (rg_sessions reg) sid of
        None \<Rightarrow> heap
      | Some session \<Rightarrow> at_session session (session_send payload) heap)"

section \<open>The acceptor\<close>

record TcpServer =
  ts_acceptor_open :: bool
  ts_accepting :: nat
  ts_next_session_id :: u64
  ts_registry :: SessionRegistry
  ts_heap :: "Session list"

definition TcpServer_ctor ::
  "(registry_slot \<Rightarrow> 'h) \<Rightarrow> (type_ids \<times> 'h EventBus) option \<Rightarrow> exn + (TcpServer \<times> type_ids \<times> 'h EventBus)" where
  "TcpServer_ctor cb event_bus =
     (case event_bus of
        None \<Rightarrow> Inl (InvalidArgument ''event_bus must not be null'')
      | Some st \<Rightarrow> and_then (SessionRegistry_ctor cb (Some st)) (\<lambda>(reg, st).
          Inr (\<lparr>ts_acceptor_open = True, ts_accepting = 0, ts_next_session_id = 1, ts_registry = reg, ts_heap = []\<rparr>, st)))"

definition doAccept :: "TcpServer \<Rightarrow> TcpServer" where
  "doAccept s = s\<lparr>ts_accepting := ts_accepting s + 1\<rparr>"

definition server_start :: "TcpServer \<Rightarrow> TcpServer" where
  "server_start s = doAccept s"

text \<open>Closing the acceptor aborts the outstanding accept; its handler then runs with
  \<open>operation_aborted\<close>.\<close>

definition server_stop :: "TcpServer \<Rightarrow> TcpServer" where
  "server_stop s = s\<lparr>ts_acceptor_open := False\<rparr>"

datatype accept_result = AcceptAborted | AcceptFailed | Accepted "string option"

text \<open>The handler of \<open>async_accept\<close>; the address is missing if \<open>remote_endpoint\<close> fails.\<close>

definition on_accept :: "accept_result \<Rightarrow> TcpServer \<Rightarrow> TcpServer \<times> event list" where
  "on_accept result s =
     (let s = s\<lparr>ts_accepting := ts_accepting s - 1\<rparr>
      in case result of
           AcceptAborted \<Rightarrow> (s, [])
         | AcceptFailed \<Rightarrow> (if ts_acceptor_open s then doAccept s else s, [])
         | Accepted endpoint \<Rightarrow>
             let session_id = ts_next_session_id s;
                 s = s\<lparr>ts_next_session_id := ts_next_session_id s + 1\<rparr>;
                 remote_address = (case endpoint of Some a \<Rightarrow> a | None \<Rightarrow> [])
             in case Session_ctor True session_id of
                  Inl e \<Rightarrow> (s, [])
                | Inr session \<Rightarrow>
                    let r = length (ts_heap s);
                        s = s\<lparr>ts_heap := ts_heap s @ [session]\<rparr>;
                        s = s\<lparr>ts_registry := addSession (Some r) (ts_heap s) (ts_registry s)\<rparr>;
                        s = s\<lparr>ts_heap := at_session r session_start (ts_heap s)\<rparr>
                    in (if ts_acceptor_open s then doAccept s else s,
                        [ClientConnectedEvent session_id remote_address]))"

text \<open>The two callbacks of the registry, for the server.\<close>

definition registry_on_event :: "registry_slot \<Rightarrow> event \<Rightarrow> TcpServer \<Rightarrow> TcpServer" where
  "registry_on_event sl ev s =
     (case (sl, ev) of
        (RegistrySend, SendPacketEvent sid payload) \<Rightarrow> s\<lparr>ts_heap := onSendPacket sid payload (ts_registry s) (ts_heap s)\<rparr>
      | (RegistryRemove, ClientDisconnectedEvent sid) \<Rightarrow>
          let (reg, heap) = removeSession sid (ts_registry s, ts_heap s)
          in s\<lparr>ts_registry := reg, ts_heap := heap\<rparr>
      | _ \<Rightarrow> s)"

section \<open>The invariant\<close>

text \<open>The sessions are numbered from 1 in the order of their creation, the table maps the
  numbers of some of them to their objects, a session that is not in it is closed, and the
  counter has not wrapped.\<close>

definition server_inv :: "TcpServer \<Rightarrow> bool" where
  "server_inv s \<longleftrightarrow> ts_next_session_id s = of_nat (length (ts_heap s)) + 1 \<and> length (ts_heap s) + 1 < 2 ^ 64
     \<and> (\<forall>r<length (ts_heap s). se_id (ts_heap s ! r) = of_nat r + 1)
     \<and> wf_alist (rg_sessions (ts_registry s))
     \<and> (\<forall>(sid, r)\<in>set (rg_sessions (ts_registry s)). r < length (ts_heap s) \<and> sid = of_nat r + 1)
     \<and> (\<forall>r<length (ts_heap s). r \<notin> snd ` set (rg_sessions (ts_registry s)) \<longrightarrow> se_closed (ts_heap s ! r))"

lemma unat_ref:
  assumes "n + 1 < 2 ^ 64"
  shows "unat (of_nat n + 1 :: u64) = n + 1"
proof (rule of_nat_inverse)
  show "of_nat (n + 1) = (of_nat n + 1 :: u64)" by (simp only: of_nat_add of_nat_1)
  have len: "LENGTH(64) = 64" by simp
  show "n + 1 < 2 ^ LENGTH(64)" unfolding len by (rule assms)
qed

lemma ref_id_inject:
  assumes "i + 1 < 2 ^ 64" "j + 1 < 2 ^ 64" "(of_nat i + 1 :: u64) = of_nat j + 1"
  shows "i = j"
proof -
  have "i + 1 = j + 1" using unat_ref [OF assms(1)] unat_ref [OF assms(2)] unfolding assms(3) by (rule trans [OF sym])
  then show ?thesis by (rule add_right_imp_eq)
qed

lemma ref_id_nonzero:
  assumes "i + 1 < 2 ^ 64"
  shows "(of_nat i + 1 :: u64) \<noteq> 0"
proof
  assume "(of_nat i + 1 :: u64) = 0"
  with unat_ref [OF assms] have "unat (0 :: u64) = i + 1" by (simp only:)
  then show False by simp
qed

lemma at_session_id: "(\<And>x. se_id (f x) = se_id x) \<Longrightarrow> se_id (at_session r f heap ! i) = se_id (heap ! i)"
  by (cases "i = r"; cases "r < length heap") (simp_all add: at_session_def list_update_beyond)

lemma at_session_nth: "r < length heap \<Longrightarrow> at_session r f heap ! i = (if i = r then f (heap ! r) else heap ! i)"
  by (simp add: at_session_def)

lemma length_at_session [simp]: "length (at_session r f heap) = length heap"
  by (simp add: at_session_def)

lemma session_ops_id [simp]:
  "se_id (session_start x) = se_id x" "se_id (session_send d x) = se_id x" "se_id (session_close x) = se_id x"
  by (simp_all add: session_start_def session_send_def session_close_def)

lemma fold_at_session:
  assumes "distinct rs" "\<forall>r\<in>set rs. r < length heap"
  shows "length (fold (\<lambda>r. at_session r f) rs heap) = length heap"
    "i < length heap \<Longrightarrow> fold (\<lambda>r. at_session r f) rs heap ! i = (if i \<in> set rs then f (heap ! i) else heap ! i)"
proof -
  have "length (fold (\<lambda>r. at_session r f) rs heap) = length heap
    \<and> (\<forall>i<length heap. fold (\<lambda>r. at_session r f) rs heap ! i = (if i \<in> set rs then f (heap ! i) else heap ! i))"
    using assms
  proof (induction rs arbitrary: heap)
    case (Cons r rs)
    from Cons.prems have IH: "length (fold (\<lambda>r. at_session r f) rs (at_session r f heap)) = length heap
      \<and> (\<forall>i<length heap. fold (\<lambda>r. at_session r f) rs (at_session r f heap) ! i
          = (if i \<in> set rs then f (at_session r f heap ! i) else at_session r f heap ! i))"
      using Cons.IH [of "at_session r f heap"] by (simp only: length_at_session) simp
    show ?case unfolding fold.simps o_apply using IH Cons.prems by (simp only: length_at_session) (auto simp: at_session_nth)
  qed simp
  then show "length (fold (\<lambda>r. at_session r f) rs heap) = length heap"
    "i < length heap \<Longrightarrow> fold (\<lambda>r. at_session r f) rs heap ! i = (if i \<in> set rs then f (heap ! i) else heap ! i)"
    by blast+
qed

lemma registered_refs:
  assumes "server_inv s"
  shows "distinct (map snd (rg_sessions (ts_registry s)))"
    "\<forall>r\<in>set (map snd (rg_sessions (ts_registry s))). r < length (ts_heap s)"
    "(sid, r) \<in> set (rg_sessions (ts_registry s)) \<Longrightarrow> map_of (rg_sessions (ts_registry s)) sid = Some r"
    "map_of (rg_sessions (ts_registry s)) sid = Some r \<Longrightarrow> r < length (ts_heap s) \<and> sid = of_nat r + 1"
proof -
  let ?m = "rg_sessions (ts_registry s)"
  have all: "\<forall>(sid, r)\<in>set ?m. r < length (ts_heap s) \<and> sid = of_nat r + 1" and wf: "wf_alist ?m"
    using assms by (simp_all add: server_inv_def)
  have "inj_on snd (set ?m)"
    using all by (simp add: inj_on_def split_beta) (metis prod.collapse)
  with wf show "distinct (map snd ?m)" by (simp add: wf_alist_def distinct_map)
  show "\<forall>r\<in>set (map snd ?m). r < length (ts_heap s)" using all by auto
  show "(sid, r) \<in> set ?m \<Longrightarrow> map_of ?m sid = Some r" using map_of_SomeI [OF wf] .
  show "map_of ?m sid = Some r \<Longrightarrow> r < length (ts_heap s) \<and> sid = of_nat r + 1"
    using all map_of_SomeD by fastforce
qed

text \<open>The number of a session object follows from its position.\<close>

lemma session_ids:
  assumes "server_inv s" "i < length (ts_heap s)"
  shows "se_id (ts_heap s ! i) = of_nat i + 1" "se_id (ts_heap s ! i) \<noteq> 0"
    "j < length (ts_heap s) \<Longrightarrow> se_id (ts_heap s ! j) = se_id (ts_heap s ! i) \<longleftrightarrow> j = i"
    "map_of (rg_sessions (ts_registry s)) (se_id (ts_heap s ! i)) = Some k \<Longrightarrow> k = i"
    "map_of (rg_sessions (ts_registry s)) sid = Some i \<Longrightarrow> sid = se_id (ts_heap s ! i)"
proof -
  have id: "se_id (ts_heap s ! k) = of_nat k + 1" if "k < length (ts_heap s)" for k
    using assms(1) that by (simp add: server_inv_def)
  have "length (ts_heap s) + 1 < 2 ^ 64" using assms(1) unfolding server_inv_def by blast
  then have small: "k + 1 < 2 ^ 64" if "k < length (ts_heap s)" for k
    using that by (meson add_less_mono1 less_trans)
  show "se_id (ts_heap s ! i) = of_nat i + 1" by (rule id [OF assms(2)])
  show "se_id (ts_heap s ! i) \<noteq> 0" unfolding id [OF assms(2)] by (rule ref_id_nonzero [OF small [OF assms(2)]])
  show "j < length (ts_heap s) \<Longrightarrow> se_id (ts_heap s ! j) = se_id (ts_heap s ! i) \<longleftrightarrow> j = i"
    using ref_id_inject [OF small small, of j i] id assms(2) by metis
  show "k = i" if "map_of (rg_sessions (ts_registry s)) (se_id (ts_heap s ! i)) = Some k"
    using registered_refs(4) [OF assms(1) that] ref_id_inject [OF small small, of k i] id assms(2) by metis
  show "map_of (rg_sessions (ts_registry s)) sid = Some i \<Longrightarrow> sid = se_id (ts_heap s ! i)"
    using registered_refs(4) [OF assms(1), of sid i] id by simp
qed

lemma server_inv_heap:
  assumes "server_inv s" "length heap = length (ts_heap s)" "\<And>i. i < length heap \<Longrightarrow> se_id (heap ! i) = se_id (ts_heap s ! i)"
    "\<And>i. i < length heap \<Longrightarrow> se_closed (ts_heap s ! i) \<Longrightarrow> se_closed (heap ! i)"
  shows "server_inv (s\<lparr>ts_heap := heap\<rparr>)"
  using assms by (simp add: server_inv_def)

lemma session_ops_closed [simp]:
  "se_closed (session_start x) = se_closed x" "se_closed (session_send d x) = se_closed x" "se_closed (session_close x)"
  by (simp_all add: session_start_def session_send_def session_close_def)

lemma onSendPacket_heap:
  assumes "server_inv s"
  shows "length (onSendPacket sid payload (ts_registry s) (ts_heap s)) = length (ts_heap s)"
    "i < length (ts_heap s) \<Longrightarrow> onSendPacket sid payload (ts_registry s) (ts_heap s) ! i =
     (if (if sid = 0 then i \<in> snd ` set (rg_sessions (ts_registry s)) else map_of (rg_sessions (ts_registry s)) sid = Some i)
      then session_send payload (ts_heap s ! i) else ts_heap s ! i)"
proof -
  note reg = registered_refs [OF assms]
  let ?h = "onSendPacket sid payload (ts_registry s) (ts_heap s)"
  have h: "length ?h = length (ts_heap s) \<and> (\<forall>i<length (ts_heap s). ?h ! i =
     (if (if sid = 0 then i \<in> snd ` set (rg_sessions (ts_registry s)) else map_of (rg_sessions (ts_registry s)) sid = Some i)
      then session_send payload (ts_heap s ! i) else ts_heap s ! i))"
  proof (cases "sid = 0")
    case True
    then show ?thesis
      using fold_at_session [OF reg(1,2), where f = "session_send payload"]
      by (simp add: onSendPacket_def kBroadcastSessionId_def registry_broadcast_def)
  next
    case False
    then show ?thesis
      by (cases "map_of (rg_sessions (ts_registry s)) sid")
        (auto simp: onSendPacket_def kBroadcastSessionId_def at_session_def nth_list_update)
  qed
  then show "length ?h = length (ts_heap s)"
    "i < length (ts_heap s) \<Longrightarrow> ?h ! i =
     (if (if sid = 0 then i \<in> snd ` set (rg_sessions (ts_registry s)) else map_of (rg_sessions (ts_registry s)) sid = Some i)
      then session_send payload (ts_heap s ! i) else ts_heap s ! i)"
    by blast+
qed

lemma send_packet_inv:
  assumes "server_inv s"
  shows "server_inv (s\<lparr>ts_heap := onSendPacket sid payload (ts_registry s) (ts_heap s)\<rparr>)"
  by (rule server_inv_heap [OF assms]) (simp_all add: onSendPacket_heap [OF assms])

lemma removeSession_eq:
  assumes "server_inv s" "removeSession sid (ts_registry s, ts_heap s) = (reg, heap)"
  shows "rg_sessions reg = AList.delete sid (rg_sessions (ts_registry s))" "length heap = length (ts_heap s)"
    "i < length (ts_heap s) \<Longrightarrow> heap ! i =
      (if map_of (rg_sessions (ts_registry s)) sid = Some i then session_close (ts_heap s ! i) else ts_heap s ! i)"
proof -
  have "AList.delete sid m = m" if "map_of m sid = None" for m :: "(SessionId \<times> SessionRef) list"
    using that by (simp add: delete_idem map_of_eq_None_iff)
  then show "rg_sessions reg = AList.delete sid (rg_sessions (ts_registry s))" "length heap = length (ts_heap s)"
    "i < length (ts_heap s) \<Longrightarrow> heap ! i =
      (if map_of (rg_sessions (ts_registry s)) sid = Some i then session_close (ts_heap s ! i) else ts_heap s ! i)"
    using assms(2) by (auto simp: removeSession_def at_session_def nth_list_update split: option.splits)
qed

lemma remove_inv:
  assumes "server_inv s" "removeSession sid (ts_registry s, ts_heap s) = (reg, heap)"
  shows "server_inv (s\<lparr>ts_registry := reg, ts_heap := heap\<rparr>)"
proof -
  note rm = removeSession_eq [OF assms]
  let ?m = "rg_sessions (ts_registry s)"
  have closed: "se_closed (heap ! r)" if r: "r < length (ts_heap s)" "r \<notin> snd ` set (rg_sessions reg)" for r
  proof (cases "r \<in> snd ` set ?m")
    case True
    then obtain k where k: "(k, r) \<in> set ?m" by force
    then have "k = sid" using r(2) rm(1) by (force simp: AList.delete_eq image_iff)
    then have "map_of ?m sid = Some r" using registered_refs(3) [OF assms(1)] k by simp
    then show ?thesis using rm(3) r(1) by simp
  next
    case False
    then have "se_closed (ts_heap s ! r)" using assms(1) r(1) by (simp add: server_inv_def)
    then show ?thesis using rm(3) r(1) by simp
  qed
  have "set (rg_sessions reg) \<subseteq> set ?m" by (auto simp: rm(1) AList.delete_eq)
  moreover have "wf_alist (rg_sessions reg)" using assms(1) by (simp add: rm(1) wf_alist_delete server_inv_def)
  ultimately show ?thesis using assms(1) closed rm(2,3) unfolding server_inv_def by auto
qed

text \<open>Sending: a packet for a session goes to the object registered under its number and
  to no other, a packet for nobody registered is dropped, and a broadcast (number 0, which no
  session has) reaches every registered session exactly once and no other.\<close>

theorem packet_delivery:
  assumes "server_inv s" "s' = registry_on_event RegistrySend (SendPacketEvent sid payload) s" "i < length (ts_heap s)"
  shows "ts_heap s' ! i =
     (if (if sid = 0 then i \<in> snd ` set (rg_sessions (ts_registry s)) else map_of (rg_sessions (ts_registry s)) sid = Some i)
      then session_send payload (ts_heap s ! i) else ts_heap s ! i)
    \<and> ts_registry s' = ts_registry s \<and> server_inv s'"
  using assms onSendPacket_heap [OF assms(1)] send_packet_inv [OF assms(1)] by (simp add: registry_on_event_def)

lemma send_to_session:
  assumes "server_inv s" "i < length (ts_heap s)" "se_id (ts_heap s ! i) = sid"
  shows "ts_heap (registry_on_event RegistrySend (SendPacketEvent sid payload) s) ! i =
      (if getSession sid (ts_registry s) = None then ts_heap s ! i else session_send payload (ts_heap s ! i))"
    "j < length (ts_heap s) \<Longrightarrow> j \<noteq> i \<Longrightarrow>
      ts_heap (registry_on_event RegistrySend (SendPacketEvent sid payload) s) ! j = ts_heap s ! j"
    "ts_registry (registry_on_event RegistrySend (SendPacketEvent sid payload) s) = ts_registry s"
proof -
  let ?find = "map_of (rg_sessions (ts_registry s)) sid"
  note h = onSendPacket_heap(2) [OF assms(1), of _ sid payload]
  have found: "?find = None \<or> ?find = Some i"
    using session_ids(4) [OF assms(1,2)] unfolding assms(3) by (cases ?find) blast+
  have "sid \<noteq> 0" using session_ids(2) [OF assms(1,2)] unfolding assms(3) .
  note found = found this
  show "ts_heap (registry_on_event RegistrySend (SendPacketEvent sid payload) s) ! i =
      (if getSession sid (ts_registry s) = None then ts_heap s ! i else session_send payload (ts_heap s ! i))"
    using h [OF assms(2)] found by (elim disjE) (simp_all add: registry_on_event_def getSession_def)
  show "ts_heap (registry_on_event RegistrySend (SendPacketEvent sid payload) s) ! j = ts_heap s ! j"
    if "j < length (ts_heap s)" "j \<noteq> i"
    using h [OF that(1)] found that(2) by (elim disjE) (simp_all add: registry_on_event_def)
qed (simp add: registry_on_event_def)

section \<open>Steps\<close>

text \<open>The next number is new.\<close>

lemma fresh_number:
  assumes "server_inv s"
  shows "map_of (rg_sessions (ts_registry s)) (ts_next_session_id s) = None"
proof (rule ccontr)
  assume "map_of (rg_sessions (ts_registry s)) (ts_next_session_id s) \<noteq> None"
  then obtain r where r: "map_of (rg_sessions (ts_registry s)) (ts_next_session_id s) = Some r" by blast
  have id: "ts_next_session_id s = of_nat (length (ts_heap s)) + 1" and small: "length (ts_heap s) + 1 < 2 ^ 64"
    using assms unfolding server_inv_def by blast+
  have lt: "r < length (ts_heap s)" "of_nat (length (ts_heap s)) + 1 = (of_nat r + 1 :: u64)"
    using registered_refs(4) [OF assms r] unfolding id by blast+
  have "r + 1 < 2 ^ 64" using lt(1) small by (meson add_less_mono1 less_trans)
  from ref_id_inject [OF this small lt(2) [symmetric]] lt(1) show False by (simp only: less_irrefl)
qed

text \<open>What the completion of an accept does.\<close>

lemma on_accept_Accepted:
  assumes "server_inv s"
  shows "on_accept (Accepted endpoint) s =
    (s\<lparr>ts_accepting := (if ts_acceptor_open s then ts_accepting s - 1 + 1 else ts_accepting s - 1),
       ts_next_session_id := ts_next_session_id s + 1,
       ts_registry := (ts_registry s)\<lparr>rg_sessions := (ts_next_session_id s, length (ts_heap s)) # rg_sessions (ts_registry s)\<rparr>,
       ts_heap := ts_heap s @ [(fresh_session (ts_next_session_id s))\<lparr>se_strand := [StartRead]\<rparr>]\<rparr>,
     [ClientConnectedEvent (ts_next_session_id s) (case endpoint of Some a \<Rightarrow> a | None \<Rightarrow> [])])"
  using fresh_number [OF assms]
  by (simp add: on_accept_def Session_ctor_def addSession_def at_session_def session_start_def fresh_session_def
      doAccept_def Let_def)

lemma server_inv_acceptor [simp]:
  "server_inv (s\<lparr>ts_accepting := n\<rparr>) = server_inv s" "server_inv (s\<lparr>ts_acceptor_open := b\<rparr>) = server_inv s"
  by (simp_all add: server_inv_def)

lemma accept_inv:
  assumes "server_inv s" "length (ts_heap s) + 2 < 2 ^ 64"
  shows "server_inv (fst (on_accept result s))"
proof (cases result)
  case (Accepted endpoint)
  have new: "ts_next_session_id s \<notin> fst ` set (rg_sessions (ts_registry s))"
    using fresh_number [OF assms(1)] by (simp add: map_of_eq_None_iff)
  have id: "ts_next_session_id s = of_nat (length (ts_heap s)) + 1" using assms(1) by (simp add: server_inv_def)
  show ?thesis
    using assms new unfolding Accepted on_accept_Accepted [OF assms(1)] fst_conv server_inv_acceptor
    by (auto simp: server_inv_def wf_alist_def nth_append fresh_session_def less_Suc_eq id)
qed (use assms in \<open>simp_all add: on_accept_def doAccept_def Let_def\<close>)

text \<open>The steps of the server: its calls, the completion of an accept, an event of the bus, and
  the steps of a session that are not calls of the server.\<close>

datatype server_label =
    SvStart | SvStop | SvAccept accept_result | SvEvent registry_slot event | SvSession SessionRef session_label

definition is_call :: "session_label \<Rightarrow> bool" where
  "is_call a = (case a of SStart \<Rightarrow> True | SSend _ \<Rightarrow> True | SClose \<Rightarrow> True | _ \<Rightarrow> False)"

inductive server_step ::
  "(u32 \<Rightarrow> byte list) \<Rightarrow> (byte list \<Rightarrow> u32) \<Rightarrow> TcpServer \<Rightarrow> server_label \<Rightarrow> TcpServer \<Rightarrow> bool"
  for store :: "u32 \<Rightarrow> byte list" and load :: "byte list \<Rightarrow> u32" where
  sv_start: "server_step store load s SvStart (server_start s)"
| sv_stop: "server_step store load s SvStop (server_stop s)"
| sv_accept: "0 < ts_accepting s \<Longrightarrow> server_step store load s (SvAccept result) (fst (on_accept result s))"
| sv_event: "server_step store load s (SvEvent sl ev) (registry_on_event sl ev s)"
| sv_session: "r < length (ts_heap s) \<Longrightarrow> session_step store load (ts_heap s ! r) a x \<Longrightarrow> \<not> is_call a \<Longrightarrow>
    server_step store load s (SvSession r a) (s\<lparr>ts_heap := (ts_heap s)[r := x]\<rparr>)"

inductive server_run :: "(u32 \<Rightarrow> byte list) \<Rightarrow> (byte list \<Rightarrow> u32) \<Rightarrow> server_label list \<Rightarrow> TcpServer \<Rightarrow> bool"
  for store :: "u32 \<Rightarrow> byte list" and load :: "byte list \<Rightarrow> u32" where
  sv_created: "TcpServer_ctor id (Some st) = Inr (s, st') \<Longrightarrow> server_run store load [] s"
| sv_stepped: "server_run store load tr s \<Longrightarrow> server_step store load s a s' \<Longrightarrow> server_run store load (tr @ [a]) s'"

lemma run_task_fields:
  "se_id (run_session_task store load t s) = se_id s" "se_closed s \<Longrightarrow> se_closed (run_session_task store load t s)"
proof -
  have "se_id (run_session_task store load t s) = se_id s \<and> (se_closed s \<longrightarrow> se_closed (run_session_task store load t s))"
  proof (cases t)
    case (OnRead result)
    then show ?thesis
      using counts_on_read(5,6) [where load = load and result = result and s = s] by (simp add: run_session_task_def)
  qed (auto simp: run_session_task_def session_defs Let_def split: list.split sum.split)
  then show "se_id (run_session_task store load t s) = se_id s"
    "se_closed s \<Longrightarrow> se_closed (run_session_task store load t s)" by blast+
qed

lemma session_step_fields:
  assumes "session_step store load s a s'"
  shows "se_id s' = se_id s" "se_closed s \<Longrightarrow> se_closed s'"
  using assms
  by (cases rule: session_step.cases;
      simp add: run_task_fields session_start_def session_send_def session_close_def)+

lemma registry_on_event_inv:
  assumes "server_inv s"
  shows "server_inv (registry_on_event sl ev s)" "length (ts_heap (registry_on_event sl ev s)) = length (ts_heap s)"
proof -
  have "server_inv (registry_on_event sl ev s) \<and> length (ts_heap (registry_on_event sl ev s)) = length (ts_heap s)"
  proof (cases "removeSession (ev_session_id ev) (ts_registry s, ts_heap s)")
    case (Pair reg heap)
    with assms send_packet_inv [OF assms] onSendPacket_heap(1) [OF assms] remove_inv [OF assms Pair]
      removeSession_eq(2) [OF assms Pair]
    show ?thesis by (cases sl; cases ev) (simp_all add: registry_on_event_def)
  qed
  then show "server_inv (registry_on_event sl ev s)"
    "length (ts_heap (registry_on_event sl ev s)) = length (ts_heap s)" by blast+
qed

lemma server_step_inv:
  assumes "server_step store load s a s'" "server_inv s" "length (ts_heap s') + 1 < 2 ^ 64"
  shows "server_inv s'"
  using assms(1)
proof (cases rule: server_step.cases)
  case (sv_accept result)
  show ?thesis
  proof (cases result)
    case (Accepted endpoint)
    then have "length (ts_heap s) + 2 < 2 ^ 64"
      using assms(3) unfolding sv_accept Accepted on_accept_Accepted [OF assms(2)] by simp
    then show ?thesis unfolding sv_accept by (rule accept_inv [OF assms(2)])
  qed (use assms(2) sv_accept in \<open>simp_all add: on_accept_def doAccept_def Let_def\<close>)
next
  case (sv_session r a x)
  show ?thesis unfolding sv_session
    by (rule server_inv_heap [OF assms(2)])
      (use sv_session(3) session_step_fields [OF sv_session(4)] in \<open>auto simp: nth_list_update\<close>)
qed (use assms(2) registry_on_event_inv [OF assms(2)] in \<open>simp_all add: server_start_def server_stop_def doAccept_def\<close>)

lemma server_created_inv:
  assumes "TcpServer_ctor cb (Some st) = Inr (s, st')"
  shows "server_inv s" "ts_heap s = []" "rg_sessions (ts_registry s) = []" "ts_accepting s = 0"
  using assms
  by (auto simp: TcpServer_ctor_def SessionRegistry_ctor_def server_inv_def wf_alist_def and_then_def Let_def
      split: prod.splits sum.splits)

lemma length_fold_at_session: "length (fold (\<lambda>r. at_session r f) rs heap) = length heap"
  by (induction rs arbitrary: heap) simp_all

lemma step_heap_grows:
  assumes "server_step store load s a s'"
  shows "length (ts_heap s) \<le> length (ts_heap s')"
  using assms
proof (cases rule: server_step.cases)
  case (sv_accept result)
  then show ?thesis
    by (cases result) (simp_all add: on_accept_def doAccept_def Session_ctor_def Let_def)
next
  case (sv_event sl ev)
  have "length (snd (removeSession sid (reg, heap))) = length heap" for sid reg heap
    by (simp add: removeSession_def split: option.split)
  moreover have "length (onSendPacket sid payload reg heap) = length heap" for sid payload reg heap
    by (simp add: onSendPacket_def registry_broadcast_def length_fold_at_session split: option.split)
  ultimately show ?thesis unfolding sv_event
    by (cases sl; cases ev) (simp_all add: registry_on_event_def split_beta Let_def)
qed (simp_all add: server_start_def server_stop_def doAccept_def)

lemma server_run_inv:
  assumes "server_run store load tr s" "length (ts_heap s) + 1 < 2 ^ 64"
  shows "server_inv s"
  using assms
proof (induction rule: server_run.induct)
  case (sv_stepped tr s a s')
  have "length (ts_heap s) + 1 < 2 ^ 64"
    using step_heap_grows [OF sv_stepped.hyps(2)] sv_stepped.prems by linarith
  then show ?case using server_step_inv [OF sv_stepped.hyps(2)] sv_stepped.IH sv_stepped.prems by blast
qed (use server_created_inv in blast)

section \<open>Properties\<close>

text \<open>C13.  Every session object of a reachable server has a number of its own, not 0; looking a
  number up gives the object with that number; a session that is not in the table is closed,
  so no live connection is out of reach of a broadcast.\<close>

theorem sessions_registered:
  assumes "server_run store load tr s" "length (ts_heap s) + 1 < 2 ^ 64" "i < length (ts_heap s)"
  shows "se_id (ts_heap s ! i) \<noteq> 0
    \<and> (\<forall>j<length (ts_heap s). se_id (ts_heap s ! i) = se_id (ts_heap s ! j) \<longrightarrow> i = j)
    \<and> (getSession sid (ts_registry s) = Some i \<longrightarrow> se_id (ts_heap s ! i) = sid)
    \<and> (\<not> se_closed (ts_heap s ! i) \<longrightarrow> getSession (se_id (ts_heap s ! i)) (ts_registry s) = Some i)"
proof -
  note inv = server_run_inv [OF assms(1,2)]
  note ids = session_ids [OF inv assms(3)]
  have "getSession (se_id (ts_heap s ! i)) (ts_registry s) = Some i" if open_i: "\<not> se_closed (ts_heap s ! i)"
  proof -
    have "i \<in> snd ` set (rg_sessions (ts_registry s))" using inv assms(3) open_i by (auto simp: server_inv_def)
    then obtain k where k: "(k, i) \<in> set (rg_sessions (ts_registry s))" by force
    from registered_refs(3) [OF inv k] have "map_of (rg_sessions (ts_registry s)) k = Some i" .
    with ids(5) [OF this] show ?thesis by (simp add: getSession_def)
  qed
  moreover have "se_id (ts_heap s ! i) = sid" if "getSession sid (ts_registry s) = Some i"
    using ids(5) [of sid] that by (simp add: getSession_def)
  moreover have "i = j" if "j < length (ts_heap s)" "se_id (ts_heap s ! i) = se_id (ts_heap s ! j)" for j
    using ids(3) [OF that(1)] that(2) by simp
  moreover note ids(2)
  ultimately show ?thesis by blast
qed

text \<open>Accepting: a connection gets the next number and a session of its own, registered
  under that number and told to read, its arrival is published once with that number, nothing
  else in the table or of the other sessions changes, and the server accepts again exactly if
  it was not stopped.\<close>

theorem accept_registers:
  assumes "server_inv s" "length (ts_heap s) + 2 < 2 ^ 64" "0 < ts_accepting s" "on_accept (Accepted endpoint) s = (s', evs)"
  shows "ts_heap s' = ts_heap s @ [(fresh_session (ts_next_session_id s))\<lparr>se_strand := [StartRead]\<rparr>]
    \<and> getSession sid (ts_registry s') =
        (if sid = ts_next_session_id s then Some (length (ts_heap s)) else getSession sid (ts_registry s))
    \<and> getSession (ts_next_session_id s) (ts_registry s) = None
    \<and> evs = [ClientConnectedEvent (ts_next_session_id s) (case endpoint of Some a \<Rightarrow> a | None \<Rightarrow> [])]
    \<and> ts_accepting s' = (if ts_acceptor_open s then ts_accepting s else ts_accepting s - 1)
    \<and> server_inv s'"
proof -
  have "server_inv s'" using accept_inv [OF assms(1,2), of "Accepted endpoint"] assms(4) by simp
  with fresh_number [OF assms(1)] assms(3,4) show ?thesis
    unfolding on_accept_Accepted [OF assms(1)] by (auto simp: getSession_def)
qed

text \<open>What removing a session leaves of the server.\<close>

lemma removeSession_session:
  assumes "server_inv s" "i < length (ts_heap s)" "removeSession (se_id (ts_heap s ! i)) (ts_registry s, ts_heap s) = (reg, heap)"
  shows "server_inv (s\<lparr>ts_registry := reg, ts_heap := heap\<rparr>)" "length heap = length (ts_heap s)"
    "map_of (rg_sessions reg) (se_id (ts_heap s ! i)) = None" "i \<notin> snd ` set (rg_sessions reg)" "se_closed (heap ! i)"
    "j < length (ts_heap s) \<Longrightarrow> j \<noteq> i \<Longrightarrow> heap ! j = ts_heap s ! j
      \<and> map_of (rg_sessions reg) (se_id (ts_heap s ! j)) = map_of (rg_sessions (ts_registry s)) (se_id (ts_heap s ! j))"
proof -
  let ?s' = "s\<lparr>ts_registry := reg, ts_heap := heap\<rparr>"
  note r = removeSession_eq [OF assms(1,3)] and ids = session_ids [OF assms(1,2)]
  show inv': "server_inv ?s'" using remove_inv [OF assms(1,3)] by simp
  show len: "length heap = length (ts_heap s)" by (rule r(2))
  show none: "map_of (rg_sessions reg) (se_id (ts_heap s ! i)) = None" by (simp add: r(1) delete_conv')
  show un: "i \<notin> snd ` set (rg_sessions reg)"
  proof
    assume "i \<in> snd ` set (rg_sessions reg)"
    then obtain k where "(k, i) \<in> set (rg_sessions reg)" by force
    then have k: "map_of (rg_sessions reg) k = Some i" using registered_refs(3) [OF inv', of k i] by simp
    then have "k = se_id (ts_heap s ! i)" using registered_refs(4) [OF inv', of k i] ids(1) by simp
    with k none show False by simp
  qed
  show "se_closed (heap ! i)" using inv' assms(2) un len by (auto simp: server_inv_def)
  show "j < length (ts_heap s) \<Longrightarrow> j \<noteq> i \<Longrightarrow> heap ! j = ts_heap s ! j
      \<and> map_of (rg_sessions reg) (se_id (ts_heap s ! j)) = map_of (rg_sessions (ts_registry s)) (se_id (ts_heap s ! j))"
    using r(3) [of j] ids(4) ids(3) [of j] by (auto simp: r(1) delete_conv')
qed

text \<open>Removing: the disconnect of a session closes it and takes it out of the table; from
  then on no packet for it and no broadcast reaches it, a second disconnect changes nothing,
  and all other sessions are as before.\<close>

theorem removed_session_silent:
  assumes "server_inv s" "i < length (ts_heap s)" "sid = se_id (ts_heap s ! i)"
    "s' = registry_on_event RegistryRemove (ClientDisconnectedEvent sid) s"
  shows "se_closed (ts_heap s' ! i) \<and> getSession sid (ts_registry s') = None
    \<and> (\<forall>k payload. ts_heap (registry_on_event RegistrySend (SendPacketEvent k payload) s') ! i = ts_heap s' ! i)
    \<and> registry_on_event RegistryRemove (ClientDisconnectedEvent sid) s' = s'
    \<and> (\<forall>j<length (ts_heap s). j \<noteq> i \<longrightarrow> ts_heap s' ! j = ts_heap s ! j
          \<and> (getSession (se_id (ts_heap s ! j)) (ts_registry s') = getSession (se_id (ts_heap s ! j)) (ts_registry s)))"
proof -
  obtain reg heap where rm: "removeSession (se_id (ts_heap s ! i)) (ts_registry s, ts_heap s) = (reg, heap)" by fastforce
  note r = removeSession_session [OF assms(1,2) rm]
  have s': "s' = s\<lparr>ts_registry := reg, ts_heap := heap\<rparr>" by (simp add: assms(3,4) registry_on_event_def rm)
  have inv': "server_inv s'" using r(1) by (simp add: s')
  have silent: "map_of (rg_sessions reg) k \<noteq> Some i" for k
    using r(4) by (metis image_eqI map_of_SomeD snd_conv)
  have "ts_heap (registry_on_event RegistrySend (SendPacketEvent k payload) s') ! i = heap ! i" for k payload
    using onSendPacket_heap(2) [OF inv', of i k payload] assms(2) r(2,4) silent
    by (simp add: registry_on_event_def s')
  moreover have "registry_on_event RegistryRemove (ClientDisconnectedEvent sid) s' = s'"
    by (simp add: registry_on_event_def removeSession_def r(3) s' assms(3))
  ultimately show ?thesis using r(3,5,6) assms(3) by (simp add: s' getSession_def)
qed

text \<open>The server has at most one accept outstanding for each call of \<open>start\<close>, and it never
  stops accepting by itself: unless it was stopped, or an accept was aborted, it has exactly one
  for each call, however many accepts failed.\<close>

theorem keeps_accepting:
  assumes "server_run store load tr s"
  shows "ts_accepting s \<le> length (filter (\<lambda>a. a = SvStart) tr)
    \<and> (SvStop \<notin> set tr \<and> SvAccept AcceptAborted \<notin> set tr \<longrightarrow>
        ts_acceptor_open s \<and> ts_accepting s = length (filter (\<lambda>a. a = SvStart) tr))"
  using assms
proof (induction rule: server_run.induct)
  case (sv_created st s st')
  then show ?case
    by (auto simp: TcpServer_ctor_def SessionRegistry_ctor_def Let_def split: prod.splits)
next
  case (sv_stepped tr s a s')
  from sv_stepped.hyps(2) show ?case
  proof (cases rule: server_step.cases)
    case (sv_accept result)
    then show ?thesis using sv_stepped.IH
      by (cases result) (auto simp: on_accept_def doAccept_def Session_ctor_def Let_def)
  next
    case (sv_event sl ev)
    then show ?thesis using sv_stepped.IH
      by (cases sl; cases ev) (auto simp: registry_on_event_def split_beta Let_def)
  qed (use sv_stepped.IH in \<open>auto simp: server_start_def server_stop_def doAccept_def\<close>)
qed

section \<open>The sessions of a server\<close>

text \<open>A session that is a run of the model of one session, started once.\<close>

definition session_ok :: "(u32 \<Rightarrow> byte list) \<Rightarrow> (byte list \<Rightarrow> u32) \<Rightarrow> Session \<Rightarrow> bool" where
  "session_ok store load x \<longleftrightarrow>
     (\<exists>tr. session_run store load (se_id x) tr x \<and> length (filter (\<lambda>a. a = SStart) tr) = 1)"

lemma session_ok_step:
  assumes "session_ok store load x" "session_step store load x a y" "a \<noteq> SStart"
  shows "session_ok store load y"
proof -
  from assms(1) obtain tr where tr: "session_run store load (se_id x) tr x" "length (filter (\<lambda>a. a = SStart) tr) = 1"
    unfolding session_ok_def by blast
  from session_run.stepped [OF tr(1) assms(2)] tr(2) assms(3) session_step_fields(1) [OF assms(2)]
  show ?thesis unfolding session_ok_def by (intro exI [of _ "tr @ [a]"]) simp
qed

lemma session_ok_send: "session_ok store load x \<Longrightarrow> session_ok store load (session_send payload x)"
  by (rule session_ok_step [OF _ session_step.s_send]) simp_all

lemma session_ok_close: "session_ok store load x \<Longrightarrow> session_ok store load (session_close x)"
  by (rule session_ok_step [OF _ session_step.s_close]) simp_all

lemma session_ok_fresh: "session_ok store load ((fresh_session sid)\<lparr>se_strand := [StartRead]\<rparr>)"
proof -
  have "session_step store load (fresh_session sid) SStart ((fresh_session sid)\<lparr>se_strand := [StartRead]\<rparr>)"
    using session_step.s_start [of store load "fresh_session sid"] by (simp add: session_start_def fresh_session_def)
  from session_run.stepped [OF fresh_session_run this] show ?thesis
    unfolding session_ok_def by (intro exI [of _ "[SStart]"]) (simp add: fresh_session_def)
qed

lemma server_step_sessions_ok:
  assumes "server_step store load s a s'" "server_inv s" "\<forall>i<length (ts_heap s). session_ok store load (ts_heap s ! i)"
  shows "\<forall>i<length (ts_heap s'). session_ok store load (ts_heap s' ! i)"
  using assms(1)
proof (cases rule: server_step.cases)
  case (sv_accept result)
  then show ?thesis using assms(3)
    by (cases result)
      (simp_all add: on_accept_Accepted [OF assms(2)] nth_append less_Suc_eq session_ok_fresh,
        simp_all add: on_accept_def doAccept_def Let_def)
next
  case (sv_event sl ev)
  obtain reg heap where rm: "removeSession (ev_session_id ev) (ts_registry s, ts_heap s) = (reg, heap)" by fastforce
  show ?thesis unfolding sv_event using assms(3) removeSession_eq [OF assms(2) rm] onSendPacket_heap [OF assms(2)]
    by (cases sl; cases ev) (use rm in \<open>simp_all add: registry_on_event_def session_ok_send session_ok_close\<close>)
next
  case (sv_session r a x)
  have "a \<noteq> SStart" if "\<not> is_call a" for a using that by (auto simp: is_call_def)
  then have "session_ok store load x" using session_ok_step [OF _ sv_session(4)] assms(3) sv_session(3,5) by blast
  with sv_session(2,3) assms(3) show ?thesis by (simp add: nth_list_update)
qed (use assms(3) in \<open>simp_all add: server_start_def server_stop_def doAccept_def\<close>)

text \<open>C10.  Composition: whatever the server, the bus, the peers and the strands do, each session
  object of the server is a run of the model of a single session in which \<open>start\<close> was called
  once.  So what holds of every such run holds of each session of the server: it never has two
  reads or two writes under way, and its disconnect is pending or published exactly once when it
  is closed.\<close>

theorem server_refines_sessions:
  assumes "server_run store load tr s" "length (ts_heap s) + 1 < 2 ^ 64" "i < length (ts_heap s)"
  shows "\<exists>ts. session_run store load (se_id (ts_heap s ! i)) ts (ts_heap s ! i)
    \<and> length (filter (\<lambda>a. a = SStart) ts) = 1 \<and> reads (ts_heap s ! i) \<le> 1
    \<and> writes (ts_heap s ! i) = of_bool (se_is_writing (ts_heap s ! i))
    \<and> disconnects (ts_heap s ! i) = of_bool (se_closed (ts_heap s ! i))"
proof -
  have "\<forall>i<length (ts_heap s). session_ok store load (ts_heap s ! i)"
    using assms(1,2)
  proof (induction rule: server_run.induct)
    case (sv_created st s st')
    from server_created_inv(2) [OF sv_created(1)] show ?case by simp
  next
    case (sv_stepped tr s a s')
    have small: "length (ts_heap s) + 1 < 2 ^ 64"
      using step_heap_grows [OF sv_stepped.hyps(2)] sv_stepped.prems by linarith
    show ?case
      using server_step_sessions_ok [OF sv_stepped.hyps(2) server_run_inv [OF sv_stepped.hyps(1) small]]
        sv_stepped.IH small by blast
  qed
  then obtain ts where ts: "session_run store load (se_id (ts_heap s ! i)) ts (ts_heap s ! i)"
    "length (filter (\<lambda>a. a = SStart) ts) = 1" using assms(3) unfolding session_ok_def by blast
  with session_run_all [OF ts(1)] show ?thesis by (auto simp: one_each_def)
qed

section \<open>Witnesses\<close>

text \<open>Two connections, the second one disconnected.\<close>

definition fresh_server :: TcpServer where
  "fresh_server = \<lparr>ts_acceptor_open = True, ts_accepting = 0, ts_next_session_id = 1,
     ts_registry = \<lparr>rg_sessions = []\<rparr>, ts_heap = []\<rparr>"

definition joined :: "SessionId \<Rightarrow> Session" where
  "joined sid = (fresh_session sid)\<lparr>se_strand := [StartRead]\<rparr>"

definition two_sessions :: TcpServer where
  "two_sessions = \<lparr>ts_acceptor_open = True, ts_accepting = 1, ts_next_session_id = 3,
     ts_registry = \<lparr>rg_sessions = [(2, 1), (1, 0)]\<rparr>, ts_heap = [joined 1, joined 2]\<rparr>"

definition two_accepts :: "server_label list" where
  "two_accepts = [SvStart, SvAccept (Accepted (Some ''10.0.0.1:1'')), SvAccept (Accepted None)]"

lemma fresh_server_run: "server_run store load [] fresh_server"
proof -
  obtain st' where "TcpServer_ctor id (Some (type_ids_init, EventBus_create)) = Inr (fresh_server, st')"
    by (simp add: TcpServer_ctor_def SessionRegistry_ctor_def fresh_server_def Let_def split_beta)
  then show ?thesis by (rule server_run.sv_created)
qed

lemma fresh_server_inv: "server_inv fresh_server"
  by (rule server_run_inv [OF fresh_server_run [of be_bytes be_value]]) (simp add: fresh_server_def)

lemma two_sessions_run: "server_run store load two_accepts two_sessions"
proof -
  let ?one = "\<lparr>ts_acceptor_open = True, ts_accepting = 1, ts_next_session_id = 2,
     ts_registry = \<lparr>rg_sessions = [(1, 0)]\<rparr>, ts_heap = [joined 1]\<rparr>"
  have one: "server_step store load (server_start fresh_server) (SvAccept (Accepted (Some ''10.0.0.1:1''))) ?one"
    using server_step.sv_accept [of "server_start fresh_server" store load "Accepted (Some ''10.0.0.1:1'')"]
    by (simp add: on_accept_def Session_ctor_def addSession_def at_session_def session_start_def doAccept_def
        server_start_def fresh_server_def joined_def fresh_session_def Let_def)
  have two: "server_step store load ?one (SvAccept (Accepted None)) two_sessions"
    using server_step.sv_accept [of ?one store load "Accepted None"]
    by (simp add: on_accept_def Session_ctor_def addSession_def at_session_def session_start_def doAccept_def
        two_sessions_def joined_def fresh_session_def Let_def)
  have "server_run store load ((([] @ [SvStart]) @ [SvAccept (Accepted (Some ''10.0.0.1:1''))]) @ [SvAccept (Accepted None)]) two_sessions"
    by (intro server_run.sv_stepped [OF _ two] server_run.sv_stepped [OF _ one]
        server_run.sv_stepped [OF fresh_server_run server_step.sv_start])
  then show ?thesis by (simp add: two_accepts_def)
qed

lemma two_sessions_inv: "server_inv two_sessions"
  by (rule server_run_inv [OF two_sessions_run [of be_bytes be_value]]) (simp add: two_sessions_def)

theorem packet_delivery_witness:
  "ts_heap (registry_on_event RegistrySend (SendPacketEvent 2 [7]) two_sessions) ! 0 = joined 1
   \<and> ts_heap (registry_on_event RegistrySend (SendPacketEvent 2 [7]) two_sessions) ! 1 = session_send [7] (joined 2)
   \<and> ts_heap (registry_on_event RegistrySend (SendPacketEvent 0 [7]) two_sessions) ! 0 = session_send [7] (joined 1)"
  using packet_delivery [OF two_sessions_inv refl, of 0 2 "[7]"] packet_delivery [OF two_sessions_inv refl, of 1 2 "[7]"]
    packet_delivery [OF two_sessions_inv refl, of 0 0 "[7]"]
  by (simp add: two_sessions_def)

theorem sessions_registered_witness:
  "se_id (ts_heap two_sessions ! 1) \<noteq> 0 \<and> getSession (se_id (ts_heap two_sessions ! 1)) (ts_registry two_sessions) = Some 1"
  using sessions_registered [OF two_sessions_run [of be_bytes be_value], of 1]
  by (simp add: two_sessions_def joined_def fresh_session_def)

theorem accept_registers_witness:
  "ts_heap (fst (on_accept (Accepted None) two_sessions)) = [joined 1, joined 2, joined 3]
   \<and> getSession 3 (ts_registry (fst (on_accept (Accepted None) two_sessions))) = Some 2"
proof -
  have "length (ts_heap two_sessions) + 2 < 2 ^ 64" "0 < ts_accepting two_sessions" by (simp_all add: two_sessions_def)
  from accept_registers [OF two_sessions_inv this surjective_pairing, of None 3]
  show ?thesis by (simp add: two_sessions_def joined_def)
qed

theorem removed_session_silent_witness:
  "se_closed (ts_heap (registry_on_event RegistryRemove (ClientDisconnectedEvent 2) two_sessions) ! 1)
   \<and> getSession 2 (ts_registry (registry_on_event RegistryRemove (ClientDisconnectedEvent 2) two_sessions)) = None
   \<and> getSession 1 (ts_registry (registry_on_event RegistryRemove (ClientDisconnectedEvent 2) two_sessions)) = Some 0"
proof -
  have two: "2 = se_id (ts_heap two_sessions ! 1)" "1 < length (ts_heap two_sessions)" "0 < length (ts_heap two_sessions)"
    by (simp_all add: two_sessions_def joined_def fresh_session_def)
  have "getSession (se_id (ts_heap two_sessions ! 0)) (ts_registry two_sessions) = Some 0" "se_id (ts_heap two_sessions ! 0) = 1"
    by (simp_all add: two_sessions_def joined_def fresh_session_def getSession_def)
  with removed_session_silent [OF two_sessions_inv two(2,1) refl] two(3) show ?thesis by fastforce
qed

theorem keeps_accepting_witness: "ts_acceptor_open two_sessions \<and> ts_accepting two_sessions = 1"
  using keeps_accepting [OF two_sessions_run [of be_bytes be_value]] by (simp add: two_accepts_def)

theorem server_refines_sessions_witness:
  "\<exists>ts. session_run be_bytes be_value 2 ts (joined 2) \<and> length (filter (\<lambda>a. a = SStart) ts) = 1"
  using server_refines_sessions [OF two_sessions_run [of be_bytes be_value], of 1]
  by (auto simp: two_sessions_def joined_def fresh_session_def)

end
