(* ===== verification/Config.thy ===== *)
theory Config
  imports Scalar StrongId
begin

text \<open>The constants of src/src/common/config.h.\<close>

definition kDefaultWidth :: scalar where "kDefaultWidth = Fin 2000"
definition kDefaultHeight :: scalar where "kDefaultHeight = Fin 2000"
definition kDefaultTickRateHz :: scalar where "kDefaultTickRateHz = Fin 60"
definition kMaxMissedTicks :: int where "kMaxMissedTicks = 1"
definition kMaxLeaderboardSize :: nat where "kMaxLeaderboardSize = 10"

definition kDefaultClearance :: scalar where "kDefaultClearance = Fin 30"

definition kShipDefaultMass :: scalar where "kShipDefaultMass = Fin (7854 / 100)"
definition kShipDefaultRadius :: scalar where "kShipDefaultRadius = Fin 5"
definition kShipDefaultThrustPower :: scalar where "kShipDefaultThrustPower = Fin (15 / 2)"
definition kShipDefaultDrag :: scalar where "kShipDefaultDrag = Fin (1 / 8)"
definition kShipDefaultHealth :: u16 where "kShipDefaultHealth = 100"
definition kShipDefaultDamage :: u16 where "kShipDefaultDamage = 10"

definition kBulletSpeed :: scalar where "kBulletSpeed = Fin 500"
definition kBulletRadius :: scalar where "kBulletRadius = Fin 2"
definition kBulletDamage :: u64 where "kBulletDamage = 25"

lemmas ship_constants =
  kShipDefaultMass_def kShipDefaultRadius_def kShipDefaultThrustPower_def
  kShipDefaultDrag_def kShipDefaultHealth_def kShipDefaultDamage_def

lemmas bullet_constants = kBulletSpeed_def kBulletRadius_def kBulletDamage_def

end
