(* ===== verification/MathUtils.thy ===== *)
theory MathUtils
  imports Config
begin

text \<open>
  src/src/common/math_utils.h and src/src/common/vector2d.cpp: vectors, angles, ship
  physics, world bounds, circle tests and the elastic impulse.  The function
  \<open>largestEmptyCircle\<close> has its own theory.  Reference parameters that a function
  mutates are returned updated; \<open>assert\<close> is compiled out, as in a release build.
\<close>

section \<open>Vectors\<close>

record Vector2D =
  vx :: scalar
  vy :: scalar

record Circle =
  c_center :: Vector2D
  c_radius :: scalar

definition kPi :: scalar where "kPi = Fin pi"
definition kFreeCircleMargin :: scalar where "kFreeCircleMargin = Fin (1 / 10 ^ 6)"
definition kEps :: scalar where "kEps = Fin (1 / 10 ^ 12)"

definition kHalfWorldWidth :: scalar where "kHalfWorldWidth = kDefaultWidth * Fin (1 / 2)"
definition kHalfWorldHeight :: scalar where "kHalfWorldHeight = kDefaultHeight * Fin (1 / 2)"

text \<open>The vector \<open>{x, y}\<close> of two scalars, and the finite vectors.\<close>

definition mkvec :: "scalar \<Rightarrow> scalar \<Rightarrow> Vector2D" where
  "mkvec x y = \<lparr>vx = x, vy = y\<rparr>"

abbreviation fvec :: "real \<Rightarrow> real \<Rightarrow> Vector2D" where
  "fvec x y \<equiv> mkvec (Fin x) (Fin y)"

definition vzero :: Vector2D where "vzero = mkvec (Fin 0) (Fin 0)"

definition worldMin :: Vector2D where "worldMin = mkvec (- kHalfWorldWidth) (- kHalfWorldHeight)"
definition worldMax :: Vector2D where "worldMax = mkvec kHalfWorldWidth kHalfWorldHeight"
definition worldCenter :: Vector2D where "worldCenter = vzero"

definition vadd :: "Vector2D \<Rightarrow> Vector2D \<Rightarrow> Vector2D" where
  "vadd lhs rhs = mkvec (vx lhs + vx rhs) (vy lhs + vy rhs)"

definition vsub :: "Vector2D \<Rightarrow> Vector2D \<Rightarrow> Vector2D" where
  "vsub lhs rhs = mkvec (vx lhs - vx rhs) (vy lhs - vy rhs)"

definition vscale :: "Vector2D \<Rightarrow> scalar \<Rightarrow> Vector2D" where
  "vscale v s = mkvec (vx v * s) (vy v * s)"

definition veq :: "Vector2D \<Rightarrow> Vector2D \<Rightarrow> bool" where
  "veq a b \<longleftrightarrow> fabs (vx a - vx b) < kEps \<and> fabs (vy a - vy b) < kEps"

definition lengthSquared :: "Vector2D \<Rightarrow> scalar" where
  "lengthSquared v = vx v * vx v + vy v * vy v"

definition vlength :: "Vector2D \<Rightarrow> scalar" where
  "vlength v = fsqrt (lengthSquared v)"

definition dot :: "Vector2D \<Rightarrow> Vector2D \<Rightarrow> scalar" where
  "dot a b = vx a * vx b + vy a * vy b"

definition normalized :: "Vector2D \<Rightarrow> Vector2D" where
  "normalized v = (let len = vlength v in
     if feq len (Fin 0) then vzero else mkvec (vx v / len) (vy v / len))"

lemma mkvec_sel [simp]: "vx (mkvec x y) = x" "vy (mkvec x y) = y"
  by (simp_all add: mkvec_def)

lemma mkvec_eq [simp]: "mkvec x y = mkvec x' y' \<longleftrightarrow> x = x' \<and> y = y'"
  by (simp add: mkvec_def)

lemma mkvec_collapse [simp]: "mkvec (vx v) (vy v) = v"
  by (simp add: mkvec_def)

lemma vector_fin_cases:
  obtains (fin) x y where "v = fvec x y"
  | (inf) "\<not> isfinite (vx v) \<or> \<not> isfinite (vy v)"
  by (cases "vx v"; cases "vy v") (auto, metis mkvec_collapse)

lemma vec_fin [simp]:
  "vadd (fvec a b) (fvec c d) = fvec (a + c) (b + d)"
  "vsub (fvec a b) (fvec c d) = fvec (a - c) (b - d)"
  "vscale (fvec a b) (Fin s) = fvec (a * s) (b * s)"
  "lengthSquared (fvec a b) = Fin (a * a + b * b)"
  "vlength (fvec a b) = Fin (sqrt (a * a + b * b))"
  "dot (fvec a b) (fvec c d) = Fin (a * c + b * d)"
  by (simp_all add: vadd_def vsub_def vscale_def lengthSquared_def vlength_def dot_def
      not_less)

text \<open>A zero vector stays zero, any other finite vector gets length one.\<close>

lemma normalized_unit:
  assumes "x \<noteq> 0 \<or> y \<noteq> 0"
  shows "lengthSquared (normalized (fvec x y)) = Fin 1"
proof -
  have pos: "0 < x * x + y * y"
    using assms by (auto simp: sum_squares_gt_zero_iff)
  then have "x / sqrt (x * x + y * y) * (x / sqrt (x * x + y * y)) +
      y / sqrt (x * x + y * y) * (y / sqrt (x * x + y * y)) = 1"
    using assms by (simp add: add_divide_distrib [symmetric])
  with pos assms show ?thesis by (auto simp: normalized_def Let_def)
qed

lemma normalized_zero: "normalized (fvec 0 0) = vzero"
  by (simp add: normalized_def)

section \<open>Angles\<close>

definition normalizeAngle :: "scalar \<Rightarrow> scalar" where
  "normalizeAngle angle_rad =
     (let ans = fremainder angle_rad (Fin 2 * kPi) in if feq ans (- kPi) then kPi else ans)"

definition rotateTowards :: "scalar \<Rightarrow> scalar \<Rightarrow> scalar \<Rightarrow> scalar \<Rightarrow> scalar" where
  "rotateTowards current_angle target_angle max_angular_velocity dt =
     (let max_step = max_angular_velocity * dt;
          cur = normalizeAngle current_angle;
          tgt = normalizeAngle target_angle;
          delta = normalizeAngle (tgt - cur)
      in if fabs delta \<le> max_step + kEps then tgt
         else normalizeAngle (cur + fcopysign max_step delta))"

section \<open>Ship physics\<close>

text \<open>Invalid parameters are only logged; the update runs with them.\<close>

definition updateShipPhysics ::
  "Vector2D \<Rightarrow> Vector2D \<Rightarrow> scalar \<Rightarrow> bool \<Rightarrow> scalar \<Rightarrow> scalar \<Rightarrow> scalar \<Rightarrow> scalar
     \<Rightarrow> Vector2D \<times> Vector2D" where
  "updateShipPhysics position velocity angle is_thrusting thrust_power drag dt max_speed =
     (let velocity = (if is_thrusting
                      then mkvec (vx velocity + fcos angle * thrust_power * dt)
                                 (vy velocity + fsin angle * thrust_power * dt)
                      else velocity);
          drag_factor = std_clamp (Fin 1 - drag * dt) (Fin 0) (Fin 1);
          velocity = vscale velocity drag_factor;
          speed_sqr = lengthSquared velocity;
          velocity = (if max_speed * max_speed < speed_sqr
                      then vscale velocity (max_speed / fsqrt speed_sqr) else velocity);
          velocity = (if lengthSquared velocity < Fin (1 / 100) then vzero else velocity)
      in (vadd position (vscale velocity dt), velocity))"

text \<open>The default of the parameter \<open>max_speed\<close>.\<close>

definition kMaxShipSpeed :: scalar where "kMaxShipSpeed = Fin 600"

section \<open>World bounds\<close>

definition clampToWorldBounds :: "Vector2D \<Rightarrow> scalar \<Rightarrow> scalar \<Rightarrow> Vector2D" where
  "clampToWorldBounds position world_width world_height =
     (let half_w = world_width * Fin (1 / 2) - kEps;
          half_h = world_height * Fin (1 / 2) - kEps
      in mkvec (std_clamp (vx position) (- half_w) half_w)
               (std_clamp (vy position) (- half_h) half_h))"

text \<open>Each failed check logs an error and answers false.\<close>

definition circleIntersectsOppositeWorldBounds ::
  "Vector2D \<Rightarrow> scalar \<Rightarrow> scalar \<Rightarrow> scalar \<Rightarrow> bool" where
  "circleIntersectsOppositeWorldBounds position radius world_width world_height =
     (if \<not> isfinite (vx position) \<or> \<not> isfinite (vy position) \<or> \<not> isfinite radius \<or> radius < Fin 0
      then False
      else if \<not> isfinite world_width \<or> \<not> isfinite world_height \<or> world_width \<le> Fin 0
           \<or> world_height \<le> Fin 0
      then False
      else
        let half_width = world_width * Fin (1 / 2);
            half_height = world_height * Fin (1 / 2);
            nearest_y = std_clamp (vy position) (- half_height) half_height;
            nearest_x = std_clamp (vx position) (- half_width) half_width;
            radius_squared = radius * radius;
            to_left = vsub position (mkvec (- half_width) nearest_y);
            to_right = vsub position (mkvec half_width nearest_y);
            to_bottom = vsub position (mkvec nearest_x (- half_height));
            to_top = vsub position (mkvec nearest_x half_height);
            intersects_left = lengthSquared to_left \<le> radius_squared;
            intersects_right = lengthSquared to_right \<le> radius_squared;
            intersects_bottom = lengthSquared to_bottom \<le> radius_squared;
            intersects_top = lengthSquared to_top \<le> radius_squared
        in (intersects_left \<and> intersects_right) \<or> (intersects_bottom \<and> intersects_top))"

definition wrapCircleThroughWorldBounds ::
  "Vector2D \<Rightarrow> scalar \<Rightarrow> scalar \<Rightarrow> scalar \<Rightarrow> Vector2D" where
  "wrapCircleThroughWorldBounds position radius world_width world_height =
     (let half_w = world_width * Fin (1 / 2);
          half_h = world_height * Fin (1 / 2);
          x = (if vx position + radius < - half_w then half_w + radius
               else if half_w < vx position - radius then - half_w - radius
               else vx position);
          y = (if vy position + radius < - half_h then half_h + radius
               else if half_h < vy position - radius then - half_h - radius
               else vy position)
      in mkvec x y)"

section \<open>Circle collisions\<close>

definition checkCircleCollision ::
  "Vector2D \<Rightarrow> scalar \<Rightarrow> Vector2D \<Rightarrow> scalar \<Rightarrow> exn + bool" where
  "checkCircleCollision pos1 radius1 pos2 radius2 =
     (if \<not> Fin 0 \<le> radius1 then Inl (InvalidArgument ''Radius1 must be non-negative.'')
      else if \<not> Fin 0 \<le> radius2 then Inl (InvalidArgument ''Radius2 must be non-negative.'')
      else let delta = vsub pos1 pos2; radius_sum = radius1 + radius2
           in Inr (lengthSquared delta \<le> radius_sum * radius_sum))"

definition resolveElasticImpulse ::
  "Vector2D \<Rightarrow> Vector2D \<Rightarrow> scalar \<Rightarrow> Vector2D \<Rightarrow> Vector2D \<Rightarrow> scalar \<Rightarrow> Vector2D \<times> Vector2D" where
  "resolveElasticImpulse pos1 vel1 mass1 pos2 vel2 mass2 =
     (let delta = vsub pos2 pos1;
          sqr_dist = vx delta * vx delta + vy delta * vy delta
      in if sqr_dist < kEps then (vel1, vel2)
         else
           let n = vscale delta (Fin 1 / fsqrt sqr_dist);
               rel_vel = vsub vel2 vel1;
               vn = dot rel_vel n
           in if Fin 0 \<le> vn then (vel1, vel2)
              else
                let inv_m1 = Fin 1 / mass1;
                    inv_m2 = Fin 1 / mass2;
                    j = Fin (- 2) * vn / (inv_m1 + inv_m2);
                    impulse = vscale n j
                in (vsub vel1 (vscale impulse inv_m1), vadd vel2 (vscale impulse inv_m2)))"

section \<open>Angles are normalised into (-pi, pi]\<close>

lemma normalizeAngle_repr:
  "\<exists>r n. normalizeAngle (Fin a) = Fin r \<and> - pi < r \<and> r \<le> pi \<and> r = a + of_int n * (2 * pi)"
proof -
  obtain q n where q: "fremainder (Fin a) (Fin (2 * pi)) = Fin q"
      "q = a - of_int n * (2 * pi)" "\<bar>q\<bar> \<le> pi"
    using fremainder_bound [of "2 * pi" a] pi_gt_zero by auto
  show ?thesis
  proof (cases "q = - pi")
    case True
    then have "normalizeAngle (Fin a) = Fin pi" and "pi = a + of_int (1 - n) * (2 * pi)"
      using q by (auto simp: normalizeAngle_def kPi_def Let_def algebra_simps)
    then show ?thesis using pi_gt_zero by (intro exI [of _ pi] exI [of _ "1 - n"]) simp
  next
    case False
    then have "normalizeAngle (Fin a) = Fin q" and "q = a + of_int (- n) * (2 * pi)"
      using q by (auto simp: normalizeAngle_def kPi_def Let_def)
    then show ?thesis using q(3) False by (intro exI [of _ q] exI [of _ "- n"]) auto
  qed
qed

lemma multiple_2pi_small:
  assumes "\<bar>of_int n * (2 * pi)\<bar> < 2 * pi"
  shows "n = 0"
proof (rule ccontr)
  assume "n \<noteq> 0"
  then have "1 * (2 * pi) \<le> of_int \<bar>n\<bar> * (2 * pi)"
    using pi_gt_zero by (intro mult_right_mono) linarith+
  with assms show False by (simp add: abs_mult)
qed

lemma normalizeAngle_unique:
  assumes "- pi < r" "r \<le> pi" "a = r + of_int n * (2 * pi)"
  shows "normalizeAngle (Fin a) = Fin r"
proof -
  obtain q m where q: "normalizeAngle (Fin a) = Fin q" "- pi < q" "q \<le> pi"
      "q = a + of_int m * (2 * pi)"
    using normalizeAngle_repr [of a] by auto
  have "q - r = of_int (n + m) * (2 * pi)"
    using q(4) assms(3) by (simp add: algebra_simps)
  moreover have "\<bar>q - r\<bar> < 2 * pi" using q assms by linarith
  ultimately have "n + m = 0" and "q - r = of_int (n + m) * (2 * pi)"
    using multiple_2pi_small [of "n + m"] by simp_all
  then have "q = r" by (simp only: of_int_0 mult_zero_left eq_iff_diff_eq_0 [symmetric])
  with q(1) show ?thesis by simp
qed

lemma normalizeAngle_cong:
  assumes "normalizeAngle (Fin a) = Fin r" "b = a + of_int n * (2 * pi)"
  shows "normalizeAngle (Fin b) = Fin r"
proof -
  obtain q m where "normalizeAngle (Fin a) = Fin q" "- pi < q" "q \<le> pi"
      "q = a + of_int m * (2 * pi)"
    using normalizeAngle_repr [of a] by auto
  with assms have "- pi < r" "r \<le> pi" "b = r + of_int (n - m) * (2 * pi)"
    by (auto simp: algebra_simps)
  then show ?thesis by (rule normalizeAngle_unique)
qed

text \<open>A normalised angle is in (-pi, pi], differs from its argument by whole turns,
  and is the only such angle; so normalising twice changes nothing.\<close>

theorem normalizeAngle_range:
  "\<exists>r. normalizeAngle (Fin a) = Fin r \<and> - pi < r \<and> r \<le> pi
     \<and> cos r = cos a \<and> sin r = sin a \<and> normalizeAngle (Fin r) = Fin r"
proof -
  obtain r n where r: "normalizeAngle (Fin a) = Fin r" "- pi < r" "r \<le> pi"
      "r = a + of_int n * (2 * pi)"
    using normalizeAngle_repr [of a] by auto
  have "cos r = cos a" "sin r = sin a"
    using r(4) cos_int_2pin [of n] sin_int_2pin [of n]
    by (simp_all add: cos_add sin_add mult.commute)
  moreover have "normalizeAngle (Fin r) = Fin r"
    using normalizeAngle_unique [of r r 0] r by simp
  ultimately show ?thesis using r by blast
qed

text \<open>A turn that cannot be completed within the step: the new heading is closer to the
  target by exactly the step.\<close>

lemma rotate_partial:
  assumes d: "normalizeAngle (Fin (t - c)) = Fin d" and "0 \<le> s" "s < \<bar>d\<bar>"
    and r: "normalizeAngle (Fin (c + (if d < 0 then - s else s))) = Fin r"
  shows "normalizeAngle (Fin (t - r)) = Fin (if d < 0 then d + s else d - s)"
proof -
  let ?s = "if d < 0 then - s else s"
  obtain k where k: "d = t - c + of_int k * (2 * pi)" "- pi < d" "d \<le> pi"
    using normalizeAngle_repr [of "t - c"] d by auto
  obtain n where n: "r = c + ?s + of_int n * (2 * pi)"
    using normalizeAngle_repr [of "c + ?s"] r by auto
  have "t - r = (if d < 0 then d + s else d - s) + of_int (- k - n) * (2 * pi)"
    using k(1) n by (auto simp: algebra_simps)
  moreover have "- pi < (if d < 0 then d + s else d - s)" "(if d < 0 then d + s else d - s) \<le> pi"
    using k assms pi_gt_zero by (auto split: if_splits)
  ultimately show ?thesis using normalizeAngle_unique by blast
qed

text \<open>One turn step keeps the heading in (-pi, pi] and either lands on the (normalised)
  target or reduces the remaining angular distance by exactly the allowed step: the ship
  turns the short way round, never overshoots and never exceeds its angular velocity.\<close>

theorem rotateTowards_progress:
  assumes "0 \<le> w * dt"
  shows "\<exists>r. rotateTowards (Fin c) (Fin t) (Fin w) (Fin dt) = Fin r \<and> - pi < r \<and> r \<le> pi \<and>
     (normalizeAngle (Fin t) = Fin r \<or>
      (\<exists>d d'. normalizeAngle (Fin (t - c)) = Fin d \<and> normalizeAngle (Fin (t - r)) = Fin d'
         \<and> \<bar>d'\<bar> = \<bar>d\<bar> - w * dt \<and> w * dt < \<bar>d\<bar>))"
proof -
  obtain c' m where c': "normalizeAngle (Fin c) = Fin c'" "c' = c + of_int m * (2 * pi)"
    using normalizeAngle_repr [of c] by auto
  obtain t' n where t': "normalizeAngle (Fin t) = Fin t'" "t' = t + of_int n * (2 * pi)"
      "- pi < t'" "t' \<le> pi"
    using normalizeAngle_repr [of t] by auto
  obtain d where d: "normalizeAngle (Fin (t - c)) = Fin d"
    using normalizeAngle_repr by blast
  then have d': "normalizeAngle (Fin (t' - c')) = Fin d"
    by (rule normalizeAngle_cong [of _ _ _ "n - m"]) (simp add: c'(2) t'(2) algebra_simps)
  note rt = rotateTowards_def Let_def c'(1) t'(1) minus_Fin d' kEps_def fcopysign_def
  show ?thesis
  proof (cases "\<bar>d\<bar> \<le> w * dt + 1 / 10 ^ 12")
    case True
    then have "rotateTowards (Fin c) (Fin t) (Fin w) (Fin dt) = Fin t'"
      by (simp add: rt)
    with t' show ?thesis by blast
  next
    case False
    let ?s = "if d < 0 then - (w * dt) else w * dt"
    obtain r where r: "normalizeAngle (Fin (c' + ?s)) = Fin r" "- pi < r" "r \<le> pi"
      using normalizeAngle_repr by blast
    have "rotateTowards (Fin c) (Fin t) (Fin w) (Fin dt) = Fin r"
      using False r(1) assms by (simp add: rt split: if_splits)
    moreover have less: "w * dt < \<bar>d\<bar>"
      using False by simp
    moreover have "normalizeAngle (Fin (t' - r)) = Fin (if d < 0 then d + w * dt else d - w * dt)"
      using rotate_partial [OF d' assms less r(1)] .
    then have "normalizeAngle (Fin (t - r)) = Fin (if d < 0 then d + w * dt else d - w * dt)"
      by (rule normalizeAngle_cong [of _ _ _ "- n"]) (simp add: t'(2))
    ultimately show ?thesis using d r assms by (auto split: if_splits)
  qed
qed

theorem rotateTowards_progress_witness:
  "\<exists>r. rotateTowards (Fin 0) (Fin 2) (Fin 1) (Fin 1) = Fin r \<and> - pi < r \<and> r \<le> pi \<and>
     (normalizeAngle (Fin 2) = Fin r \<or>
      (\<exists>d d'. normalizeAngle (Fin (2 - 0)) = Fin d \<and> normalizeAngle (Fin (2 - r)) = Fin d'
         \<and> \<bar>d'\<bar> = \<bar>d\<bar> - 1 * 1 \<and> 1 * 1 < \<bar>d\<bar>))"
  by (rule rotateTowards_progress) simp

section \<open>Ship physics respects its speed limits\<close>

lemma std_clamp_unit: "std_clamp (Fin x) (Fin 0) (Fin 1) = Fin (max 0 (min 1 x))"
  by simp

lemma sum_squares_scale: "(x * f) * (x * f) + (y * f) * (y * f) = (x * x + y * y) * (f * f)"
  for x y f :: real
  by (simp add: algebra_simps)

text \<open>The speed cap: rescaling a vector that is too long gives length \<open>m\<close>.\<close>

lemma cap_speed:
  assumes "0 \<le> m"
  obtains x' y' where
    "(if Fin m * Fin m < lengthSquared (fvec x y)
      then vscale (fvec x y) (Fin m / fsqrt (lengthSquared (fvec x y))) else fvec x y) = fvec x' y'"
    "x' * x' + y' * y' \<le> m * m" "x' * x' + y' * y' \<le> x * x + y * y"
proof (cases "m * m < x * x + y * y")
  case True
  let ?q = "x * x + y * y"
  let ?f = "m / sqrt ?q"
  have pos: "0 < ?q" using True zero_le_square [of m] by linarith
  then have f: "Fin m / fsqrt (lengthSquared (fvec x y)) = Fin ?f"
    by (auto simp: not_less)
  have sq: "sqrt ?q * sqrt ?q = ?q" using pos by simp
  have ff: "?f * ?f = m * m / ?q" using sq by simp
  have len: "(x * ?f) * (x * ?f) + (y * ?f) * (y * ?f) = m * m"
    using pos by (simp only: sum_squares_scale ff) auto
  then show ?thesis
    using True f by (intro that [of "x * ?f" "y * ?f"]) simp_all
next
  case False
  then show ?thesis by (intro that [of x y]) simp_all
qed

lemma drag_shrinks:
  fixes x y f :: real
  assumes "0 \<le> f" "f \<le> 1"
  shows "(x * f) * (x * f) + (y * f) * (y * f) \<le> x * x + y * y"
proof -
  have "f * f \<le> 1 * 1" using assms by (intro mult_mono) auto
  then have "(x * x + y * y) * (f * f) \<le> (x * x + y * y) * 1"
    by (intro mult_left_mono) auto
  then show ?thesis by (simp add: sum_squares_scale)
qed

text \<open>The update in one formula: thrust, drag, cap, stop, move.\<close>

lemma updateShipPhysics_cases:
  assumes "0 \<le> m"
  obtains ax ay f x y where
    "updateShipPhysics (fvec px py) (fvec ux uy) (Fin a) thrusting (Fin tp) (Fin dr) (Fin dt) (Fin m)
       = (fvec (px + x * dt) (py + y * dt), fvec x y)"
    "(ax, ay) = (if thrusting then (ux + cos a * tp * dt, uy + sin a * tp * dt) else (ux, uy))"
    "f = max 0 (min 1 (1 - dr * dt))"
    "x * x + y * y \<le> m * m" "x * x + y * y \<le> (ax * f) * (ax * f) + (ay * f) * (ay * f)"
    "x = 0 \<and> y = 0 \<or> 1 / 100 \<le> x * x + y * y"
proof -
  let ?ax = "if thrusting then ux + cos a * tp * dt else ux"
  let ?ay = "if thrusting then uy + sin a * tp * dt else uy"
  let ?f = "max 0 (min 1 (1 - dr * dt))"
  have one: "Fin 1 - Fin dr * Fin dt = Fin (1 - dr * dt)" by simp
  have v1: "(if thrusting
             then mkvec (vx (fvec ux uy) + fcos (Fin a) * Fin tp * Fin dt)
                        (vy (fvec ux uy) + fsin (Fin a) * Fin tp * Fin dt)
             else fvec ux uy) = fvec ?ax ?ay" by simp
  obtain x y where xy:
    "(if Fin m * Fin m < lengthSquared (fvec (?ax * ?f) (?ay * ?f))
      then vscale (fvec (?ax * ?f) (?ay * ?f)) (Fin m / fsqrt (lengthSquared (fvec (?ax * ?f) (?ay * ?f))))
      else fvec (?ax * ?f) (?ay * ?f)) = fvec x y"
    "x * x + y * y \<le> m * m"
    "x * x + y * y \<le> (?ax * ?f) * (?ax * ?f) + (?ay * ?f) * (?ay * ?f)"
    using cap_speed [OF assms] .
  let ?stop = "x * x + y * y < 1 / 100"
  let ?x = "if ?stop then 0 else x"
  let ?y = "if ?stop then 0 else y"
  have stop: "(if lengthSquared (fvec x y) < Fin (1 / 100) then vzero else fvec x y) = fvec ?x ?y"
    by (simp add: vzero_def)
  have upd: "updateShipPhysics (fvec px py) (fvec ux uy) (Fin a) thrusting (Fin tp) (Fin dr) (Fin dt) (Fin m)
      = (fvec (px + ?x * dt) (py + ?y * dt), fvec ?x ?y)"
    unfolding updateShipPhysics_def Let_def v1 one std_clamp_unit vec_fin(3) xy(1) [simplified vec_fin(3)] stop
    by simp
  have le: "?x * ?x + ?y * ?y \<le> x * x + y * y" by simp
  show ?thesis
    by (rule that [OF upd, of ?ax ?ay ?f]) (use le xy(2,3) in \<open>auto simp del: std_clamp_Fin\<close>)
qed

lemma updateShipPhysics_fvec:
  assumes "0 \<le> m"
  shows "\<exists>x y u v. updateShipPhysics (fvec px py) (fvec ux uy) (Fin a) thrusting (Fin tp) (Fin dr) (Fin dt) (Fin m)
    = (fvec x y, fvec u v)"
  by (rule updateShipPhysics_cases [OF assms, of px py ux uy a thrusting tp dr dt]) blast

text \<open>After one physics step the ship is not faster than the maximal speed, is either at
  rest or faster than the stop threshold, and has moved by its new velocity times \<open>dt\<close>.\<close>

theorem updateShipPhysics_speed_bounded:
  assumes "0 \<le> m"
  shows "\<exists>x y. updateShipPhysics (fvec px py) (fvec ux uy) (Fin a) thrusting (Fin tp) (Fin dr) (Fin dt) (Fin m)
      = (fvec (px + x * dt) (py + y * dt), fvec x y)
    \<and> x * x + y * y \<le> m * m \<and> (x = 0 \<and> y = 0 \<or> 1 / 100 \<le> x * x + y * y)
    \<and> (\<not> thrusting \<longrightarrow> x * x + y * y \<le> ux * ux + uy * uy)"
proof (rule updateShipPhysics_cases [OF assms, of px py ux uy a thrusting tp dr dt])
  fix ax ay f x y
  assume *: "updateShipPhysics (fvec px py) (fvec ux uy) (Fin a) thrusting (Fin tp) (Fin dr) (Fin dt) (Fin m)
       = (fvec (px + x * dt) (py + y * dt), fvec x y)"
    "(ax, ay) = (if thrusting then (ux + cos a * tp * dt, uy + sin a * tp * dt) else (ux, uy))"
    "f = max 0 (min 1 (1 - dr * dt))"
    "x * x + y * y \<le> m * m" "x * x + y * y \<le> (ax * f) * (ax * f) + (ay * f) * (ay * f)"
    "x = 0 \<and> y = 0 \<or> 1 / 100 \<le> x * x + y * y"
  have "(ax * f) * (ax * f) + (ay * f) * (ay * f) \<le> ax * ax + ay * ay"
    unfolding *(3) by (rule drag_shrinks) simp_all
  with *(5) have le: "x * x + y * y \<le> ax * ax + ay * ay" by (rule order_trans)
  have "\<not> thrusting \<longrightarrow> x * x + y * y \<le> ux * ux + uy * uy"
    using *(2) le by (cases thrusting) simp_all
  with *(1,4,6) show ?thesis by blast
qed

theorem updateShipPhysics_speed_bounded_witness:
  "\<exists>x y. updateShipPhysics (fvec 0 0) (fvec 1000 0) (Fin 0) True (Fin 8) (Fin 0) (Fin 1) (Fin 600)
      = (fvec (0 + x * 1) (0 + y * 1), fvec x y)
    \<and> x * x + y * y \<le> 600 * 600 \<and> (x = 0 \<and> y = 0 \<or> 1 / 100 \<le> x * x + y * y)
    \<and> (\<not> True \<longrightarrow> x * x + y * y \<le> 1000 * 1000 + 0 * 0)"
  by (rule updateShipPhysics_speed_bounded) simp

section \<open>World bounds\<close>

lemma clamp_axis:
  fixes t b x :: real
  assumes "0 \<le> t" "t < b"
  shows "\<bar>max (- t) (min t x)\<bar> < b" and "\<bar>x\<bar> \<le> t \<Longrightarrow> max (- t) (min t x) = x"
    and "max (- t) (min t (max (- t) (min t x))) = max (- t) (min t x)"
  using assms by (auto simp: max_def min_def abs_less_iff abs_le_iff)

lemma clampToWorldBounds_fvec:
  assumes "2 / 10 ^ 12 \<le> w" "2 / 10 ^ 12 \<le> h"
  shows "clampToWorldBounds (fvec x y) (Fin w) (Fin h) =
    fvec (max (- (w / 2 - 1 / 10 ^ 12)) (min (w / 2 - 1 / 10 ^ 12) x))
         (max (- (h / 2 - 1 / 10 ^ 12)) (min (h / 2 - 1 / 10 ^ 12) y))"
  using assms by (simp add: clampToWorldBounds_def kEps_def Let_def)

text \<open>Clamping puts any finite position strictly inside the world rectangle, leaves a
  position at least \<open>kEps\<close> inside it alone, and is idempotent.\<close>

theorem clampToWorldBounds_inside:
  assumes "2 / 10 ^ 12 \<le> w" "2 / 10 ^ 12 \<le> h"
  shows "\<exists>x' y'. clampToWorldBounds (fvec x y) (Fin w) (Fin h) = fvec x' y'
    \<and> \<bar>x'\<bar> < w / 2 \<and> \<bar>y'\<bar> < h / 2
    \<and> (\<bar>x\<bar> \<le> w / 2 - 1 / 10 ^ 12 \<longrightarrow> x' = x) \<and> (\<bar>y\<bar> \<le> h / 2 - 1 / 10 ^ 12 \<longrightarrow> y' = y)
    \<and> clampToWorldBounds (fvec x' y') (Fin w) (Fin h) = fvec x' y'"
proof -
  have bounds: "0 \<le> w / 2 - 1 / 10 ^ 12" "w / 2 - 1 / 10 ^ 12 < w / 2"
      "0 \<le> h / 2 - 1 / 10 ^ 12" "h / 2 - 1 / 10 ^ 12 < h / 2"
    using assms by simp_all
  let ?x = "max (- (w / 2 - 1 / 10 ^ 12)) (min (w / 2 - 1 / 10 ^ 12) x)"
  let ?y = "max (- (h / 2 - 1 / 10 ^ 12)) (min (h / 2 - 1 / 10 ^ 12) y)"
  note X = clamp_axis [OF bounds(1,2), of x] and Y = clamp_axis [OF bounds(3,4), of y]
  show ?thesis
    unfolding clampToWorldBounds_fvec [OF assms] mkvec_eq scalar.inject
    by (rule exI [of _ ?x], rule exI [of _ ?y]) (intro conjI refl impI X Y; assumption)
qed

theorem clampToWorldBounds_inside_witness:
  "\<exists>x' y'. clampToWorldBounds (fvec 1500 3) (Fin 2000) (Fin 2000) = fvec x' y'
    \<and> \<bar>x'\<bar> < 2000 / 2 \<and> \<bar>y'\<bar> < 2000 / 2
    \<and> (\<bar>1500\<bar> \<le> (2000::real) / 2 - 1 / 10 ^ 12 \<longrightarrow> x' = 1500) \<and> (\<bar>3\<bar> \<le> (2000::real) / 2 - 1 / 10 ^ 12 \<longrightarrow> y' = 3)
    \<and> clampToWorldBounds (fvec x' y') (Fin 2000) (Fin 2000) = fvec x' y'"
  by (rule clampToWorldBounds_inside) simp_all

lemma wrapCircle_fvec:
  "wrapCircleThroughWorldBounds (fvec x y) (Fin r) (Fin w) (Fin h) =
    fvec (if x + r < - (w / 2) then w / 2 + r else if w / 2 < x - r then - (w / 2) - r else x)
         (if y + r < - (h / 2) then h / 2 + r else if h / 2 < y - r then - (h / 2) - r else y)"
  by (simp add: wrapCircleThroughWorldBounds_def Let_def)

text \<open>Wrapping keeps an asteroid's circle in contact with the world: the new centre is
  within the world rectangle enlarged by the radius, a circle that still touches the world is
  not moved, and a coordinate that is moved jumps to the opposite side, touching the border.\<close>

theorem wrapCircle_stays_in_contact:
  assumes "0 \<le> r" "0 < w" "0 < h"
  shows "\<exists>x' y'. wrapCircleThroughWorldBounds (fvec x y) (Fin r) (Fin w) (Fin h) = fvec x' y'
    \<and> \<bar>x'\<bar> \<le> w / 2 + r \<and> \<bar>y'\<bar> \<le> h / 2 + r
    \<and> (if \<bar>x\<bar> \<le> w / 2 + r then x' = x else \<bar>x'\<bar> = w / 2 + r \<and> x' * x < 0)
    \<and> (if \<bar>y\<bar> \<le> h / 2 + r then y' = y else \<bar>y'\<bar> = h / 2 + r \<and> y' * y < 0)"
  using assms unfolding wrapCircle_fvec
  by (auto simp: mult_less_0_iff)

theorem wrapCircle_stays_in_contact_witness:
  "\<exists>x' y'. wrapCircleThroughWorldBounds (fvec 1200 0) (Fin 100) (Fin 2000) (Fin 2000) = fvec x' y'
    \<and> \<bar>x'\<bar> \<le> 2000 / 2 + 100 \<and> \<bar>y'\<bar> \<le> 2000 / 2 + 100
    \<and> (if \<bar>1200\<bar> \<le> 2000 / 2 + (100::real) then x' = 1200 else \<bar>x'\<bar> = 2000 / 2 + 100 \<and> x' * 1200 < 0)
    \<and> (if \<bar>0\<bar> \<le> 2000 / 2 + (100::real) then y' = 0 else \<bar>y'\<bar> = 2000 / 2 + 100 \<and> y' * 0 < 0)"
  by (rule wrapCircle_stays_in_contact) simp_all

end
