(* ===== verification/EntityModel.thy ===== *)
theory EntityModel
  imports MathUtils
begin

text \<open>
  src/src/server/entity.h, health_utils.h and score_utils.h: the entity with its optional
  components, mass growth, health and score.  The growth predicate \<open>can_grow\<close> may move
  the ship and change what its closure captures, so it is a function of the captured state
  that returns the answer, the position and the new captured state.
\<close>

section \<open>Components\<close>

record TransformComponent =
  t_position :: Vector2D
  t_velocity :: Vector2D
  t_angle :: scalar

definition TransformComponent_default :: TransformComponent where
  "TransformComponent_default = \<lparr>t_position = vzero, t_velocity = vzero, t_angle = Fin 0\<rparr>"

text \<open>\<open>name\<close> is the \<open>std::array<char, 32>\<close>: 32 characters, unused ones NUL.\<close>

record ShipComponent =
  sh_name :: string
  sh_score :: u32
  sh_thrust_power :: scalar
  sh_drag :: scalar
  sh_is_thrusting :: bool
  sh_frags :: u16

definition NUL :: char where "NUL = char_of (0 :: nat)"

definition ShipComponent_default :: ShipComponent where
  "ShipComponent_default = \<lparr>sh_name = replicate 32 NUL, sh_score = 0, sh_thrust_power = Fin 0,
     sh_drag = Fin 0, sh_is_thrusting = False, sh_frags = 0\<rparr>"

record HealthComponent =
  h_current :: u16
  h_max :: u16

definition HealthComponent_default :: HealthComponent where
  "HealthComponent_default = \<lparr>h_current = 100, h_max = 100\<rparr>"

record CombatComponent =
  co_damage :: u16
  co_owner_id :: EntityId

definition CombatComponent_default :: CombatComponent where
  "CombatComponent_default = \<lparr>co_damage = 0, co_owner_id = 0\<rparr>"

record AsteroidComponent =
  as_score_reward :: u16

definition AsteroidComponent_default :: AsteroidComponent where
  "AsteroidComponent_default = \<lparr>as_score_reward = 0\<rparr>"

record Entity =
  e_id :: EntityId
  e_type :: EntityType
  e_mass :: scalar
  e_radius :: scalar
  e_isDestroyed :: bool
  e_transform :: "TransformComponent option"
  e_ship :: "ShipComponent option"
  e_health :: "HealthComponent option"
  e_combat :: "CombatComponent option"
  e_asteroid :: "AsteroidComponent option"

text \<open>The value-initialised entity.\<close>

definition Entity_default :: Entity where
  "Entity_default = \<lparr>e_id = 0, e_type = EtNone, e_mass = Fin 0, e_radius = Fin 0,
     e_isDestroyed = False, e_transform = None, e_ship = None, e_health = None,
     e_combat = None, e_asteroid = None\<rparr>"

section \<open>Validity\<close>

definition isValid :: "Entity \<Rightarrow> bool" where
  "isValid e \<longleftrightarrow> e_type e \<noteq> EtNone \<and> \<not> e_isDestroyed e \<and> e_transform e \<noteq> None
     \<and> isfinite (e_mass e) \<and> Fin 0 \<le> e_mass e \<and> isfinite (e_radius e) \<and> Fin 0 \<le> e_radius e"

definition isDamageable :: "Entity \<Rightarrow> bool" where
  "isDamageable e \<longleftrightarrow> (case e_health e of None \<Rightarrow> False | Some h \<Rightarrow> 0 < h_current h)"

section \<open>Mass and growth\<close>

definition massForRadius :: "scalar \<Rightarrow> scalar" where
  "massForRadius radius = kPi * radius * radius"

type_synonym 's growth = "'s \<Rightarrow> Vector2D \<Rightarrow> scalar \<Rightarrow> bool \<times> Vector2D \<times> 's"

text \<open>
  The doubling loop.  It returns whether the transform was present, the radius, the
  transform and the captured state.  The guard \<open>Fin 0 < radius\<close> is not in the loop of
  the source: \<open>addMass\<close> rejects other radii before the loop and doubling keeps them
  positive (\<open>grow_loop_eq\<close> is the source's loop for positive radii), and it makes the
  loop a total function.
\<close>

function grow_loop ::
  "'s growth \<Rightarrow> scalar \<Rightarrow> scalar \<Rightarrow> TransformComponent option \<Rightarrow> 's
     \<Rightarrow> bool \<times> scalar \<times> TransformComponent option \<times> 's" where
  "grow_loop can_grow mass radius tr s =
     (if radius \<le> Fin (dbl_max / 2) \<and> Fin 0 < radius
      then let next_radius = radius * Fin 2;
               target_mass = massForRadius next_radius
           in if \<not> isfinite target_mass \<or> mass < target_mass then (True, radius, tr, s)
              else case tr of
                None \<Rightarrow> (False, radius, tr, s)
              | Some t \<Rightarrow>
                  (let (ok, position, s') = can_grow s (t_position t) next_radius;
                       tr' = Some (t\<lparr>t_position := position\<rparr>)
                   in if \<not> ok then (True, radius, tr', s')
                      else grow_loop can_grow mass next_radius tr' s')
      else (True, radius, tr, s))"
  by pat_completeness auto
termination
proof (relation "measure (\<lambda>(can_grow, mass, radius, tr, s).
    case radius of Fin r \<Rightarrow> nat \<lceil>log 2 (dbl_max / r)\<rceil> | _ \<Rightarrow> 0)"; clarsimp?)
  fix can_grow :: "'s growth" and mass radius :: scalar and t :: TransformComponent and s s' :: 's
    and position
  assume le: "radius \<le> Fin (dbl_max / 2)" and pos: "Fin 0 < radius"
  then obtain r where r: "radius = Fin r" "0 < r" "r \<le> dbl_max / 2"
    by (cases radius) auto
  have "2 * r / r \<le> dbl_max / r" using r by (intro divide_right_mono) auto
  then have two: "2 \<le> dbl_max / r" using r(2) by simp
  have "log 2 (dbl_max / (r * 2)) = log 2 (dbl_max / r / 2)" by simp
  also have "\<dots> = log 2 (dbl_max / r) - 1" using two r(2) dbl_max_pos by (subst log_divide) simp_all
  finally have step: "log 2 (dbl_max / (r * 2)) = log 2 (dbl_max / r) - 1" .
  have "1 \<le> log 2 (dbl_max / r)" using two by (subst le_log_iff) simp_all
  then show "(case radius * Fin 2 of Fin r \<Rightarrow> nat \<lceil>log 2 (dbl_max / r)\<rceil> | _ \<Rightarrow> 0)
      < (case radius of Fin r \<Rightarrow> nat \<lceil>log 2 (dbl_max / r)\<rceil> | _ \<Rightarrow> 0)"
    by (simp add: r(1) step)
qed

declare grow_loop.simps [simp del]

lemma grow_loop_eq:
  "Fin 0 < radius \<Longrightarrow> grow_loop can_grow mass radius tr s =
     (if radius \<le> Fin (dbl_max / 2)
      then let next_radius = radius * Fin 2;
               target_mass = massForRadius next_radius
           in if \<not> isfinite target_mass \<or> mass < target_mass then (True, radius, tr, s)
              else case tr of
                None \<Rightarrow> (False, radius, tr, s)
              | Some t \<Rightarrow>
                  (let (ok, position, s') = can_grow s (t_position t) next_radius;
                       tr' = Some (t\<lparr>t_position := position\<rparr>)
                   in if \<not> ok then (True, radius, tr', s')
                      else grow_loop can_grow mass next_radius tr' s')
      else (True, radius, tr, s))"
  by (subst grow_loop.simps) simp

text \<open>Every failed check logs an error and changes nothing.\<close>

definition addMass :: "'s growth \<Rightarrow> scalar \<Rightarrow> 's \<Rightarrow> Entity \<Rightarrow> bool \<times> Entity \<times> 's" where
  "addMass can_grow amount s e =
     (if e_type e \<noteq> EtShip then (False, e, s)
      else if \<not> isfinite amount \<or> amount < Fin 0 then (False, e, s)
      else if \<not> isfinite (e_mass e) \<or> e_mass e < Fin 0 \<or> \<not> isfinite (e_radius e)
           \<or> e_radius e \<le> Fin 0 \<or> e_transform e = None then (False, e, s)
      else
        let new_mass = e_mass e + amount
        in if \<not> isfinite new_mass then (False, e, s)
           else
             let (ok, radius, tr, s') = grow_loop can_grow new_mass (e_radius e) (e_transform e) s
             in (ok, e\<lparr>e_mass := new_mass, e_radius := radius, e_transform := tr\<rparr>, s'))"

text \<open>The overload without a predicate: growth is always allowed.\<close>

definition always_grow :: "unit growth" where
  "always_grow s position radius = (True, position, s)"

definition addMass_unchecked :: "scalar \<Rightarrow> Entity \<Rightarrow> bool \<times> Entity" where
  "addMass_unchecked amount e = (let (ok, e', _) = addMass always_grow amount () e in (ok, e'))"

text \<open>What the loop does to the radius and the transform, whatever the predicate answers.\<close>

lemma grow_loop_shape:
  assumes "grow_loop can_grow mass (Fin r) tr s = (ok, radius, tr', s')" "0 < r"
  shows "(\<exists>k. radius = Fin (r * 2 ^ k)) \<and> (tr' = None \<longleftrightarrow> tr = None) \<and> (tr \<noteq> None \<longrightarrow> ok)"
  using assms
proof (induction can_grow mass "Fin r" tr s arbitrary: r rule: grow_loop.induct)
  case (1 can_grow mass tr s)
  let ?stop = "\<not> r \<le> dbl_max / 2 \<or> \<not> isfinite (massForRadius (Fin (r * 2)))
      \<or> mass < massForRadius (Fin (r * 2))"
  show ?case
  proof (cases "?stop \<or> tr = None")
    case True
    with "1.prems" have "radius = Fin r" "tr' = tr" "tr \<noteq> None \<longrightarrow> ok"
      by (auto simp: grow_loop_eq Let_def split: if_splits option.splits)
    then show ?thesis by (auto intro: exI [of _ 0])
  next
    case False
    then obtain t where t: "tr = Some t" by auto
    obtain a pos s1 where g: "can_grow s (t_position t) (Fin (r * 2)) = (a, pos, s1)"
      using prod_cases3 by blast
    show ?thesis
    proof (cases a)
      case True
      have gl: "grow_loop can_grow mass (Fin (r * 2)) (Some (t\<lparr>t_position := pos\<rparr>)) s1 = (ok, radius, tr', s')"
        using "1.prems" False t g True by (simp add: grow_loop_eq Let_def)
      then have "(\<exists>k. radius = Fin (r * 2 * 2 ^ k)) \<and> tr' \<noteq> None \<and> ok"
        using "1.hyps" [OF _ _ refl _ t g [symmetric] refl refl refl _ gl] False True "1.prems"(2) by simp
      then show ?thesis using t by (auto simp: mult.assoc simp flip: power_Suc)
    next
      case no: False
      with "1.prems" False t g have "radius = Fin r" "tr' = Some (t\<lparr>t_position := pos\<rparr>)" "ok"
        by (simp_all add: grow_loop_eq Let_def)
      then show ?thesis using t by (auto intro: exI [of _ 0])
    qed
  qed
qed

lemma dbl_max_ge_1: "1 \<le> dbl_max"
proof -
  have "(1 / 2 :: real) ^ 52 \<le> 1" by (rule power_le_one) simp_all
  then have "1 * 1 \<le> (2 - (1 / 2 :: real) ^ 52) * 2 ^ 1023"
    by (intro mult_mono) simp_all
  then show ?thesis by (simp add: dbl_max_def)
qed

text \<open>One turn of the loop, and its end, when growth is always allowed.\<close>

lemma grow_loop_always_step:
  assumes "0 < r" "r \<le> dbl_max / 2" "pi * (r * 2)\<^sup>2 \<le> m"
  shows "grow_loop always_grow (Fin m) (Fin r) (Some t) () = grow_loop always_grow (Fin m) (Fin (r * 2)) (Some t) ()"
proof -
  have target: "massForRadius (Fin (r * 2)) = Fin (pi * (r * 2)\<^sup>2)"
    by (simp add: massForRadius_def kPi_def power2_eq_square)
  show ?thesis
    using assms by (subst grow_loop_eq) (simp_all add: Let_def target always_grow_def)
qed

lemma grow_loop_always_stop:
  assumes "0 < r" "m < pi * (r * 2)\<^sup>2"
  shows "grow_loop always_grow (Fin m) (Fin r) (Some t) () = (True, Fin r, Some t, ())"
proof -
  have target: "massForRadius (Fin (r * 2)) = Fin (pi * (r * 2)\<^sup>2)"
    by (simp add: massForRadius_def kPi_def power2_eq_square)
  show ?thesis
    using assms by (subst grow_loop_eq) (simp_all add: Let_def target)
qed

lemma huge_disc:
  assumes "m \<le> dbl_max" "dbl_max / 2 < r"
  shows "m < pi * (r * 2)\<^sup>2"
proof -
  have "dbl_max * 1 \<le> dbl_max * dbl_max"
    by (rule mult_left_mono [OF dbl_max_ge_1]) (use dbl_max_pos in simp)
  then have "m \<le> dbl_max * dbl_max" using assms(1) by linarith
  also have "\<dots> < (r * 2)\<^sup>2"
    unfolding power2_eq_square using assms(2) dbl_max_pos by (intro mult_strict_mono) auto
  also have "\<dots> \<le> pi * (r * 2)\<^sup>2"
    using pi_ge_two mult_right_mono [of 1 pi "(r * 2)\<^sup>2"] by simp
  finally show ?thesis .
qed

lemma enough_doublings: "0 < r \<Longrightarrow> \<exists>n. dbl_max < r * 2 ^ n"
  using real_arch_pow [of 2 "dbl_max / r"] by (simp add: divide_less_eq mult.commute)

lemma grow_loop_always:
  assumes "0 < r" "m \<le> dbl_max" "dbl_max < r * 2 ^ n"
  shows "\<exists>k. grow_loop always_grow (Fin m) (Fin r) (Some t) () = (True, Fin (r * 2 ^ k), Some t, ())
     \<and> m < pi * (r * 2 ^ k * 2)\<^sup>2 \<and> (k = 0 \<or> pi * (r * 2 ^ k)\<^sup>2 \<le> m)"
  using assms(1,3)
proof (induction n arbitrary: r)
  case 0
  then have "m < pi * (r * 2)\<^sup>2" using huge_disc [OF assms(2)] dbl_max_pos by simp
  with 0 show ?case by (intro exI [of _ 0]) (simp add: grow_loop_always_stop)
next
  case (Suc n)
  show ?case
  proof (cases "m < pi * (r * 2)\<^sup>2")
    case True
    with Suc.prems show ?thesis by (intro exI [of _ 0]) (simp add: grow_loop_always_stop)
  next
    case False
    then have "r \<le> dbl_max / 2" using huge_disc [OF assms(2)] not_less by blast
    with False Suc.prems have step: "grow_loop always_grow (Fin m) (Fin r) (Some t) ()
        = grow_loop always_grow (Fin m) (Fin (r * 2)) (Some t) ()"
      by (simp add: grow_loop_always_step)
    obtain k where k: "grow_loop always_grow (Fin m) (Fin (r * 2)) (Some t) () = (True, Fin (r * 2 ^ Suc k), Some t, ())"
        "m < pi * (r * 2 ^ Suc k * 2)\<^sup>2" "k = 0 \<or> pi * (r * 2 ^ Suc k)\<^sup>2 \<le> m"
      using Suc.IH [of "r * 2"] Suc.prems by (auto simp: mult.assoc)
    have "pi * (r * 2 ^ Suc k)\<^sup>2 \<le> m" using k(3) False by (cases "k = 0") simp_all
    with step k(1,2) show ?thesis by metis
  qed
qed

text \<open>Absorbing mass adds it exactly, and the radius doubles just as often as the mass
  allows: the final radius is the starting one times a power of two, the mass is below that of
  a disc of twice the final radius, and at least that of a disc of the final radius if the
  ship grew at all.\<close>

theorem addMass_growth_exact:
  assumes "e_type e = EtShip" "e_mass e = Fin m" "0 \<le> m" "e_radius e = Fin r" "0 < r"
    "e_transform e = Some t" "0 \<le> a" "m + a \<le> dbl_max"
  shows "\<exists>k. addMass_unchecked (Fin a) e = (True, e\<lparr>e_mass := Fin (m + a), e_radius := Fin (r * 2 ^ k)\<rparr>)
     \<and> m + a < pi * (r * 2 ^ k * 2)\<^sup>2 \<and> (k = 0 \<or> pi * (r * 2 ^ k)\<^sup>2 \<le> m + a)"
proof -
  obtain k where "grow_loop always_grow (Fin (m + a)) (Fin r) (Some t) () = (True, Fin (r * 2 ^ k), Some t, ())"
      "m + a < pi * (r * 2 ^ k * 2)\<^sup>2" "k = 0 \<or> pi * (r * 2 ^ k)\<^sup>2 \<le> m + a"
    using grow_loop_always [OF assms(5,8)] enough_doublings [OF assms(5)] by blast
  moreover have "e\<lparr>e_transform := Some t\<rparr> = e" using assms(6) by (cases e) simp
  ultimately show ?thesis
    using assms by (intro exI [of _ k]) (cases e, auto simp: addMass_unchecked_def addMass_def Let_def)
qed

lemma addMass_frame:
  assumes "addMass g a s e = (ok, e', s')"
  shows "e_id e' = e_id e" "e_type e' = e_type e" "e_isDestroyed e' = e_isDestroyed e"
    "e_ship e' = e_ship e" "e_health e' = e_health e" "e_combat e' = e_combat e"
    "e_asteroid e' = e_asteroid e"
  using assms by (auto simp: addMass_def Let_def split: if_splits prod.splits)

lemma addMass_radius:
  assumes "addMass g a s e = (ok, e', s')" "isfinite (e_radius e)" "Fin 0 \<le> e_radius e"
  shows "isfinite (e_radius e')" "Fin 0 \<le> e_radius e'" "e_transform e' = None \<longleftrightarrow> e_transform e = None"
proof -
  have "isfinite (e_radius e') \<and> Fin 0 \<le> e_radius e' \<and> (e_transform e' = None \<longleftrightarrow> e_transform e = None)"
  proof (cases "e' = e")
    case False
    obtain r where r: "e_radius e = Fin r" using assms(2) by (cases "e_radius e") auto
    from False assms(1) r have pos: "0 < r"
      by (auto simp: addMass_def Let_def split: if_splits)
    obtain radius tr where gl: "grow_loop g (e_mass e + a) (Fin r) (e_transform e) s = (ok, radius, tr, s')"
        and e': "e_radius e' = radius" "e_transform e' = tr"
      using False assms(1) r by (auto simp: addMass_def Let_def split: if_splits prod.splits)
    then obtain k where "radius = Fin (r * 2 ^ k)" "tr = None \<longleftrightarrow> e_transform e = None"
      using grow_loop_shape [OF gl pos] by auto
    with pos e' show ?thesis by simp
  qed (use assms in simp)
  then show "isfinite (e_radius e')" "Fin 0 \<le> e_radius e'" "e_transform e' = None \<longleftrightarrow> e_transform e = None"
    by blast+
qed

section \<open>Health and score\<close>

definition applyDamage :: "HealthComponent \<Rightarrow> u16 \<Rightarrow> HealthComponent" where
  "applyDamage health damage =
     (if h_current health \<le> damage then health\<lparr>h_current := 0\<rparr>
      else health\<lparr>h_current := h_current health - damage\<rparr>)"

definition restoreHealth :: "HealthComponent \<Rightarrow> u16 \<Rightarrow> HealthComponent" where
  "restoreHealth health amount =
     (let new_health = (ucast (h_current health) :: u32) + ucast amount
      in health\<lparr>h_current := ucast (min new_health (ucast (h_max health)))\<rparr>)"

definition isAlive :: "HealthComponent \<Rightarrow> bool" where
  "isAlive health \<longleftrightarrow> 0 < h_current health"

definition addScore :: "ShipComponent \<Rightarrow> u32 \<Rightarrow> ShipComponent" where
  "addScore ship points =
     (let max_score = 0xFFFFFFFF
      in ship\<lparr>sh_score := (if max_score - sh_score ship < points then max_score
                           else sh_score ship + points)\<rparr>)"

definition subtractScore :: "ShipComponent \<Rightarrow> u32 \<Rightarrow> ShipComponent" where
  "subtractScore ship penalty =
     ship\<lparr>sh_score := (if sh_score ship \<le> penalty then 0 else sh_score ship - penalty)\<rparr>"

lemma addScore_sel [simp]:
  "sh_name (addScore s p) = sh_name s" "sh_frags (addScore s p) = sh_frags s"
  by (simp_all add: addScore_def Let_def)

lemma subtractScore_sel [simp]:
  "sh_name (subtractScore s p) = sh_name s" "sh_frags (subtractScore s p) = sh_frags s"
  by (simp_all add: subtractScore_def)

text \<open>Damage saturates at zero, healing at the maximum: the health after damage is the
  difference cut off at zero, the health after healing is the smaller of the sum and the
  maximum, without wrap-around in 16 bits.\<close>

theorem health_saturates:
  "unat (h_current (applyDamage h d)) = unat (h_current h) - unat d
   \<and> unat (h_current (restoreHealth h d)) = min (unat (h_current h) + unat d) (unat (h_max h))
   \<and> h_max (applyDamage h d) = h_max h \<and> h_max (restoreHealth h d) = h_max h"
proof -
  have dmg: "unat (h_current (applyDamage h d)) = unat (h_current h) - unat d"
    by (auto simp: applyDamage_def word_le_nat_alt unat_sub_if')
  let ?c = "h_current h" and ?m = "h_max h"
  note lt = unat_bounds(2) [of ?c] unat_bounds(2) [of d] unat_bounds(2) [of ?m]
  have up: "unat (ucast x :: u32) = unat x" for x :: u16
    using unat_bounds(2) [of x] by (intro unat_ucast_fits) simp
  have sum: "unat ((ucast ?c :: u32) + ucast d) = unat ?c + unat d"
    using lt up by (simp add: unat_word_ariths)
  let ?m' = "min ((ucast ?c :: u32) + ucast d) (ucast ?m)"
  have m: "unat ?m' = min (unat ?c + unat d) (unat ?m)"
    using sum up by (simp add: min_def word_le_nat_alt)
  then have "unat (ucast ?m' :: u16) = unat ?m'"
    using lt by (intro unat_ucast_fits) simp
  with m have "unat (h_current (restoreHealth h d)) = min (unat ?c + unat d) (unat ?m)"
    by (simp add: restoreHealth_def Let_def)
  with dmg show ?thesis
    by (simp add: applyDamage_def restoreHealth_def Let_def)
qed

text \<open>Scores saturate at both ends of the 32-bit range and never wrap around.\<close>

theorem score_saturates:
  "unat (sh_score (addScore s p)) = min (unat (sh_score s) + unat p) (2 ^ 32 - 1)
   \<and> unat (sh_score (subtractScore s p)) = unat (sh_score s) - unat p"
proof -
  note lt = unat_bounds(3) [of "sh_score s"] unat_bounds(3) [of p]
  then have le: "sh_score s \<le> 0xFFFFFFFF" by (simp add: word_le_nat_alt)
  have "unat (0xFFFFFFFF - sh_score s) = 2 ^ 32 - 1 - unat (sh_score s)"
    using le by (simp add: unat_sub)
  then have "unat (sh_score (addScore s p)) = min (unat (sh_score s) + unat p) (2 ^ 32 - 1)"
    using lt by (auto simp: addScore_def Let_def word_less_nat_alt unat_word_ariths min_def)
  moreover have "unat (sh_score (subtractScore s p)) = unat (sh_score s) - unat p"
    by (auto simp: subtractScore_def word_le_nat_alt unat_sub_if')
  ultimately show ?thesis by blast
qed

definition sample_ship :: Entity where
  "sample_ship = Entity_default\<lparr>e_id := 1, e_type := EtShip, e_mass := Fin 80, e_radius := Fin 5,
     e_transform := Some TransformComponent_default\<rparr>"

theorem addMass_growth_exact_witness:
  "\<exists>k. addMass_unchecked (Fin 240) sample_ship
      = (True, sample_ship\<lparr>e_mass := Fin (80 + 240), e_radius := Fin (5 * 2 ^ k)\<rparr>)
     \<and> 80 + 240 < pi * (5 * 2 ^ k * 2)\<^sup>2 \<and> (k = 0 \<or> pi * (5 * 2 ^ k)\<^sup>2 \<le> 80 + 240)"
proof (rule addMass_growth_exact)
  have "(2 - (1 / 2 :: real) ^ 52) * 2 ^ 1023 \<ge> 1 * 2 ^ 1023"
    by (intro mult_right_mono) (simp_all add: power_divide)
  moreover have "(2 :: real) ^ 10 \<le> 2 ^ 1023" by (rule power_increasing) simp_all
  ultimately show "80 + 240 \<le> dbl_max" unfolding dbl_max_def by simp
qed (simp_all add: sample_ship_def)

end
