(* ===== verification/EntityPool.thy ===== *)
theory EntityPool
  imports EntityModel
begin

text \<open>
  src/src/server/entity_pool.h: the pool of entities with slot reuse.  An \<open>Entity*\<close> that
  \<open>acquire\<close> or a lookup returns points into the pool's stable storage, so it is the
  index of its slot; a write through the pointer is \<open>put_slot\<close>.  What the world relies
  on is the locale \<open>entity_store\<close>, interpreted on the pool at the end.
\<close>

section \<open>The interface the world uses\<close>

locale entity_store =
  fixes inv :: "'p \<Rightarrow> bool"
    and slots :: "'p \<Rightarrow> Entity option list"
    and room :: "'p \<Rightarrow> bool"
    and fresh_slot :: "'p \<Rightarrow> nat \<times> 'p"
    and lookup :: "'p \<Rightarrow> EntityId \<Rightarrow> nat option"
    and reclaim :: "'p \<Rightarrow> 'p"
  assumes fresh_inv: "inv p \<Longrightarrow> room p \<Longrightarrow> fresh_slot p = (i, p') \<Longrightarrow> inv p'"
    and fresh_slots: "inv p \<Longrightarrow> fresh_slot p = (i, p') \<Longrightarrow>
      i < length (slots p') \<and> (\<exists>e. slots p' ! i = Some (Entity_default\<lparr>e_id := e\<rparr>))
      \<and> (i < length (slots p) \<longrightarrow> slots p ! i = None) \<and> length (slots p) \<le> length (slots p')
      \<and> (\<forall>j<length (slots p'). j \<noteq> i \<longrightarrow> j < length (slots p) \<and> slots p' ! j = slots p ! j)"
    and lookup_iff: "inv p \<Longrightarrow>
      lookup p k = Some i \<longleftrightarrow> i < length (slots p) \<and> (\<exists>e. slots p ! i = Some e \<and> e_id e = k)"
    and reclaim_inv: "inv p \<Longrightarrow> inv (reclaim p)"
    and reclaim_slots: "slots (reclaim p) =
      map (\<lambda>s. case s of None \<Rightarrow> None | Some e \<Rightarrow> if e_isDestroyed e then None else s) (slots p)"
begin

lemma ids_distinct:
  assumes "inv p" "i < length (slots p)" "j < length (slots p)"
    "slots p ! i = Some a" "slots p ! j = Some b" "e_id a = e_id b"
  shows "i = j"
proof -
  have "lookup p (e_id a) = Some i" "lookup p (e_id a) = Some j"
    using assms by (simp_all add: lookup_iff)
  then show ?thesis by simp
qed

lemma fresh_id:
  assumes "inv p" "room p" "fresh_slot p = (i, p')" "j < length (slots p)" "slots p ! j = Some e"
    "slots p' ! i = Some n"
  shows "e_id e \<noteq> e_id n"
proof
  assume same: "e_id e = e_id n"
  note f = fresh_slots [OF assms(1,3)]
  from f assms(4,5) have "j \<noteq> i" by auto
  moreover from f assms(4) have len: "j < length (slots p')" by linarith
  ultimately have "slots p' ! j = Some e" using f assms(5) by auto
  with ids_distinct [OF fresh_inv [OF assms(1-3)], of j i] f assms(6) same \<open>j \<noteq> i\<close> len
  show False by auto
qed

lemma lookup_fresh:
  assumes "inv p" "room p" "fresh_slot p = (i, p')" "slots p' ! i = Some n"
  shows "lookup p' (e_id n) = Some i"
  using fresh_inv [OF assms(1-3)] fresh_slots [OF assms(1,3)] assms(4) by (simp add: lookup_iff)

lemma lookup_kept:
  assumes "inv p" "room p" "fresh_slot p = (i, p')" "lookup p k = Some j"
  shows "lookup p' k = Some j"
proof -
  note f = fresh_slots [OF assms(1,3)]
  from assms(1,4) obtain e where e: "j < length (slots p)" "slots p ! j = Some e" "e_id e = k"
    by (auto simp: lookup_iff)
  with f have "j \<noteq> i" "j < length (slots p')" by auto
  with f e have "slots p' ! j = Some e" by auto
  with e \<open>j < length (slots p')\<close> fresh_inv [OF assms(1-3)] show ?thesis by (simp add: lookup_iff)
qed

lemma reclaim_idem: "slots (reclaim (reclaim p)) = slots (reclaim p)"
  by (auto simp: reclaim_slots split: option.splits)

lemma lookup_reclaim:
  assumes "inv p"
  shows "lookup (reclaim p) k = Some i \<longleftrightarrow>
    lookup p k = Some i \<and> (\<exists>e. slots p ! i = Some e \<and> \<not> e_isDestroyed e)"
  using assms reclaim_inv [OF assms]
  by (auto simp: lookup_iff reclaim_slots split: option.splits if_splits)

end

section \<open>The pool\<close>

text \<open>\<open>p_free\<close> is the vector \<open>free_indices_\<close>; its \<open>back()\<close> is the last element.\<close>

record EntityPool =
  p_storage :: "Entity option list"
  p_free :: "nat list"
  p_index :: "EntityId \<Rightarrow> nat option"
  p_next_id :: u64

definition EntityPool_init :: EntityPool where
  "EntityPool_init = \<lparr>p_storage = [], p_free = [], p_index = (\<lambda>_. None), p_next_id = 1\<rparr>"

definition acquire :: "EntityPool \<Rightarrow> nat \<times> EntityPool" where
  "acquire p =
     (let fresh = Entity_default\<lparr>e_id := p_next_id p\<rparr>
      in if p_free p \<noteq> [] then
           let idx = last (p_free p)
           in (idx, p\<lparr>p_free := butlast (p_free p),
                      p_storage := (p_storage p)[idx := Some fresh],
                      p_index := (p_index p)(p_next_id p \<mapsto> idx),
                      p_next_id := p_next_id p + 1\<rparr>)
         else
           (length (p_storage p),
            p\<lparr>p_storage := p_storage p @ [Some fresh],
              p_index := (p_index p)(p_next_id p \<mapsto> length (p_storage p)),
              p_next_id := p_next_id p + 1\<rparr>))"

definition recycle_slot :: "nat \<Rightarrow> EntityPool \<Rightarrow> EntityPool" where
  "recycle_slot i p =
     (case p_storage p ! i of
        Some e \<Rightarrow>
          if e_isDestroyed e
          then p\<lparr>p_index := (p_index p)(e_id e := None), p_free := p_free p @ [i],
                 p_storage := (p_storage p)[i := None]\<rparr>
          else p
      | None \<Rightarrow> p)"

definition recycleDestroyed :: "EntityPool \<Rightarrow> EntityPool" where
  "recycleDestroyed p = fold recycle_slot [0..<length (p_storage p)] p"

definition isActive :: "Entity option \<Rightarrow> bool" where
  "isActive slot = (case slot of None \<Rightarrow> False
     | Some e \<Rightarrow> e_type e \<noteq> EtNone \<and> \<not> e_isDestroyed e)"

definition activeCount :: "EntityPool \<Rightarrow> nat" where
  "activeCount p = length (p_storage p) - length (p_free p)"

definition findByEntityID :: "EntityPool \<Rightarrow> EntityId \<Rightarrow> nat option" where
  "findByEntityID p k =
     (case p_index p k of
        None \<Rightarrow> None
      | Some i \<Rightarrow> if p_storage p ! i = None then None else Some i)"

text \<open>A write through an \<open>Entity*\<close> into the slot it points to.\<close>

definition put_slot :: "nat \<Rightarrow> Entity \<Rightarrow> EntityPool \<Rightarrow> EntityPool" where
  "put_slot i e p = p\<lparr>p_storage := (p_storage p)[i := Some e]\<rparr>"

section \<open>The invariant\<close>

definition pool_inv :: "EntityPool \<Rightarrow> bool" where
  "pool_inv p \<longleftrightarrow>
     distinct (p_free p)
     \<and> set (p_free p) = {i. i < length (p_storage p) \<and> p_storage p ! i = None}
     \<and> (\<forall>k i. p_index p k = Some i \<longleftrightarrow>
          i < length (p_storage p) \<and> (\<exists>e. p_storage p ! i = Some e \<and> e_id e = k))
     \<and> (\<forall>e. Some e \<in> set (p_storage p) \<longrightarrow> e_id e < p_next_id p)"

text \<open>The counter has room for one more identifier.\<close>

definition pool_room :: "EntityPool \<Rightarrow> bool" where
  "pool_room p \<longleftrightarrow> p_next_id p < - 1"

lemma pool_inv_init: "pool_inv EntityPool_init"
  by (simp add: pool_inv_def EntityPool_init_def)

lemma less_succ_word:
  assumes "(n :: u64) < - 1" "k < n \<or> k = n"
  shows "k < n + 1"
proof -
  have "unat (- 1 :: u64) = 2 ^ 64 - 1" by (simp add: unsigned_minus_1_eq_mask mask_eq_exp_minus_1)
  with assms(1) have "unat (n + 1) = unat n + 1"
    by (simp add: word_less_nat_alt unat_word_ariths)
  with assms(2) show ?thesis by (auto simp: word_less_nat_alt)
qed

text \<open>Putting an entity with a new identifier into an empty slot, and emptying one.\<close>

definition index_ok :: "Entity option list \<Rightarrow> (EntityId \<Rightarrow> nat option) \<Rightarrow> bool" where
  "index_ok st ix \<longleftrightarrow> (\<forall>k i. ix k = Some i \<longleftrightarrow> i < length st \<and> (\<exists>e. st ! i = Some e \<and> e_id e = k))"

definition free_ok :: "Entity option list \<Rightarrow> nat list \<Rightarrow> bool" where
  "free_ok st fr \<longleftrightarrow> distinct fr \<and> set fr = {i. i < length st \<and> st ! i = None}"

lemma pool_inv_alt:
  "pool_inv p \<longleftrightarrow> free_ok (p_storage p) (p_free p) \<and> index_ok (p_storage p) (p_index p)
     \<and> (\<forall>e. Some e \<in> set (p_storage p) \<longrightarrow> e_id e < p_next_id p)"
  unfolding pool_inv_def index_ok_def free_ok_def by blast

lemma index_ok_fill:
  assumes ix: "index_ok st ix" and new: "\<And>e. Some e \<in> set st \<Longrightarrow> e_id e \<noteq> e_id n"
    and i: "i < length st" "st ! i = None"
  shows "index_ok (st[i := Some n]) (ix(e_id n \<mapsto> i))"
proof -
  have none: "ix (e_id n) = None"
  proof (cases "ix (e_id n)")
    case (Some j)
    with ix obtain e where "j < length st" "st ! j = Some e" "e_id e = e_id n"
      unfolding index_ok_def by blast
    with new show ?thesis by (metis nth_mem)
  qed
  show ?thesis unfolding index_ok_def
  proof (intro allI)
    fix k j
    have "ix k = Some j \<longleftrightarrow> j < length st \<and> (\<exists>e. st ! j = Some e \<and> e_id e = k)"
      using ix unfolding index_ok_def by blast
    with i none show "(ix(e_id n \<mapsto> i)) k = Some j \<longleftrightarrow>
        j < length (st[i := Some n]) \<and> (\<exists>e. st[i := Some n] ! j = Some e \<and> e_id e = k)"
      using new by (cases "j = i"; cases "k = e_id n") (auto simp: nth_list_update in_set_conv_nth)
  qed
qed

lemma index_ok_append:
  assumes ix: "index_ok st ix" and new: "\<And>e. Some e \<in> set st \<Longrightarrow> e_id e \<noteq> e_id n"
  shows "index_ok (st @ [Some n]) (ix(e_id n \<mapsto> length st))"
proof -
  have "index_ok (st @ [None]) ix"
    using ix unfolding index_ok_def by (auto simp: nth_append less_Suc_eq)
  from index_ok_fill [OF this, of n "length st"] new show ?thesis by auto
qed

lemma index_ok_erase:
  assumes ix: "index_ok st ix" and i: "i < length st" "st ! i = Some e"
  shows "index_ok (st[i := None]) (ix(e_id e := None))"
  unfolding index_ok_def
proof (intro allI)
  fix k j
  have "ix (e_id e) = Some i" using ix i unfolding index_ok_def by blast
  moreover have "ix k = Some j \<longleftrightarrow> j < length st \<and> (\<exists>e. st ! j = Some e \<and> e_id e = k)"
    using ix unfolding index_ok_def by blast
  ultimately show "(ix(e_id e := None)) k = Some j \<longleftrightarrow>
      j < length (st[i := None]) \<and> (\<exists>d. st[i := None] ! j = Some d \<and> e_id d = k)"
    using i by (cases "j = i") (auto simp: nth_list_update)
qed

lemma acquire_cases:
  assumes "pool_inv p" "acquire p = (i, p')"
  obtains (reuse) rest where "p_free p = rest @ [i]" "i < length (p_storage p)" "p_storage p ! i = None"
      "p_storage p' = (p_storage p)[i := Some (Entity_default\<lparr>e_id := p_next_id p\<rparr>)]" "p_free p' = rest"
      "p_index p' = (p_index p)(p_next_id p \<mapsto> i)" "p_next_id p' = p_next_id p + 1"
    | (append) "p_free p = []" "i = length (p_storage p)" "p_free p' = []"
      "p_storage p' = p_storage p @ [Some (Entity_default\<lparr>e_id := p_next_id p\<rparr>)]"
      "p_index p' = (p_index p)(p_next_id p \<mapsto> i)" "p_next_id p' = p_next_id p + 1"
proof (cases "p_free p" rule: rev_cases)
  case Nil
  then show ?thesis using append assms(2) by (auto simp: acquire_def Let_def)
next
  case (snoc rest idx)
  with assms(1) have "idx < length (p_storage p)" "p_storage p ! idx = None"
    unfolding pool_inv_def by auto
  with snoc show ?thesis using reuse assms(2) by (auto simp: acquire_def Let_def)
qed

lemma acquire_inv [inv_intros]:
  assumes "pool_inv p" "pool_room p" "acquire p = (i, p')"
  shows "pool_inv p'"
proof -
  let ?n = "p_next_id p" and ?S = "p_storage p"
  note inv = assms(1) [unfolded pool_inv_alt]
  have lt: "e_id e < ?n + 1" if "Some e \<in> set ?S \<or> e_id e = ?n" for e
    using that inv assms(2) less_succ_word by (auto simp: pool_room_def)
  have new: "e_id e \<noteq> e_id (Entity_default\<lparr>e_id := ?n\<rparr>)" if "Some e \<in> set ?S" for e
    using inv that by fastforce
  from assms(1,3) show ?thesis
  proof (cases rule: acquire_cases)
    case (reuse rest)
    then have "free_ok (p_storage p') (p_free p')"
      using inv by (auto simp: free_ok_def nth_list_update)
    moreover have "index_ok (p_storage p') (p_index p')"
      using index_ok_fill [OF _ new reuse(2,3)] inv reuse by simp
    moreover have "e_id e < p_next_id p'" if "Some e \<in> set (p_storage p')" for e
      using set_update_cases [of "Some e" ?S i "Some (Entity_default\<lparr>e_id := ?n\<rparr>)"] that lt [of e] reuse
      by auto
    ultimately show ?thesis by (simp add: pool_inv_alt)
  next
    case append
    then have "free_ok (p_storage p') (p_free p')"
      using inv by (auto simp: free_ok_def nth_append less_Suc_eq)
    moreover have "index_ok (p_storage p') (p_index p')"
      using index_ok_append [OF _ new] inv append by simp
    ultimately show ?thesis
      using append lt lt [of "Entity_default\<lparr>e_id := ?n\<rparr>"] by (auto simp: pool_inv_alt)
  qed
qed

definition clean_slot :: "Entity option \<Rightarrow> Entity option" where
  "clean_slot s = (case s of None \<Rightarrow> None | Some e \<Rightarrow> if e_isDestroyed e then None else s)"

lemma recycle_slot_storage:
  "i < length (p_storage p) \<Longrightarrow> p_storage (recycle_slot i p) = (p_storage p)[i := clean_slot (p_storage p ! i)]"
  by (auto simp: recycle_slot_def clean_slot_def split: option.splits) (metis list_update_id)+

lemma recycle_slot_next_id [simp]: "p_next_id (recycle_slot i p) = p_next_id p"
  by (simp add: recycle_slot_def split: option.split)

lemma recycle_slot_inv [inv_intros]:
  assumes "pool_inv p" "i < length (p_storage p)"
  shows "pool_inv (recycle_slot i p)"
proof (cases "\<exists>e. p_storage p ! i = Some e \<and> e_isDestroyed e")
  case True
  then obtain e where e: "p_storage p ! i = Some e" "e_isDestroyed e" by blast
  note inv = assms(1) [unfolded pool_inv_alt]
  have "i \<notin> set (p_free p)" using inv e by (auto simp: free_ok_def)
  then have "free_ok ((p_storage p)[i := None]) (p_free p @ [i])"
    using inv assms(2) by (auto simp: free_ok_def nth_list_update)
  moreover have "index_ok ((p_storage p)[i := None]) ((p_index p)(e_id e := None))"
    using index_ok_erase [OF _ assms(2) e(1)] inv by blast
  moreover have "e_id d < p_next_id p" if "Some d \<in> set ((p_storage p)[i := None])" for d
    using set_update_cases [of "Some d" "p_storage p" i None] that inv by auto
  ultimately show ?thesis using e by (simp add: pool_inv_alt recycle_slot_def)
next
  case False
  then have "recycle_slot i p = p" by (auto simp: recycle_slot_def split: option.splits)
  with assms(1) show ?thesis by simp
qed

lemma fold_recycle_storage:
  "n \<le> length (p_storage p) \<Longrightarrow>
   p_storage (fold recycle_slot [0..<n] p) = map clean_slot (take n (p_storage p)) @ drop n (p_storage p)"
proof (induction n)
  case (Suc n)
  let ?q = "fold recycle_slot [0..<n] p" and ?S = "p_storage p"
  have IH: "p_storage ?q = map clean_slot (take n ?S) @ drop n ?S" using Suc by auto
  then have n: "n < length (p_storage ?q)" "p_storage ?q ! n = ?S ! n"
    using Suc.prems by (auto simp: nth_append)
  have "(map clean_slot (take n ?S) @ drop n ?S)[n := clean_slot (?S ! n)]
      = map clean_slot (take (Suc n) ?S) @ drop (Suc n) ?S"
    using Suc.prems by (intro nth_equalityI) (auto simp: nth_append nth_list_update less_Suc_eq)
  then show ?case using recycle_slot_storage [OF n(1)] IH n(2) by simp
qed simp

lemma recycleDestroyed_storage: "p_storage (recycleDestroyed p) = map clean_slot (p_storage p)"
  by (simp add: recycleDestroyed_def fold_recycle_storage)

lemma recycleDestroyed_inv [inv_intros]:
  assumes "pool_inv p"
  shows "pool_inv (recycleDestroyed p)"
proof -
  have "pool_inv (fold recycle_slot [0..<n] p)" if "n \<le> length (p_storage p)" for n
    using that
  proof (induction n)
    case (Suc n)
    then have "n < length (p_storage (fold recycle_slot [0..<n] p))" by (simp add: fold_recycle_storage)
    with Suc show ?case by (simp add: recycle_slot_inv)
  qed (use assms in simp)
  then show ?thesis by (simp add: recycleDestroyed_def)
qed

lemma recycleDestroyed_next_id [simp]: "p_next_id (recycleDestroyed p) = p_next_id p"
proof -
  have "p_next_id (fold recycle_slot is p) = p_next_id p" for "is"
    by (induction "is" arbitrary: p) simp_all
  then show ?thesis by (simp add: recycleDestroyed_def)
qed

lemma put_slot_inv [inv_intros]:
  assumes "pool_inv p" "i < length (p_storage p)" "p_storage p ! i = Some d" "e_id e = e_id d"
  shows "pool_inv (put_slot i e p)"
proof -
  note inv = assms(1) [unfolded pool_inv_alt]
  have "free_ok ((p_storage p)[i := Some e]) (p_free p)"
    using inv assms(2,3) by (auto simp: free_ok_def nth_list_update split: if_splits)
  moreover have "index_ok ((p_storage p)[i := Some e]) (p_index p)"
    using inv assms(2-4) by (auto simp: index_ok_def nth_list_update)
  moreover have "e_id c < p_next_id p" if "Some c \<in> set ((p_storage p)[i := Some e])" for c
    using set_update_cases [of "Some c" "p_storage p" i "Some e"] that inv assms(2-4) nth_mem by fastforce
  ultimately show ?thesis by (simp add: pool_inv_alt put_slot_def)
qed

lemma findByEntityID_iff:
  assumes "pool_inv p"
  shows "findByEntityID p k = Some i \<longleftrightarrow>
    i < length (p_storage p) \<and> (\<exists>e. p_storage p ! i = Some e \<and> e_id e = k)"
proof -
  have ix: "p_index p k = Some i \<longleftrightarrow> i < length (p_storage p) \<and> (\<exists>e. p_storage p ! i = Some e \<and> e_id e = k)" for i
    using assms unfolding pool_inv_def by blast
  show ?thesis
  proof (cases "p_index p k")
    case None
    then show ?thesis using ix [of i] by (simp add: findByEntityID_def)
  next
    case (Some j)
    then show ?thesis using ix [of i] ix [of j] by (auto simp: findByEntityID_def)
  qed
qed

lemma acquire_slots:
  assumes "pool_inv p" "acquire p = (i, p')"
  shows "i < length (p_storage p')"
    "p_storage p' ! i = Some (Entity_default\<lparr>e_id := p_next_id p\<rparr>)"
    "i < length (p_storage p) \<Longrightarrow> p_storage p ! i = None" "length (p_storage p) \<le> length (p_storage p')"
    "j < length (p_storage p') \<Longrightarrow> j \<noteq> i \<Longrightarrow> j < length (p_storage p) \<and> p_storage p' ! j = p_storage p ! j"
    "p_next_id p' = p_next_id p + 1"
proof -
  let ?P = "i < length (p_storage p')
    \<and> p_storage p' ! i = Some (Entity_default\<lparr>e_id := p_next_id p\<rparr>)
    \<and> (i < length (p_storage p) \<longrightarrow> p_storage p ! i = None)
    \<and> length (p_storage p) \<le> length (p_storage p')
    \<and> (\<forall>j<length (p_storage p'). j \<noteq> i \<longrightarrow> j < length (p_storage p) \<and> p_storage p' ! j = p_storage p ! j)
    \<and> p_next_id p' = p_next_id p + 1"
  from assms have ?P by (cases rule: acquire_cases) (auto simp: nth_append)
  then show "i < length (p_storage p')" "p_storage p' ! i = Some (Entity_default\<lparr>e_id := p_next_id p\<rparr>)"
    "i < length (p_storage p) \<Longrightarrow> p_storage p ! i = None" "length (p_storage p) \<le> length (p_storage p')"
    "j < length (p_storage p') \<Longrightarrow> j \<noteq> i \<Longrightarrow> j < length (p_storage p) \<and> p_storage p' ! j = p_storage p ! j"
    "p_next_id p' = p_next_id p + 1"
    by blast+
qed

interpretation pool: entity_store pool_inv p_storage pool_room acquire findByEntityID recycleDestroyed
proof (unfold_locales, goal_cases)
  case (1 p i p')
  then show ?case by (rule acquire_inv)
next
  case (2 p i p')
  then show ?case using acquire_slots [OF 2] by blast
next
  case (3 p k i)
  then show ?case by (rule findByEntityID_iff)
next
  case (4 p)
  then show ?case by (rule recycleDestroyed_inv)
next
  case (5 p)
  have "clean_slot = (\<lambda>s. case s of None \<Rightarrow> None | Some e \<Rightarrow> if e_isDestroyed e then None else s)"
    by (simp add: clean_slot_def fun_eq_iff)
  then show ?case by (simp add: recycleDestroyed_storage)
qed

lemma activeCount_occupied:
  assumes "pool_inv q"
  shows "activeCount q = length (filter (\<lambda>s. s \<noteq> None) (p_storage q))"
    and "length (p_free q) \<le> length (p_storage q)"
proof -
  let ?S = "p_storage q"
  have "length (p_free q) = card {i. i < length ?S \<and> ?S ! i = None}"
    using assms distinct_card unfolding pool_inv_def by metis
  then have free: "length (p_free q) = length (filter (\<lambda>s. s = None) ?S)"
    by (simp add: length_filter_conv_card)
  with sum_length_filter_compl [of "\<lambda>s. s = None" ?S]
  show "activeCount q = length (filter (\<lambda>s. s \<noteq> None) ?S)" by (simp add: activeCount_def)
  from free show "length (p_free q) \<le> length ?S" by simp
qed

section \<open>What the pool promises\<close>

text \<open>C33.  Acquiring a slot keeps the pool consistent (the free list is exactly the empty
  slots, the id index is exactly the occupied ones), returns a slot that held no entity, and
  gives it a value-initialised entity with an identifier no entity of the pool has; lookups
  by the new id find it and every earlier lookup still succeeds.\<close>

theorem acquire_fresh:
  assumes "pool_inv p" "pool_room p" "acquire p = (i, p')"
  shows "pool_inv p' \<and> (i < length (p_storage p) \<longrightarrow> p_storage p ! i = None)
    \<and> p_storage p' ! i = Some (Entity_default\<lparr>e_id := p_next_id p\<rparr>)
    \<and> (\<forall>e. Some e \<in> set (p_storage p) \<longrightarrow> e_id e \<noteq> p_next_id p)
    \<and> findByEntityID p' (p_next_id p) = Some i
    \<and> (\<forall>k j. findByEntityID p k = Some j \<longrightarrow> findByEntityID p' k = Some j)"
proof (intro conjI allI impI)
  note sl = acquire_slots [OF assms(1,3)]
  show "pool_inv p'" by (rule pool.fresh_inv [OF assms])
  show "i < length (p_storage p) \<Longrightarrow> p_storage p ! i = None" by (rule sl(3))
  show "p_storage p' ! i = Some (Entity_default\<lparr>e_id := p_next_id p\<rparr>)" by (rule sl(2))
  show "e_id e \<noteq> p_next_id p" if "Some e \<in> set (p_storage p)" for e
    using pool.fresh_id [OF assms _ _ sl(2)] that by (auto simp: in_set_conv_nth)
  show "findByEntityID p' (p_next_id p) = Some i" using pool.lookup_fresh [OF assms sl(2)] by simp
  show "findByEntityID p' k = Some j" if "findByEntityID p k = Some j" for k j
    by (rule pool.lookup_kept [OF assms that])
qed

text \<open>Recycling keeps the pool consistent, empties exactly the slots of destroyed
  entities and leaves every other slot as it was, makes lookups of the recycled entities
  fail, and is idempotent on the storage.\<close>

theorem recycleDestroyed_exact:
  assumes "pool_inv p"
  shows "pool_inv (recycleDestroyed p) \<and> length (p_storage (recycleDestroyed p)) = length (p_storage p)
    \<and> (\<forall>i<length (p_storage p). p_storage (recycleDestroyed p) ! i =
         (case p_storage p ! i of Some e \<Rightarrow> if e_isDestroyed e then None else Some e | None \<Rightarrow> None))
    \<and> (\<forall>k i. findByEntityID (recycleDestroyed p) k = Some i \<longleftrightarrow>
         findByEntityID p k = Some i \<and> (\<exists>e. p_storage p ! i = Some e \<and> \<not> e_isDestroyed e))
    \<and> p_storage (recycleDestroyed (recycleDestroyed p)) = p_storage (recycleDestroyed p)"
  using assms pool.reclaim_inv [OF assms] pool.lookup_reclaim [OF assms]
  by (auto simp: pool.reclaim_idem pool.reclaim_slots split: option.split)

text \<open>The storage is the high-water mark: \<open>acquire\<close> grows it only when every slot
  is taken, so its new length is the larger of the old length and the number of occupied
  slots; \<open>activeCount\<close> counts the occupied slots.\<close>

theorem acquire_high_water:
  assumes "pool_inv p" "pool_room p" "acquire p = (i, p')"
  shows "activeCount p' = activeCount p + 1
    \<and> length (p_storage p') = max (length (p_storage p)) (activeCount p')
    \<and> activeCount p' = length (filter (\<lambda>s. s \<noteq> None) (p_storage p'))"
proof -
  note c = activeCount_occupied [OF assms(1)] activeCount_occupied [OF acquire_inv [OF assms]]
  from assms(1,3) show ?thesis
  proof (cases rule: acquire_cases)
    case (reuse rest)
    with c show ?thesis by (auto simp: activeCount_def)
  next
    case append
    with c show ?thesis by (auto simp: activeCount_def)
  qed
qed

section \<open>Creating an entity\<close>

text \<open>Room for a number of identifiers.\<close>

definition room_for :: "nat \<Rightarrow> EntityPool \<Rightarrow> bool" where
  "room_for n p \<longleftrightarrow> unat (p_next_id p) + n < 2 ^ 64"

lemma room_for_pool_room: "room_for (Suc n) p \<Longrightarrow> pool_room p"
  by (simp add: room_for_def pool_room_def word_less_nat_alt unsigned_minus_1_eq_mask mask_eq_exp_minus_1)

text \<open>The callers of \<open>acquire\<close> fill in the new entity through the pointer: the storage
  then has the entity in an empty slot, or one slot more.\<close>

lemma acquire_put:
  assumes "pool_inv p" "room_for (Suc n) p" "acquire p = (i, p')" "e_id e = p_next_id p"
  shows "pool_inv (put_slot i e p')" "room_for n (put_slot i e p')"
    "i < length (p_storage p) \<and> p_storage p ! i = None \<and> p_storage (put_slot i e p') = (p_storage p)[i := Some e]
     \<or> i = length (p_storage p) \<and> p_storage (put_slot i e p') = p_storage p @ [Some e]"
    "the (p_storage p' ! i) = Entity_default\<lparr>e_id := p_next_id p\<rparr>"
proof -
  note sl = acquire_slots [OF assms(1,3)]
  have "pool_inv p'" using acquire_inv [OF assms(1) room_for_pool_room assms(3)] assms(2) by blast
  then show "pool_inv (put_slot i e p')" using put_slot_inv [OF _ sl(1,2)] assms(4) by simp
  have "unat (p_next_id p + 1) = unat (p_next_id p) + 1"
    using assms(2) by (simp add: room_for_def unat_word_ariths)
  then show "room_for n (put_slot i e p')"
    using assms(2) sl(6) by (simp add: room_for_def put_slot_def)
  from assms(1,3) show "i < length (p_storage p) \<and> p_storage p ! i = None
       \<and> p_storage (put_slot i e p') = (p_storage p)[i := Some e]
     \<or> i = length (p_storage p) \<and> p_storage (put_slot i e p') = p_storage p @ [Some e]"
    by (cases rule: acquire_cases) (simp_all add: put_slot_def)
  show "the (p_storage p' ! i) = Entity_default\<lparr>e_id := p_next_id p\<rparr>" using sl(2) by simp
qed

section \<open>Witnesses\<close>

text \<open>A pool of two slots; the entity of the first is destroyed.\<close>

definition sample_pool :: EntityPool where
  "sample_pool = put_slot 0 (Entity_default\<lparr>e_id := 1, e_isDestroyed := True\<rparr>)
     (snd (acquire (snd (acquire EntityPool_init))))"

lemma sample_pool_fields:
  "sample_pool = \<lparr>p_storage = [Some (Entity_default\<lparr>e_id := 1, e_isDestroyed := True\<rparr>),
       Some (Entity_default\<lparr>e_id := 2\<rparr>)], p_free = [], p_index = [1 \<mapsto> 0, 2 \<mapsto> 1], p_next_id = 3\<rparr>"
  by (simp add: sample_pool_def put_slot_def acquire_def EntityPool_init_def Let_def)

lemma sample_pool_inv: "pool_inv sample_pool"
proof -
  have "Some e \<in> set (p_storage sample_pool) \<Longrightarrow> e_id e < p_next_id sample_pool" for e
    by (auto simp: sample_pool_fields)
  then show ?thesis
    by (auto simp: pool_inv_def sample_pool_fields less_Suc_eq nth_Cons split: nat.splits if_splits)
qed

theorem recycleDestroyed_exact_witness:
  "pool_inv (recycleDestroyed sample_pool) \<and> p_storage (recycleDestroyed sample_pool) ! 0 = None
   \<and> p_storage (recycleDestroyed sample_pool) ! 1 = Some (Entity_default\<lparr>e_id := 2\<rparr>)"
proof -
  have "pool_inv (recycleDestroyed sample_pool)"
    "\<forall>i<2. p_storage (recycleDestroyed sample_pool) ! i = (case p_storage sample_pool ! i of
        Some e \<Rightarrow> if e_isDestroyed e then None else Some e | None \<Rightarrow> None)"
    using recycleDestroyed_exact [OF sample_pool_inv] by (simp_all add: sample_pool_fields)
  then show ?thesis by (simp add: sample_pool_fields Entity_default_def)
qed

lemma recycled_sample_fields:
  "recycleDestroyed sample_pool = \<lparr>p_storage = [None, Some (Entity_default\<lparr>e_id := 2\<rparr>)], p_free = [0],
     p_index = [2 \<mapsto> 1], p_next_id = 3\<rparr>"
  by (simp add: recycleDestroyed_def sample_pool_fields recycle_slot_def Entity_default_def
      upt_rec fun_eq_iff)

theorem acquire_fresh_witness:
  "pool_inv (snd (acquire (recycleDestroyed sample_pool)))
   \<and> findByEntityID (snd (acquire (recycleDestroyed sample_pool))) 3 = Some 0"
proof -
  have "acquire (recycleDestroyed sample_pool) = (0, snd (acquire (recycleDestroyed sample_pool)))"
    "pool_room (recycleDestroyed sample_pool)"
    by (simp_all add: recycled_sample_fields acquire_def pool_room_def Let_def)
  from acquire_fresh [OF recycleDestroyed_inv [OF sample_pool_inv] this(2,1)]
  show ?thesis by (simp add: recycled_sample_fields)
qed

theorem acquire_high_water_witness:
  "length (p_storage (snd (acquire sample_pool))) = 3 \<and> activeCount (snd (acquire sample_pool)) = 3"
proof -
  have "acquire sample_pool = (2, snd (acquire sample_pool))" "pool_room sample_pool"
    by (simp_all add: sample_pool_fields acquire_def pool_room_def Let_def)
  from acquire_high_water [OF sample_pool_inv this(2,1)]
  show ?thesis by (simp add: sample_pool_fields activeCount_def acquire_def Let_def)
qed

end
