(* ===== verification/EntityUtils.thy ===== *)
theory EntityUtils
  imports EntityPool
begin

text \<open>
  src/src/server/entity_utils.h and src/src/common/entity_snapshot.h: snapshots of the
  entities of the pool, and the movement of all entities by one frame with the treatment
  of the world's edges per entity type.
\<close>

section \<open>Snapshots\<close>

record TransformSnapshot =
  ts_position :: Vector2D
  ts_velocity :: Vector2D
  ts_angle :: scalar

record ShipSnapshot =
  ss_name :: string
  ss_score :: u32
  ss_thrust_power :: scalar
  ss_drag :: scalar
  ss_is_thrusting :: bool
  ss_frags :: u16

record HealthSnapshot =
  hs_current :: u16
  hs_max :: u16

record CombatSnapshot =
  cs_damage :: u16
  cs_owner_id :: EntityId

record AsteroidSnapshot =
  ast_score_reward :: u16

record EntitySnapshot =
  s_id :: EntityId
  s_type :: EntityType
  s_mass :: scalar
  s_radius :: scalar
  s_is_destroyed :: bool
  s_transform :: "TransformSnapshot option"
  s_ship :: "ShipSnapshot option"
  s_health :: "HealthSnapshot option"
  s_combat :: "CombatSnapshot option"
  s_asteroid :: "AsteroidSnapshot option"

text \<open>The name is the array up to its first NUL, or all of it.\<close>

definition toEntitySnapshot :: "Entity \<Rightarrow> EntitySnapshot" where
  "toEntitySnapshot entity =
     \<lparr>s_id = e_id entity, s_type = e_type entity, s_mass = e_mass entity, s_radius = e_radius entity,
      s_is_destroyed = e_isDestroyed entity,
      s_transform = map_option (\<lambda>t. \<lparr>ts_position = t_position t, ts_velocity = t_velocity t,
        ts_angle = t_angle t\<rparr>) (e_transform entity),
      s_ship = map_option (\<lambda>s. \<lparr>ss_name = before_char NUL (sh_name s), ss_score = sh_score s,
        ss_thrust_power = sh_thrust_power s, ss_drag = sh_drag s,
        ss_is_thrusting = sh_is_thrusting s, ss_frags = sh_frags s\<rparr>) (e_ship entity),
      s_health = map_option (\<lambda>h. \<lparr>hs_current = h_current h, hs_max = h_max h\<rparr>) (e_health entity),
      s_combat = map_option (\<lambda>c. \<lparr>cs_damage = co_damage c, cs_owner_id = co_owner_id c\<rparr>)
        (e_combat entity),
      s_asteroid = map_option (\<lambda>a. \<lparr>ast_score_reward = as_score_reward a\<rparr>) (e_asteroid entity)\<rparr>"

fun buildEntitySnapshots_loop :: "Entity option list \<Rightarrow> EntitySnapshot list \<Rightarrow> EntitySnapshot list" where
  "buildEntitySnapshots_loop [] out_snapshots = out_snapshots"
| "buildEntitySnapshots_loop (slot # slots) out_snapshots =
     buildEntitySnapshots_loop slots
       (if isActive slot then out_snapshots @ [toEntitySnapshot (the slot)] else out_snapshots)"

definition buildEntitySnapshots :: "EntityPool \<Rightarrow> EntitySnapshot list" where
  "buildEntitySnapshots p = buildEntitySnapshots_loop (p_storage p) []"

lemma buildEntitySnapshots_loop_eq:
  "buildEntitySnapshots_loop slots out = out @ map (toEntitySnapshot \<circ> the) (filter isActive slots)"
  by (induction slots out rule: buildEntitySnapshots_loop.induct) simp_all

text \<open>The snapshot of the pool lists exactly the active entities, each once and in
  storage order: identifiers do not repeat, and no destroyed or uninitialised entity is in it;
  there are never more snapshots than occupied slots.\<close>

theorem buildEntitySnapshots_active:
  assumes "pool_inv p"
  shows "buildEntitySnapshots p = map (toEntitySnapshot \<circ> the) (filter isActive (p_storage p))
    \<and> distinct (map s_id (buildEntitySnapshots p))
    \<and> (\<forall>s\<in>set (buildEntitySnapshots p). \<not> s_is_destroyed s \<and> s_type s \<noteq> EtNone
         \<and> (\<exists>i. findByEntityID p (s_id s) = Some i))
    \<and> length (buildEntitySnapshots p) \<le> activeCount p"
proof (intro conjI)
  let ?S = "p_storage p"
  show eq: "buildEntitySnapshots p = map (toEntitySnapshot \<circ> the) (filter isActive ?S)"
    by (simp add: buildEntitySnapshots_def buildEntitySnapshots_loop_eq)
  have "distinct (map (e_id \<circ> the) (filter isActive ?S))"
    using pool.ids_distinct [OF assms]
    by (intro distinct_map_filter_nth) (auto simp: isActive_def split: option.splits)
  moreover have "s_id \<circ> (toEntitySnapshot \<circ> the) = e_id \<circ> the"
    by (simp add: toEntitySnapshot_def fun_eq_iff)
  ultimately show "distinct (map s_id (buildEntitySnapshots p))"
    unfolding eq list.map_comp by simp
  show "\<forall>s\<in>set (buildEntitySnapshots p). \<not> s_is_destroyed s \<and> s_type s \<noteq> EtNone
      \<and> (\<exists>i. findByEntityID p (s_id s) = Some i)"
    unfolding eq using findByEntityID_iff [OF assms]
    by (auto simp: toEntitySnapshot_def isActive_def in_set_conv_nth split: option.splits)
  have "filter isActive ?S = filter isActive (filter (\<lambda>s. s \<noteq> None) ?S)"
    by (auto simp: isActive_def intro!: filter_cong split: option.splits)
  then have "length (filter isActive ?S) \<le> length (filter (\<lambda>s. s \<noteq> None) ?S)"
    by (metis length_filter_le)
  then show "length (buildEntitySnapshots p) \<le> activeCount p"
    unfolding eq by (simp add: activeCount_occupied [OF assms])
qed

theorem buildEntitySnapshots_active_witness:
  "map s_id (buildEntitySnapshots (put_slot 1 (sample_ship\<lparr>e_id := 2\<rparr>) sample_pool)) = [2]
   \<and> distinct (map s_id (buildEntitySnapshots (put_slot 1 (sample_ship\<lparr>e_id := 2\<rparr>) sample_pool)))"
proof -
  let ?p = "put_slot 1 (sample_ship\<lparr>e_id := 2\<rparr>) sample_pool"
  have "pool_inv ?p"
    by (rule put_slot_inv [OF sample_pool_inv, of _ "Entity_default\<lparr>e_id := 2\<rparr>"]) (simp_all add: sample_pool_fields)
  from buildEntitySnapshots_active [OF this] show ?thesis
    by (simp add: put_slot_def sample_pool_fields isActive_def sample_ship_def Entity_default_def
        toEntitySnapshot_def)
qed

section \<open>Movement\<close>

text \<open>The step of motion of an entity with transform \<open>t\<close>: its new position and velocity.\<close>

definition integrateMotion :: "scalar \<Rightarrow> Entity \<Rightarrow> TransformComponent \<Rightarrow> Vector2D \<times> Vector2D" where
  "integrateMotion dt entity t =
     (case e_ship entity of
        Some s \<Rightarrow>
          if e_type entity = EtShip
          then updateShipPhysics (t_position t) (t_velocity t) (t_angle t)
                 (sh_is_thrusting s) (sh_thrust_power s) (sh_drag s) dt kMaxShipSpeed
          else (vadd (t_position t) (vscale (t_velocity t) dt), t_velocity t)
      | None \<Rightarrow> (vadd (t_position t) (vscale (t_velocity t) dt), t_velocity t))"

text \<open>The body of the loop for one entity.\<close>

definition moveEntity :: "scalar \<Rightarrow> scalar \<Rightarrow> scalar \<Rightarrow> Entity \<Rightarrow> Entity" where
  "moveEntity dt world_width world_height entity =
     (case e_transform entity of
        None \<Rightarrow> entity
      | Some t \<Rightarrow>
          if e_type entity = EtNone \<or> e_isDestroyed entity then entity
          else
            let (position, velocity) = integrateMotion dt entity t;
                t = t\<lparr>t_position := position, t_velocity := velocity\<rparr>
            in if e_type entity = EtAsteroid
               then entity\<lparr>e_transform := Some (t\<lparr>t_position :=
                      wrapCircleThroughWorldBounds position (e_radius entity) world_width world_height\<rparr>)\<rparr>
               else
                 let clamped = clampToWorldBounds position world_width world_height;
                     clamped_x = kEps < fabs (vx clamped - vx position);
                     clamped_y = kEps < fabs (vy clamped - vy position)
                 in if \<not> clamped_x \<and> \<not> clamped_y then entity\<lparr>e_transform := Some t\<rparr>
                    else (case e_type entity of
                        EtBullet \<Rightarrow> entity\<lparr>e_transform := Some t, e_isDestroyed := True\<rparr>
                      | EtShip \<Rightarrow> entity\<lparr>e_transform := Some (t\<lparr>
                            t_velocity := mkvec (if clamped_x then Fin 0 else vx velocity)
                                                (if clamped_y then Fin 0 else vy velocity),
                            t_position := clamped\<rparr>)\<rparr>
                      | _ \<Rightarrow> entity\<lparr>e_transform := Some t\<rparr>))"

definition updateMovementAndBounds ::
  "Entity option list \<Rightarrow> scalar \<Rightarrow> scalar \<Rightarrow> scalar \<Rightarrow> Entity option list" where
  "updateMovementAndBounds entities dt world_width world_height =
     map (map_option (moveEntity dt world_width world_height)) entities"

lemma moveEntity_frame:
  "e_id (moveEntity dt w h e) = e_id e" "e_type (moveEntity dt w h e) = e_type e"
  "e_mass (moveEntity dt w h e) = e_mass e" "e_radius (moveEntity dt w h e) = e_radius e"
  "e_ship (moveEntity dt w h e) = e_ship e" "e_health (moveEntity dt w h e) = e_health e"
  "e_combat (moveEntity dt w h e) = e_combat e" "e_asteroid (moveEntity dt w h e) = e_asteroid e"
  "e_isDestroyed e \<Longrightarrow> moveEntity dt w h e = e"
  by (auto simp: moveEntity_def Let_def split: option.split prod.split EntityType.split)

text \<open>A vector of two numbers.\<close>

definition finite_vec :: "Vector2D \<Rightarrow> bool" where
  "finite_vec v \<longleftrightarrow> isfinite (vx v) \<and> isfinite (vy v)"

text \<open>Whether the centre of the entity is in the world rectangle, enlarged by a margin.\<close>

definition in_world :: "scalar \<Rightarrow> scalar \<Rightarrow> scalar \<Rightarrow> Entity \<Rightarrow> bool" where
  "in_world margin w h e \<longleftrightarrow> (case e_transform e of None \<Rightarrow> True
     | Some t \<Rightarrow> fabs (vx (t_position t)) \<le> w * Fin (1 / 2) + margin
         \<and> fabs (vy (t_position t)) \<le> h * Fin (1 / 2) + margin)"

text \<open>Clamping by at most \<open>kEps\<close> counts as no clamping, which is the case exactly in the
  closed world; either way the coordinate that results is in the world.\<close>

lemma clamp_eps_axis:
  assumes "2 / 10 ^ 12 \<le> (w :: real)" "t = w / 2 - 1 / 10 ^ 12"
  shows "\<bar>max (- t) (min t x)\<bar> \<le> w / 2"
    and "1 / 10 ^ 12 < \<bar>max (- t) (min t x) - x\<bar> \<longleftrightarrow> w / 2 < \<bar>x\<bar>"
proof -
  have t: "0 \<le> t" "t < w / 2" "w / 2 = t + 1 / 10 ^ 12" using assms by simp_all
  show "\<bar>max (- t) (min t x)\<bar> \<le> w / 2" using clamp_axis(1) [OF t(1,2), of x] by linarith
  show "1 / 10 ^ 12 < \<bar>max (- t) (min t x) - x\<bar> \<longleftrightarrow> w / 2 < \<bar>x\<bar>"
    using t(1) unfolding t(3) by (auto simp: max_def min_def abs_if not_less split: if_splits)
qed

text \<open>C34.  What the edges of the world do to an entity that moves.  Whenever the position that the motion
  gives is a pair of numbers (it is not if the motion overflows), a ship ends in the world rectangle
  and a hit of a wall takes only the component of its velocity normal to that wall; a bullet is marked
  destroyed exactly when it has left the rectangle; an asteroid goes on with its velocity and stays
  within its radius of the rectangle.\<close>

theorem moveEntity_in_world:
  assumes "e_transform e = Some t" "\<not> e_isDestroyed e" "e_type e \<noteq> EtNone" "integrateMotion dt e t = (fvec x y, v)"
    "e_radius e = Fin r" "0 \<le> r" "2 / 10 ^ 12 \<le> w" "2 / 10 ^ 12 \<le> h"
  shows "\<exists>t'. e_transform (moveEntity dt (Fin w) (Fin h) e) = Some t' \<and> t_angle t' = t_angle t
    \<and> (case e_type e of
         EtAsteroid \<Rightarrow> in_world (e_radius e) (Fin w) (Fin h) (moveEntity dt (Fin w) (Fin h) e) \<and> t_velocity t' = v
           \<and> \<not> e_isDestroyed (moveEntity dt (Fin w) (Fin h) e)
       | EtBullet \<Rightarrow> t_position t' = fvec x y \<and> t_velocity t' = v
           \<and> (e_isDestroyed (moveEntity dt (Fin w) (Fin h) e) \<longleftrightarrow> w / 2 < \<bar>x\<bar> \<or> h / 2 < \<bar>y\<bar>)
       | _ \<Rightarrow> in_world (Fin 0) (Fin w) (Fin h) (moveEntity dt (Fin w) (Fin h) e)
           \<and> t_velocity t' = mkvec (if w / 2 < \<bar>x\<bar> then Fin 0 else vx v) (if h / 2 < \<bar>y\<bar> then Fin 0 else vy v)
           \<and> \<not> e_isDestroyed (moveEntity dt (Fin w) (Fin h) e))"
proof (cases "e_type e = EtAsteroid")
  case True
  have ax: "\<bar>if z + r < - (b / 2) then b / 2 + r else if b / 2 < z - r then - (b / 2) - r else z\<bar> \<le> b / 2 + r"
    if "2 / 10 ^ 12 \<le> b" for z b using that assms(6) by auto
  from True show ?thesis
    using assms(1-6) ax [OF assms(7), of x] ax [OF assms(8), of y]
    by (simp add: moveEntity_def wrapCircle_fvec in_world_def)
next
  case False
  define tx ty where "tx = w / 2 - 1 / 10 ^ 12" and "ty = h / 2 - 1 / 10 ^ 12"
  define cx cy where "cx = max (- tx) (min tx x)" and "cy = max (- ty) (min ty y)"
  note X = clamp_eps_axis [OF assms(7) tx_def, of x, folded cx_def]
    and Y = clamp_eps_axis [OF assms(8) ty_def, of y, folded cy_def]
  have c: "clampToWorldBounds (fvec x y) (Fin w) (Fin h) = fvec cx cy"
    using clampToWorldBounds_fvec [OF assms(7,8)] by (simp add: cx_def cy_def tx_def ty_def)
  show ?thesis
    using False assms(1-4) X Y
    by (cases "e_type e"; cases "w / 2 < \<bar>x\<bar>"; cases "h / 2 < \<bar>y\<bar>")
      (simp_all add: moveEntity_def c kEps_def in_world_def)
qed

text \<open>A ship that runs into the right wall slides along it.\<close>

theorem moveEntity_in_world_witness:
  "\<exists>t'. e_transform (moveEntity (Fin 1) (Fin 2000) (Fin 2000)
      (sample_ship\<lparr>e_transform := Some \<lparr>t_position = fvec 990 0, t_velocity = fvec 500 7, t_angle = Fin 0\<rparr>\<rparr>)) = Some t'
   \<and> t_velocity t' = fvec 0 7"
proof -
  let ?t = "\<lparr>t_position = fvec 990 0, t_velocity = fvec 500 7, t_angle = Fin 0\<rparr>"
  let ?e = "sample_ship\<lparr>e_transform := Some ?t\<rparr>"
  have e: "e_transform ?e = Some ?t" "\<not> e_isDestroyed ?e" "e_type ?e = EtShip" "e_radius ?e = Fin 5" "e_ship ?e = None"
    by (simp_all add: sample_ship_def Entity_default_def)
  have m: "integrateMotion (Fin 1) ?e ?t = (fvec 1490 7, fvec 500 7)" by (simp add: integrateMotion_def e(5))
  from moveEntity_in_world [OF e(1,2) _ m e(4), of 2000 2000] e(3) show ?thesis by auto
qed

section \<open>The whole pool\<close>

text \<open>A change of entities that keeps their identifiers keeps the pool consistent.\<close>

lemma map_slots_inv [inv_intros]:
  assumes "pool_inv p" "\<And>e. e_id (f e) = e_id e"
  shows "pool_inv (p\<lparr>p_storage := map (map_option f) (p_storage p)\<rparr>)"
proof -
  note inv = assms(1) [unfolded pool_inv_alt]
  have "free_ok (map (map_option f) (p_storage p)) (p_free p)"
    using inv by (auto simp: free_ok_def)
  moreover have "index_ok (map (map_option f) (p_storage p)) (p_index p)"
    using inv assms(2) by (auto simp: index_ok_def)
  moreover have "e_id d < p_next_id p" if "Some d \<in> set (map (map_option f) (p_storage p))" for d
  proof -
    from that obtain s where s: "s \<in> set (p_storage p)" "Some d = map_option f s" by auto
    from s(2) obtain e where "s = Some e" "d = f e" by (cases s) simp_all
    with s inv assms(2) show ?thesis by auto
  qed
  ultimately show ?thesis by (simp add: pool_inv_alt)
qed

definition move_pool :: "scalar \<Rightarrow> scalar \<Rightarrow> scalar \<Rightarrow> EntityPool \<Rightarrow> EntityPool" where
  "move_pool dt w h p = p\<lparr>p_storage := updateMovementAndBounds (p_storage p) dt w h\<rparr>"

lemma move_pool_inv [inv_intros]: "pool_inv p \<Longrightarrow> pool_inv (move_pool dt w h p)"
  by (simp add: move_pool_def updateMovementAndBounds_def map_slots_inv moveEntity_frame)

end
