(* ===== verification/CollisionUtils.thy ===== *)
theory CollisionUtils
  imports EntityUtils
begin

text \<open>
  src/src/server/collision_utils.h: what a collision of two entities does to them.  The
  functions return both entities updated; the callback of \<open>onCollisionBulletShip\<close>
  is the reported hit (owner of the bullet, whether the ship was destroyed), if any.
\<close>

section \<open>Ship and asteroid\<close>

text \<open>The two helpers have empty bodies in the source.\<close>

definition applyPercentageDamage :: "Entity \<Rightarrow> u16 \<Rightarrow> Entity" where
  "applyPercentageDamage e percent = e"

definition repelAsteroid :: "Entity \<Rightarrow> Entity \<Rightarrow> Entity \<times> Entity" where
  "repelAsteroid ship asteroid = (ship, asteroid)"

text \<open>The body for arguments in the expected order.\<close>

definition shipAsteroid ::
  "'s growth \<Rightarrow> Entity \<Rightarrow> Entity \<Rightarrow> 's \<Rightarrow> Entity \<times> Entity \<times> 's" where
  "shipAsteroid can_grow ship asteroid s =
     (if e_type ship \<noteq> EtShip \<or> e_type asteroid \<noteq> EtAsteroid then (ship, asteroid, s)
      else if \<not> isValid ship \<or> \<not> isValid asteroid then (ship, asteroid, s)
      else if \<not> isDamageable ship \<or> \<not> isDamageable asteroid then (ship, asteroid, s)
      else if e_mass ship \<le> Fin 0 \<or> e_mass asteroid \<le> Fin 0 then (ship, asteroid, s)
      else
        let mass_ratio = e_mass asteroid / e_mass ship
        in if mass_ratio \<le> Fin (1 / 5)
           then let (ship', asteroid') = repelAsteroid ship asteroid in (ship', asteroid', s)
           else if mass_ratio < Fin (1 / 2) then
             let (grown, ship', s') = addMass can_grow (e_mass asteroid) s ship
             in if grown
                then (case (e_ship ship', e_asteroid asteroid) of
                    (Some sc, Some ac) \<Rightarrow>
                      (ship'\<lparr>e_ship := Some (addScore sc (ucast (as_score_reward ac)))\<rparr>,
                       asteroid\<lparr>e_isDestroyed := True\<rparr>, s')
                  | _ \<Rightarrow> (ship', asteroid\<lparr>e_isDestroyed := True\<rparr>, s'))
                else (ship', asteroid, s')
           else if mass_ratio \<le> Fin 1
             then (applyPercentageDamage ship 25, applyPercentageDamage asteroid 25, s)
           else (applyPercentageDamage ship 50, asteroid, s))"

definition onCollisionShipAsteroid ::
  "'s growth \<Rightarrow> Entity \<Rightarrow> Entity \<Rightarrow> 's \<Rightarrow> Entity \<times> Entity \<times> 's" where
  "onCollisionShipAsteroid can_grow ship asteroid s =
     (if e_type ship = EtAsteroid \<and> e_type asteroid = EtShip
      then let (ship', asteroid', s') = shipAsteroid can_grow asteroid ship s in (asteroid', ship', s')
      else shipAsteroid can_grow ship asteroid s)"

text \<open>The overload without a growth predicate.\<close>

definition onCollisionShipAsteroid_unchecked :: "Entity \<Rightarrow> Entity \<Rightarrow> Entity \<times> Entity" where
  "onCollisionShipAsteroid_unchecked ship asteroid =
     (let (ship', asteroid', _) = onCollisionShipAsteroid always_grow ship asteroid () in (ship', asteroid'))"

section \<open>Ship and ship\<close>

definition addFrag :: "ShipComponent \<Rightarrow> ShipComponent" where
  "addFrag sc = (if sh_frags sc < 0xFFFF then sc\<lparr>sh_frags := sh_frags sc + 1\<rparr> else sc)"

text \<open>The damage of the first and of the second ship.\<close>

definition shipShipDamage :: "Entity \<Rightarrow> Entity \<Rightarrow> u16 \<times> u16" where
  "shipShipDamage ship1 ship2 =
     (if e_mass ship1 < e_mass ship2 then (10, 5)
      else if e_mass ship2 < e_mass ship1 then (5, 10)
      else (7, 7))"

text \<open>The part of the function after its checks, where all components are present.\<close>

definition shipShipHit ::
  "Entity \<Rightarrow> ShipComponent \<Rightarrow> HealthComponent \<Rightarrow> Entity \<Rightarrow> ShipComponent \<Rightarrow> HealthComponent
     \<Rightarrow> Entity \<times> Entity" where
  "shipShipHit ship1 sc1 h1 ship2 sc2 h2 =
     (let sc1 = subtractScore sc1 5;
          sc2 = subtractScore sc2 5;
          h1 = applyDamage h1 (fst (shipShipDamage ship1 ship2));
          h2 = applyDamage h2 (snd (shipShipDamage ship1 ship2));
          dead1 = (\<not> isAlive h1 \<or> e_isDestroyed ship1);
          dead2 = (\<not> isAlive h2 \<or> e_isDestroyed ship2)
      in (ship1\<lparr>e_ship := Some (if dead2 \<and> \<not> dead1 then addFrag (addScore sc1 30) else sc1),
                e_health := Some h1, e_isDestroyed := dead1\<rparr>,
          ship2\<lparr>e_ship := Some (if dead1 \<and> \<not> dead2 then addFrag (addScore sc2 30) else sc2),
                e_health := Some h2, e_isDestroyed := dead2\<rparr>))"

definition onCollisionShipShip :: "Entity \<Rightarrow> Entity \<Rightarrow> Entity \<times> Entity" where
  "onCollisionShipShip ship1 ship2 =
     (if e_type ship1 \<noteq> EtShip \<or> e_type ship2 \<noteq> EtShip then (ship1, ship2)
      else if \<not> isValid ship1 \<or> \<not> isValid ship2 then (ship1, ship2)
      else if \<not> isDamageable ship1 \<or> \<not> isDamageable ship2 then (ship1, ship2)
      else case (e_ship ship1, e_ship ship2, e_health ship1, e_health ship2) of
        (Some sc1, Some sc2, Some h1, Some h2) \<Rightarrow> shipShipHit ship1 sc1 h1 ship2 sc2 h2
      | _ \<Rightarrow> (ship1, ship2))"

section \<open>Bullet and ship\<close>

definition bulletHit ::
  "Entity \<Rightarrow> CombatComponent \<Rightarrow> Entity \<Rightarrow> HealthComponent \<Rightarrow> Entity \<times> Entity \<times> (EntityId \<times> bool) option" where
  "bulletHit bullet combat ship health =
     (if co_owner_id combat = e_id ship then (bullet, ship, None)
      else
        let health = applyDamage health 25;
            ship_destroyed = (\<not> isAlive health)
        in (bullet\<lparr>e_isDestroyed := True\<rparr>,
            ship\<lparr>e_health := Some health, e_isDestroyed := (ship_destroyed \<or> e_isDestroyed ship)\<rparr>,
            Some (co_owner_id combat, ship_destroyed)))"

definition bulletShip :: "Entity \<Rightarrow> Entity \<Rightarrow> Entity \<times> Entity \<times> (EntityId \<times> bool) option" where
  "bulletShip bullet ship =
     (if e_type bullet \<noteq> EtBullet \<or> e_type ship \<noteq> EtShip then (bullet, ship, None)
      else if \<not> isValid bullet \<or> \<not> isValid ship then (bullet, ship, None)
      else if \<not> isDamageable ship then (bullet, ship, None)
      else case (e_combat bullet, e_health ship, e_ship ship) of
        (Some combat, Some health, Some _) \<Rightarrow> bulletHit bullet combat ship health
      | _ \<Rightarrow> (bullet, ship, None))"

definition onCollisionBulletShip :: "Entity \<Rightarrow> Entity \<Rightarrow> Entity \<times> Entity \<times> (EntityId \<times> bool) option" where
  "onCollisionBulletShip bullet ship =
     (if e_type bullet = EtShip \<and> e_type ship = EtBullet
      then let (bullet', ship', hit) = bulletShip ship bullet in (ship', bullet', hit)
      else bulletShip bullet ship)"

section \<open>What collisions keep\<close>

text \<open>Mass and radius are finite and not negative.\<close>

definition entity_ok :: "Entity \<Rightarrow> bool" where
  "entity_ok e \<longleftrightarrow> isfinite (e_mass e) \<and> Fin 0 \<le> e_mass e \<and> isfinite (e_radius e) \<and> Fin 0 \<le> e_radius e"

text \<open>What every step keeps of an entity: identifier and type, which components it has, that
  mass and radius are proper numbers; and no destroyed entity comes back.\<close>

definition evolves :: "Entity \<Rightarrow> Entity \<Rightarrow> bool" where
  "evolves e e' \<longleftrightarrow> e_id e' = e_id e \<and> e_type e' = e_type e \<and> (e_isDestroyed e \<longrightarrow> e_isDestroyed e')
     \<and> (e_transform e' = None \<longleftrightarrow> e_transform e = None) \<and> (e_ship e' = None \<longleftrightarrow> e_ship e = None)
     \<and> (e_health e' = None \<longleftrightarrow> e_health e = None) \<and> (entity_ok e \<longrightarrow> entity_ok e')"

lemma evolves_refl [simp]: "evolves e e"
  by (simp add: evolves_def)

lemma evolves_trans: "evolves a b \<Longrightarrow> evolves b c \<Longrightarrow> evolves a c"
  by (auto simp: evolves_def)

lemma addMass_mass:
  assumes "addMass g a s e = (ok, e', s')"
  shows "e_mass e' = e_mass e \<or> e_mass e' = e_mass e + a \<and> isfinite a \<and> Fin 0 \<le> a \<and> isfinite (e_mass e + a)"
  using assms by (cases a) (auto simp: addMass_def Let_def split: if_splits prod.splits)

lemma addMass_evolves:
  assumes "addMass g a s e = (ok, e', s')"
  shows "evolves e e'"
proof -
  have "entity_ok e'" if "entity_ok e"
    using that addMass_radius(1,2) [OF assms] addMass_mass [OF assms]
    by (auto simp: entity_ok_def isfinite_iff)
  moreover have "(e_transform e' = None) = (e_transform e = None)"
  proof (cases "isfinite (e_radius e) \<and> Fin 0 \<le> e_radius e")
    case False
    then have "e' = e" using assms by (cases "e_radius e") (auto simp: addMass_def split: if_splits)
    then show ?thesis by simp
  qed (use addMass_radius(3) [OF assms] in simp)
  ultimately show ?thesis using addMass_frame [OF assms] by (simp add: evolves_def)
qed

lemma shipAsteroid_frame:
  assumes "shipAsteroid g a b s = (a', b', s')"
  shows "evolves a a' \<and> evolves b b'"
proof -
  obtain ok e' t where m: "addMass g (e_mass b) s a = (ok, e', t)" using prod_cases3 by blast
  have destroy: "evolves b (b\<lparr>e_isDestroyed := True\<rparr>)" by (simp add: evolves_def entity_ok_def)
  have score: "evolves a (e'\<lparr>e_ship := Some sc\<rparr>)" if "e_ship e' = Some sc'" for sc sc'
    using addMass_evolves [OF m] that by (auto simp: evolves_def entity_ok_def)
  have "a' = a \<or> a' = e' \<or> (\<exists>sc sc'. a' = e'\<lparr>e_ship := Some sc\<rparr> \<and> e_ship e' = Some sc')"
    "b' = b \<or> b' = b\<lparr>e_isDestroyed := True\<rparr>"
    using assms by (auto simp: shipAsteroid_def repelAsteroid_def applyPercentageDamage_def Let_def m
        split: if_splits option.splits)
  with destroy score addMass_evolves [OF m] show ?thesis by auto
qed

lemma onCollisionShipAsteroid_frame:
  assumes "onCollisionShipAsteroid g a b s = (a', b', s')"
  shows "evolves a a' \<and> evolves b b'"
proof (cases "e_type a = EtAsteroid \<and> e_type b = EtShip")
  case True
  with assms have "shipAsteroid g b a s = (b', a', s')"
    by (simp add: onCollisionShipAsteroid_def split: prod.splits)
  then show ?thesis using shipAsteroid_frame by metis
next
  case False
  with assms have "shipAsteroid g a b s = (a', b', s')" by (auto simp: onCollisionShipAsteroid_def)
  then show ?thesis using shipAsteroid_frame by metis
qed

lemma onCollisionShipShip_frame:
  assumes "onCollisionShipShip a b = (a', b')"
  shows "evolves a a' \<and> evolves b b'"
proof -
  have "a' = a \<and> b' = b \<or> (\<exists>sc1 sc2 h1 h2. shipShipHit a sc1 h1 b sc2 h2 = (a', b')
      \<and> e_ship a = Some sc1 \<and> e_ship b = Some sc2 \<and> e_health a = Some h1 \<and> e_health b = Some h2)"
    using assms unfolding onCollisionShipShip_def by (auto split: if_splits option.splits)
  then show ?thesis by (auto simp: shipShipHit_def Let_def evolves_def entity_ok_def)
qed

lemma bulletShip_frame:
  assumes "bulletShip a b = (a', b', hit)"
  shows "evolves a a' \<and> evolves b b'"
proof -
  have "a' = a \<and> b' = b \<or> (\<exists>c h. bulletHit a c b h = (a', b', hit) \<and> e_health b = Some h)"
    using assms unfolding bulletShip_def by (auto split: if_splits option.splits)
  then show ?thesis by (auto simp: bulletHit_def Let_def evolves_def entity_ok_def split: if_splits)
qed

lemma onCollisionBulletShip_frame:
  assumes "onCollisionBulletShip a b = (a', b', hit)"
  shows "evolves a a' \<and> evolves b b'"
proof (cases "e_type a = EtShip \<and> e_type b = EtBullet")
  case True
  with assms have "bulletShip b a = (b', a', hit)"
    by (simp add: onCollisionBulletShip_def split: prod.splits)
  then show ?thesis using bulletShip_frame by blast
next
  case False
  with assms have "bulletShip a b = (a', b', hit)" by (auto simp: onCollisionBulletShip_def)
  then show ?thesis by (rule bulletShip_frame)
qed

section \<open>What collisions do\<close>

lemma grow_loop_always_transform:
  assumes "grow_loop can_grow mass (Fin r) tr s = (ok, radius, tr', s')" "0 < r"
    "\<And>s p q. can_grow s p q = (True, p, s)"
  shows "tr' = tr \<and> s' = s"
  using assms
proof (induction can_grow mass "Fin r" tr s arbitrary: r rule: grow_loop.induct)
  case (1 can_grow mass tr s)
  let ?go = "r \<le> dbl_max / 2 \<and> isfinite (massForRadius (Fin (r * 2)))
      \<and> \<not> mass < massForRadius (Fin (r * 2))"
  show ?case
  proof (cases "?go \<and> tr \<noteq> None")
    case True
    then obtain t where t: "tr = Some t" by auto
    have g: "can_grow s (t_position t) (Fin (r * 2)) = (True, t_position t, s)" by (rule "1.prems"(3))
    have "grow_loop can_grow mass (Fin r) tr s
        = grow_loop can_grow mass (Fin (r * 2)) (Some (t\<lparr>t_position := t_position t\<rparr>)) s"
      using "1.prems"(2) True t g by (subst grow_loop_eq) (simp_all add: Let_def)
    then have gl: "grow_loop can_grow mass (Fin (r * 2)) (Some (t\<lparr>t_position := t_position t\<rparr>)) s = (ok, radius, tr', s')"
      using "1.prems"(1) by simp
    then have "tr' = Some (t\<lparr>t_position := t_position t\<rparr>) \<and> s' = s"
      using "1.hyps" [OF _ _ refl _ t g [symmetric] refl refl refl _ gl] True "1.prems"(2,3) by simp
    then show ?thesis using t by simp
  next
    case False
    with "1.prems"(1,2) show ?thesis
      by (auto simp: grow_loop_eq Let_def split: if_splits option.splits)
  qed
qed

text \<open>Only the mass ratio decides a ship-asteroid collision of valid, damageable entities
  of positive mass: up to a fifth, and from a half upwards, nothing changes; in between the
  asteroid is absorbed: the ship's mass grows by the asteroid's, its radius does not shrink,
  its score grows by the asteroid's reward, and the asteroid is destroyed.\<close>

theorem shipAsteroid_by_mass_ratio:
  assumes "isValid ship" "isValid ast" "isDamageable ship" "isDamageable ast"
    "e_type ship = EtShip" "e_type ast = EtAsteroid" "e_mass ship = Fin m" "e_mass ast = Fin a"
    "0 < m" "0 < a" "e_radius ship = Fin r" "0 < r" "e_ship ship = Some sc" "e_asteroid ast = Some ac"
  shows "\<exists>r'\<ge>r. onCollisionShipAsteroid_unchecked ship ast =
     (if 1 / 5 < a / m \<and> a / m < 1 / 2
      then (ship\<lparr>e_mass := Fin (m + a), e_radius := Fin r',
                 e_ship := Some (addScore sc (ucast (as_score_reward ac)))\<rparr>,
            ast\<lparr>e_isDestroyed := True\<rparr>)
      else (ship, ast))"
proof -
  obtain t where t: "e_transform ship = Some t" using assms(1) by (auto simp: isValid_def)
  obtain ok q tr' s' where gl: "grow_loop always_grow (Fin (m + a)) (Fin r) (Some t) () = (ok, q, tr', s')"
    using prod_cases4 by blast
  then obtain k where "grow_loop always_grow (Fin (m + a)) (Fin r) (Some t) () = (True, Fin (r * 2 ^ k), Some t, ())"
    using grow_loop_shape [OF gl assms(12)] grow_loop_always_transform [OF gl assms(12)]
    by (auto simp: always_grow_def)
  then have "addMass always_grow (Fin a) () ship
      = (True, ship\<lparr>e_mass := Fin (m + a), e_radius := Fin (r * 2 ^ k), e_transform := Some t\<rparr>, ())"
    using assms t by (simp add: addMass_def Let_def)
  moreover have "r \<le> r * 2 ^ k" using assms(12) by simp
  moreover have "ship\<lparr>e_mass := Fin (m + a), e_radius := Fin (r * 2 ^ k), e_transform := Some t,
        e_ship := Some (addScore sc (ucast (as_score_reward ac)))\<rparr>
      = ship\<lparr>e_mass := Fin (m + a), e_radius := Fin (r * 2 ^ k),
        e_ship := Some (addScore sc (ucast (as_score_reward ac)))\<rparr>"
    using t by (cases ship) simp
  ultimately show ?thesis
    using assms by (intro exI [of _ "r * 2 ^ k"]) (simp add: onCollisionShipAsteroid_unchecked_def
        onCollisionShipAsteroid_def shipAsteroid_def repelAsteroid_def applyPercentageDamage_def Let_def)
qed

lemma scalar_less_asym: "(x :: scalar) < y \<Longrightarrow> \<not> y < x"
  by (cases x; cases y) simp_all

lemma unat_applyDamage: "unat (h_current (applyDamage h d)) = unat (h_current h) - unat d"
  by (auto simp: applyDamage_def word_le_nat_alt unat_sub_if')

lemma isAlive_applyDamage: "isAlive (applyDamage h d) \<longleftrightarrow> d < h_current h"
  using unat_applyDamage [of h d] by (simp add: isAlive_def word_less_nat_alt)

text \<open>The outcome of a ship-ship collision does not depend on the order of the two
  ships.\<close>

theorem shipShip_symmetric:
  "onCollisionShipShip b a = (snd (onCollisionShipShip a b), fst (onCollisionShipShip a b))"
proof -
  have d: "shipShipDamage b a = (snd (shipShipDamage a b), fst (shipShipDamage a b))"
    by (auto simp: shipShipDamage_def dest: scalar_less_asym)
  have "shipShipHit b sb hb a sa ha = (snd (shipShipHit a sa ha b sb hb), fst (shipShipHit a sa ha b sb hb))"
    for sa sb ha hb by (simp add: shipShipHit_def d Let_def)
  then show ?thesis by (auto simp: onCollisionShipShip_def split: option.split)
qed

text \<open>What a collision does to the score and the frags of a ship, which saturate: 5 points less, then for a
  sole survivor 30 points and a frag more.\<close>

definition collision_score :: "bool \<Rightarrow> ShipComponent \<Rightarrow> ShipComponent \<Rightarrow> bool" where
  "collision_score survivor sc sc' \<longleftrightarrow>
     unat (sh_score sc') = (if survivor then min (2 ^ 32 - 1) (unat (sh_score sc) - 5 + 30) else unat (sh_score sc) - 5)
     \<and> unat (sh_frags sc') = (if survivor then min (2 ^ 16 - 1) (unat (sh_frags sc) + 1) else unat (sh_frags sc))
     \<and> sc'\<lparr>sh_score := sh_score sc, sh_frags := sh_frags sc\<rparr> = sc"

lemma unat_subtractScore: "unat (sh_score (subtractScore sc p)) = unat (sh_score sc) - unat p"
  by (auto simp: subtractScore_def word_le_nat_alt unat_sub)

lemma unat_addScore: "unat (sh_score (addScore sc p)) = min (2 ^ 32 - 1) (unat (sh_score sc) + unat p)"
proof -
  have b: "unat (sh_score sc) < 2 ^ 32" using unsigned_less [of "sh_score sc"] by simp
  then have "sh_score sc \<le> 0xFFFFFFFF" by (simp add: word_le_nat_alt)
  from unat_sub [OF this] have "unat (0xFFFFFFFF - sh_score sc) = 2 ^ 32 - 1 - unat (sh_score sc)" by simp
  with b show ?thesis
    by (auto simp: addScore_def Let_def word_less_nat_alt not_less unat_word_ariths(1) min_def)
qed

lemma unat_addFrag: "unat (sh_frags (addFrag sc)) = min (2 ^ 16 - 1) (unat (sh_frags sc) + 1)"
proof -
  have "unat (sh_frags sc) < 2 ^ 16" using unsigned_less [of "sh_frags sc"] by simp
  then show ?thesis by (auto simp: addFrag_def word_less_nat_alt not_less unat_word_ariths(1) min_def)
qed

lemma collision_scoreI:
  "collision_score survivor sc (if survivor then addFrag (addScore (subtractScore sc 5) 30) else subtractScore sc 5)"
proof -
  have "sh_score (addFrag x) = sh_score x" "(addFrag x)\<lparr>sh_score := s, sh_frags := f\<rparr> = x\<lparr>sh_score := s, sh_frags := f\<rparr>"
    "(addScore x p)\<lparr>sh_score := s, sh_frags := f\<rparr> = x\<lparr>sh_score := s, sh_frags := f\<rparr>"
    "(subtractScore x p)\<lparr>sh_score := s, sh_frags := f\<rparr> = x\<lparr>sh_score := s, sh_frags := f\<rparr>"
    "sh_frags (subtractScore x p) = sh_frags x" for x :: ShipComponent and p s f
    by (simp_all add: addFrag_def addScore_def subtractScore_def Let_def)
  then show ?thesis by (simp add: collision_score_def unat_addFrag unat_addScore unat_subtractScore)
qed

text \<open>C35.  In a collision of two ships that can be damaged, the lighter takes 10 damage, the
  heavier 5, ships of equal mass 7 each; both lose 5 points, down to zero; either is destroyed exactly when
  its health reaches zero, and exactly a sole survivor gets 30 points and a frag.  Nothing else of
  the two changes.\<close>

theorem shipShip_outcome:
  assumes "isValid a" "isValid b" "isDamageable a" "isDamageable b" "e_type a = EtShip" "e_type b = EtShip"
    "e_ship a = Some sa" "e_ship b = Some sb" "e_health a = Some ha" "e_health b = Some hb"
  shows "\<exists>sa' ha' sb' hb'. onCollisionShipShip a b =
      (a\<lparr>e_ship := Some sa', e_health := Some ha', e_isDestroyed := (h_current ha' = 0)\<rparr>,
       b\<lparr>e_ship := Some sb', e_health := Some hb', e_isDestroyed := (h_current hb' = 0)\<rparr>)
    \<and> unat (h_current ha') = unat (h_current ha)
        - (if e_mass a < e_mass b then 10 else if e_mass b < e_mass a then 5 else 7)
    \<and> unat (h_current hb') = unat (h_current hb)
        - (if e_mass b < e_mass a then 10 else if e_mass a < e_mass b then 5 else 7)
    \<and> h_max ha' = h_max ha \<and> h_max hb' = h_max hb
    \<and> collision_score (h_current ha' \<noteq> 0 \<and> h_current hb' = 0) sa sa'
    \<and> collision_score (h_current hb' \<noteq> 0 \<and> h_current ha' = 0) sb sb'"
proof -
  let ?d = "shipShipDamage a b"
  define ha' hb' where "ha' = applyDamage ha (fst ?d)" and "hb' = applyDamage hb (snd ?d)"
  have dmg: "unat (fst ?d) = (if e_mass a < e_mass b then 10 else if e_mass b < e_mass a then 5 else 7)"
    "unat (snd ?d) = (if e_mass b < e_mass a then 10 else if e_mass a < e_mass b then 5 else 7)"
    by (auto simp: shipShipDamage_def dest: scalar_less_asym)
  have alive: "isAlive h \<longleftrightarrow> h_current h \<noteq> 0" for h by (simp add: isAlive_def word_neq_0_conv)
  let ?sa = "if h_current ha' \<noteq> 0 \<and> h_current hb' = 0 then addFrag (addScore (subtractScore sa 5) 30) else subtractScore sa 5"
  let ?sb = "if h_current hb' \<noteq> 0 \<and> h_current ha' = 0 then addFrag (addScore (subtractScore sb 5) 30) else subtractScore sb 5"
  have "\<not> e_isDestroyed a" "\<not> e_isDestroyed b" using assms(1,2) by (simp_all add: isValid_def)
  then have res: "onCollisionShipShip a b =
      (a\<lparr>e_ship := Some ?sa, e_health := Some ha', e_isDestroyed := (h_current ha' = 0)\<rparr>,
       b\<lparr>e_ship := Some ?sb, e_health := Some hb', e_isDestroyed := (h_current hb' = 0)\<rparr>)"
    using assms by (simp add: onCollisionShipShip_def shipShipHit_def ha'_def hb'_def Let_def alive conj_commute)
  have "unat (h_current ha') = unat (h_current ha) - unat (fst ?d)" "unat (h_current hb') = unat (h_current hb) - unat (snd ?d)"
    by (simp_all add: ha'_def hb'_def unat_applyDamage)
  moreover have "h_max ha' = h_max ha" "h_max hb' = h_max hb" by (simp_all add: ha'_def hb'_def applyDamage_def)
  ultimately show ?thesis using res unfolding dmg [symmetric]
    by (intro exI [of _ ?sa] exI [of _ ha'] exI [of _ ?sb] exI [of _ hb'] conjI collision_scoreI) simp_all
qed

text \<open>A bullet that hits another player's ship is used up, costs the ship 25 health and
  destroys it exactly when no health is left; the report names the bullet's owner and that
  outcome.  A bullet passes through the ship that fired it.  The order of the two arguments
  does not matter.\<close>

theorem bulletShip_outcome:
  assumes "isValid b" "isValid s" "e_type b = EtBullet" "e_type s = EtShip" "e_combat b = Some c"
    "e_health s = Some h" "e_ship s = Some sc" "isDamageable s"
  shows "onCollisionBulletShip b s =
      (if co_owner_id c = e_id s then (b, s, None)
       else (b\<lparr>e_isDestroyed := True\<rparr>,
             s\<lparr>e_health := Some (h\<lparr>h_current := of_nat (unat (h_current h) - 25)\<rparr>),
               e_isDestroyed := (unat (h_current h) \<le> 25)\<rparr>,
             Some (co_owner_id c, unat (h_current h) \<le> 25)))
    \<and> onCollisionBulletShip s b = (let (b', s', hit) = onCollisionBulletShip b s in (s', b', hit))"
proof -
  have "applyDamage h 25 = h\<lparr>h_current := of_nat (unat (h_current h) - 25)\<rparr>"
    using unat_applyDamage [of h 25] by (cases h) (auto simp: applyDamage_def word_le_nat_alt of_nat_diff)
  moreover have "isAlive (applyDamage h 25) \<longleftrightarrow> 25 < unat (h_current h)"
    by (simp add: isAlive_applyDamage word_less_nat_alt)
  moreover have "\<not> e_isDestroyed s" using assms(2) by (simp add: isValid_def)
  ultimately show ?thesis
    using assms by (auto simp: onCollisionBulletShip_def bulletShip_def bulletHit_def Let_def not_less)
qed

section \<open>Witnesses\<close>

definition sample_fighter :: Entity where
  "sample_fighter = sample_ship\<lparr>e_ship := Some ShipComponent_default, e_health := Some HealthComponent_default\<rparr>"

definition sample_asteroid :: Entity where
  "sample_asteroid = Entity_default\<lparr>e_id := 7, e_type := EtAsteroid, e_mass := Fin 20, e_radius := Fin 10,
     e_transform := Some TransformComponent_default, e_health := Some HealthComponent_default,
     e_asteroid := Some \<lparr>as_score_reward = 20\<rparr>\<rparr>"

definition sample_bullet :: Entity where
  "sample_bullet = Entity_default\<lparr>e_id := 8, e_type := EtBullet, e_mass := Fin 0, e_radius := Fin 2,
     e_transform := Some TransformComponent_default, e_combat := Some \<lparr>co_damage = 25, co_owner_id = 9\<rparr>\<rparr>"

lemmas sample_entities = sample_fighter_def sample_asteroid_def sample_bullet_def sample_ship_def
  Entity_default_def HealthComponent_default_def isValid_def isDamageable_def

theorem shipAsteroid_by_mass_ratio_witness:
  "\<exists>r'\<ge>5. onCollisionShipAsteroid_unchecked sample_fighter sample_asteroid =
     (if 1 / 5 < (20::real) / 80 \<and> (20::real) / 80 < 1 / 2
      then (sample_fighter\<lparr>e_mass := Fin (80 + 20), e_radius := Fin r',
                 e_ship := Some (addScore ShipComponent_default (ucast (as_score_reward \<lparr>as_score_reward = 20\<rparr>)))\<rparr>,
            sample_asteroid\<lparr>e_isDestroyed := True\<rparr>)
      else (sample_fighter, sample_asteroid))"
  by (rule shipAsteroid_by_mass_ratio) (simp_all add: sample_entities)

text \<open>A light fighter with 8 health meets a heavy one.\<close>

theorem shipShip_outcome_witness:
  "\<exists>a' b' sb'. onCollisionShipShip (sample_fighter\<lparr>e_mass := Fin 50, e_health := Some \<lparr>h_current = 8, h_max = 100\<rparr>\<rparr>) sample_fighter
      = (a', b') \<and> e_isDestroyed a' \<and> \<not> e_isDestroyed b' \<and> e_health b' = Some \<lparr>h_current = 95, h_max = 100\<rparr>
    \<and> e_ship b' = Some sb' \<and> unat (sh_score sb') = 30 \<and> unat (sh_frags sb') = 1"
proof -
  let ?a = "sample_fighter\<lparr>e_mass := Fin 50, e_health := Some \<lparr>h_current = 8, h_max = 100\<rparr>\<rparr>"
  from shipShip_outcome [of ?a sample_fighter ShipComponent_default ShipComponent_default "\<lparr>h_current = 8, h_max = 100\<rparr>"
      HealthComponent_default]
  obtain sa' ha' sb' hb' where o: "onCollisionShipShip ?a sample_fighter =
      (?a\<lparr>e_ship := Some sa', e_health := Some ha', e_isDestroyed := (h_current ha' = 0)\<rparr>,
       sample_fighter\<lparr>e_ship := Some sb', e_health := Some hb', e_isDestroyed := (h_current hb' = 0)\<rparr>)"
    "unat (h_current ha') = 0" "unat (h_current hb') = 95" "h_max hb' = 100"
    "collision_score (h_current hb' \<noteq> 0 \<and> h_current ha' = 0) ShipComponent_default sb'"
    by (auto simp: sample_entities)
  have h: "h_current ha' = 0" "h_current hb' = 95" using o(2,3) by (simp_all add: word_unat_eq_iff)
  moreover from h(2) have "hb' = \<lparr>h_current = 95, h_max = 100\<rparr>" using o(4) by (cases hb') simp
  moreover have "unat (sh_score sb') = 30" "unat (sh_frags sb') = 1"
    using o(5) h by (simp_all add: collision_score_def ShipComponent_default_def)
  ultimately show ?thesis unfolding o(1) by simp
qed

theorem bulletShip_outcome_witness:
  "onCollisionBulletShip sample_bullet sample_fighter =
     (sample_bullet\<lparr>e_isDestroyed := True\<rparr>,
      sample_fighter\<lparr>e_health := Some \<lparr>h_current = 75, h_max = 100\<rparr>\<rparr>, Some (9, False))"
  using bulletShip_outcome [of sample_bullet sample_fighter "\<lparr>co_damage = 25, co_owner_id = 9\<rparr>"
      HealthComponent_default ShipComponent_default]
  by (simp add: sample_entities)

end
