(* ===== verification/AsteroidFactory.thy ===== *)
theory AsteroidFactory
  imports EntityUtils
begin

text \<open>
  src/src/server/asteroid_factory.h and asteroid_factory.cpp: the asteroid population.  The
  generator with its distribution is the parameter \<open>uniform\<close>: it maps the bounds and the
  generator state to a number and the next state, and \<open>rng_ok\<close> is what
  \<open>std::uniform_real_distribution\<close> documents.  The drawing loop ends only because the drawn
  weights are not too small, so it is a partial function and its termination is proved.
\<close>

definition MIN_ASTEROIDS_WEIGHT :: scalar where "MIN_ASTEROIDS_WEIGHT = Fin 500"
definition MIN_ASTEROID_WEIGHT :: scalar where "MIN_ASTEROID_WEIGHT = Fin 10"
definition MAX_ASTEROID_WEIGHT :: scalar where "MAX_ASTEROID_WEIGHT = Fin 80"
definition MAX_WEIGHT_FOR_RADIUS :: scalar where "MAX_WEIGHT_FOR_RADIUS = Fin 30"
definition MAX_RADIUS_COUNTER :: scalar where "MAX_RADIUS_COUNTER = Fin 30"
definition MIN_RADIUS_COUNTER :: scalar where "MIN_RADIUS_COUNTER = Fin 30"

lemmas asteroid_constants = MIN_ASTEROIDS_WEIGHT_def MIN_ASTEROID_WEIGHT_def MAX_ASTEROID_WEIGHT_def
  MAX_WEIGHT_FOR_RADIUS_def MAX_RADIUS_COUNTER_def MIN_RADIUS_COUNTER_def

type_synonym 'g uniform = "scalar \<Rightarrow> scalar \<Rightarrow> 'g \<Rightarrow> scalar \<times> 'g"

definition rng_ok :: "'g uniform \<Rightarrow> bool" where
  "rng_ok uniform \<longleftrightarrow> (\<forall>a b g. a \<le> b \<longrightarrow>
     (\<exists>x g'. uniform (Fin a) (Fin b) g = (Fin x, g') \<and> a \<le> x \<and> x \<le> b))"

record AsteroidData =
  ad_entity :: "nat option"
  ad_mass :: scalar

definition calculateCurrentWeight :: "Entity option list \<Rightarrow> scalar" where
  "calculateCurrentWeight storage =
     foldl (\<lambda>total slot. case slot of
         None \<Rightarrow> total
       | Some e \<Rightarrow> if \<not> e_isDestroyed e \<and> e_type e = EtAsteroid then total + e_mass e else total)
       (Fin 0) storage"

text \<open>The \<open>while\<close> loop.\<close>

partial_function (option) drawWeights ::
  "'g uniform \<Rightarrow> scalar \<Rightarrow> scalar list \<Rightarrow> 'g \<Rightarrow> (scalar list \<times> 'g) option" where
  "drawWeights uniform remaining asteroids_weight g =
     (if MIN_ASTEROID_WEIGHT \<le> remaining
      then let upper = std_min MAX_ASTEROID_WEIGHT remaining;
               (solo_weight, g') = uniform MIN_ASTEROID_WEIGHT upper g
           in drawWeights uniform (remaining - solo_weight) (asteroids_weight @ [solo_weight]) g'
      else Some (asteroids_weight, g))"

definition generateAsteroidWeight :: "'g uniform \<Rightarrow> scalar \<Rightarrow> 'g \<Rightarrow> (scalar list \<times> 'g) option" where
  "generateAsteroidWeight uniform current_weight g =
     (if MIN_ASTEROIDS_WEIGHT \<le> current_weight then Some ([], g)
      else
        let budget_left = MIN_ASTEROIDS_WEIGHT - current_weight
        in if budget_left < MIN_ASTEROID_WEIGHT then Some ([], g)
           else let (remaining, g') = uniform MIN_ASTEROID_WEIGHT budget_left g
                in drawWeights uniform remaining [] g')"

fun positionsLoop :: "'g uniform \<Rightarrow> Circle \<Rightarrow> nat \<Rightarrow> 'g \<Rightarrow> Vector2D list \<times> 'g" where
  "positionsLoop uniform free_coordinates 0 g = ([], g)"
| "positionsLoop uniform free_coordinates (Suc n) g =
     (let (u1, g1) = uniform (Fin 0) (Fin 1) g;
          angle = Fin 2 * kPi * u1;
          (u2, g2) = uniform (Fin 0) (Fin 1) g1;
          r = c_radius free_coordinates * fsqrt u2;
          position = mkvec (vx (c_center free_coordinates) + r * fcos angle)
                           (vy (c_center free_coordinates) + r * fsin angle);
          (rest, g') = positionsLoop uniform free_coordinates n g2
      in (position # rest, g'))"

definition generatePositions :: "'g uniform \<Rightarrow> nat \<Rightarrow> Circle \<Rightarrow> 'g \<Rightarrow> Vector2D list \<times> 'g" where
  "generatePositions uniform pos_count free_coordinates g =
     (if pos_count = 0 \<or> c_radius free_coordinates \<le> Fin 0 then ([], g)
      else positionsLoop uniform free_coordinates pos_count g)"

text \<open>What the loop of \<open>update\<close> writes into a fresh entity.\<close>

definition makeAsteroid :: "scalar \<Rightarrow> Vector2D \<Rightarrow> Entity \<Rightarrow> Entity" where
  "makeAsteroid weight position e =
     e\<lparr>e_type := EtAsteroid, e_mass := weight,
       e_radius := (if weight < MAX_WEIGHT_FOR_RADIUS then weight * MAX_RADIUS_COUNTER
                    else weight * MIN_RADIUS_COUNTER),
       e_transform := Some \<lparr>t_position = position, t_velocity = vzero, t_angle = Fin 0\<rparr>,
       e_asteroid := Some \<lparr>as_score_reward = to_u16 weight\<rparr>,
       e_health := Some HealthComponent_default\<rparr>"

fun createAsteroids :: "(scalar \<times> Vector2D) list \<Rightarrow> EntityPool \<Rightarrow> EntityPool" where
  "createAsteroids [] p = p"
| "createAsteroids ((weight, position) # rest) p =
     (let (i, p') = acquire p
      in createAsteroids rest
           (put_slot i (makeAsteroid weight position (the (p_storage p' ! i))) p'))"

definition AsteroidFactory_update ::
  "'g uniform \<Rightarrow> Circle \<Rightarrow> EntityPool \<Rightarrow> 'g \<Rightarrow> (EntityPool \<times> 'g) option" where
  "AsteroidFactory_update uniform free_coordinates p g =
     (let current_weight = calculateCurrentWeight (p_storage p)
      in if MIN_ASTEROIDS_WEIGHT \<le> current_weight then Some (p, g)
         else case generateAsteroidWeight uniform current_weight g of
           None \<Rightarrow> None
         | Some (free_weight, g') \<Rightarrow>
             if free_weight = [] then Some (p, g')
             else let (rand_positions, g'') = generatePositions uniform (length free_weight) free_coordinates g'
                  in if rand_positions = [] then Some (p, g'')
                     else Some (createAsteroids (zip free_weight rand_positions) p, g''))"

definition createSplitAsteroid :: "AsteroidData \<Rightarrow> AsteroidData list" where
  "createSplitAsteroid parent = []"

section \<open>Drawing weights\<close>

lemma rng_okE:
  assumes "rng_ok uniform" "a \<le> b"
  obtains x g' where "uniform (Fin a) (Fin b) g = (Fin x, g')" "a \<le> x" "x \<le> b"
  using assms unfolding rng_ok_def by meson

lemma drawWeights_stop: "r < 10 \<Longrightarrow> drawWeights uniform (Fin r) acc g = Some (acc, g)"
  by (subst drawWeights.simps) (simp add: asteroid_constants)

lemma drawWeights_step:
  "10 \<le> r \<Longrightarrow> uniform (Fin 10) (Fin (min 80 r)) g = (Fin w, g') \<Longrightarrow>
   drawWeights uniform (Fin r) acc g = drawWeights uniform (Fin (r - w)) (acc @ [Fin w]) g'"
  by (subst drawWeights.simps) (simp add: asteroid_constants)

lemma drawWeights_total:
  assumes "rng_ok uniform" "r < 10 * real (Suc n)"
  shows "\<exists>ws g'. drawWeights uniform (Fin r) acc g = Some (acc @ map Fin ws, g')
    \<and> (\<forall>w\<in>set ws. 10 \<le> w \<and> w \<le> 80) \<and> r - 10 < max 0 (sum_list ws) \<and> (10 \<le> r \<longrightarrow> sum_list ws \<le> r)
    \<and> (ws = [] \<longleftrightarrow> r < 10)"
  using assms(2)
proof (induction n arbitrary: r acc g)
  case 0
  then show ?case by (intro exI [of _ "[]"] exI [of _ g]) (simp add: drawWeights_stop)
next
  case (Suc n)
  show ?case
  proof (cases "r < 10")
    case True
    then show ?thesis by (intro exI [of _ "[]"] exI [of _ g]) (simp add: drawWeights_stop)
  next
    case False
    then have "10 \<le> min 80 r" by simp
    then obtain w g1 where w: "uniform (Fin 10) (Fin (min 80 r)) g = (Fin w, g1)" "10 \<le> w" "w \<le> min 80 r"
      by (rule rng_okE [OF assms(1)])
    obtain ws g' where IH: "drawWeights uniform (Fin (r - w)) (acc @ [Fin w]) g1 = Some ((acc @ [Fin w]) @ map Fin ws, g')"
        "\<forall>w\<in>set ws. 10 \<le> w \<and> w \<le> 80" "r - w - 10 < max 0 (sum_list ws)" "10 \<le> r - w \<longrightarrow> sum_list ws \<le> r - w"
        "ws = [] \<longleftrightarrow> r - w < 10"
      using Suc.IH [of "r - w" "acc @ [Fin w]" g1] Suc.prems w(2) by auto
    have "drawWeights uniform (Fin r) acc g = Some (acc @ map Fin (w # ws), g')"
      using drawWeights_step [of r uniform g w g1 acc] False w(1) IH(1) by simp
    moreover have "0 \<le> sum_list ws" using IH(2) by (intro sum_list_nonneg) force
    moreover have "sum_list ws \<le> r - w" using IH(4,5) w(3) by (cases "10 \<le> r - w") auto
    ultimately show ?thesis
      using False w IH by (intro exI [of _ "w # ws"] exI [of _ g']) auto
  qed
qed

lemma sum_list_pos: "\<forall>w\<in>set ws. 0 < w \<Longrightarrow> ws \<noteq> [] \<Longrightarrow> 0 < sum_list (ws :: real list)"
proof (induction ws)
  case (Cons w ws)
  then show ?case by (cases "ws = []") (auto intro: add_pos_pos)
qed simp

lemma generated_weights:
  assumes "rng_ok uniform" "0 \<le> c"
  shows "\<exists>ws g'. generateAsteroidWeight uniform (Fin c) g = Some (map Fin ws, g')
    \<and> (\<forall>w\<in>set ws. 10 \<le> w \<and> w \<le> 80) \<and> sum_list ws \<le> max 0 (500 - c) \<and> length ws \<le> 50
    \<and> (ws = [] \<longleftrightarrow> 490 < c)"
proof (cases "490 < c")
  case True
  then show ?thesis
    by (intro exI [of _ "[]"] exI [of _ g]) (simp add: generateAsteroidWeight_def asteroid_constants Let_def)
next
  case False
  then have "10 \<le> 500 - c" by simp
  then obtain r g1 where r: "uniform (Fin 10) (Fin (500 - c)) g = (Fin r, g1)" "10 \<le> r" "r \<le> 500 - c"
    by (rule rng_okE [OF assms(1)])
  have "r < 10 * real (Suc 50)" using r(3) assms(2) by simp
  from drawWeights_total [OF assms(1) this, of "[]" g1] obtain ws g' where
    d: "drawWeights uniform (Fin r) [] g1 = Some (map Fin ws, g')" "\<forall>w\<in>set ws. 10 \<le> w \<and> w \<le> 80"
      "sum_list ws \<le> r" "ws \<noteq> []"
    using r(2) by auto
  have "10 * real (length ws) \<le> sum_list ws"
    using d(2) by (induction ws) auto
  then have "length ws \<le> 50" using d(3) r(3) assms(2) by linarith
  then show ?thesis
    using False d r by (intro exI [of _ ws] exI [of _ g'])
      (simp add: generateAsteroidWeight_def asteroid_constants Let_def)
qed

text \<open>Drawing the weights of new asteroids always ends, whatever the random numbers:
  every weight is between 10 and 80, together they stay within what is missing to 500, and
  fewer than 51 are drawn.\<close>

theorem generateAsteroidWeight_budget:
  assumes "rng_ok uniform" "0 \<le> c"
  shows "\<exists>ws g'. generateAsteroidWeight uniform (Fin c) g = Some (map Fin ws, g')
    \<and> (\<forall>w\<in>set ws. 10 \<le> w \<and> w \<le> 80) \<and> sum_list ws \<le> max 0 (500 - c) \<and> length ws \<le> 50
    \<and> (ws = [] \<longleftrightarrow> 490 < c)"
  using generated_weights [OF assms] by blast

section \<open>Positions\<close>

definition in_circle :: "Circle \<Rightarrow> Vector2D \<Rightarrow> bool" where
  "in_circle c v \<longleftrightarrow> lengthSquared (vsub v (c_center c)) \<le> c_radius c * c_radius c"

lemma positionsLoop_in_circle:
  assumes "rng_ok uniform" "c_center c = fvec cx cy" "c_radius c = Fin r"
  shows "\<exists>ps g'. positionsLoop uniform c n g = (ps, g') \<and> length ps = n \<and> (\<forall>v\<in>set ps. finite_vec v \<and> in_circle c v)"
proof (induction n arbitrary: g)
  case (Suc n)
  obtain u1 g1 where u1: "uniform (Fin 0) (Fin 1) g = (Fin u1, g1)"
    by (rule rng_okE [OF assms(1), of 0 1 g]) simp_all
  obtain u2 g2 where u2: "uniform (Fin 0) (Fin 1) g1 = (Fin u2, g2)" "0 \<le> u2" "u2 \<le> 1"
    by (rule rng_okE [OF assms(1), of 0 1 g1]) simp_all
  obtain ps g' where ps: "positionsLoop uniform c n g2 = (ps, g')" "length ps = n"
      "\<forall>v\<in>set ps. finite_vec v \<and> in_circle c v"
    using Suc.IH by blast
  let ?a = "2 * pi * u1" and ?q = "r * sqrt u2"
  let ?v = "fvec (cx + ?q * cos ?a) (cy + ?q * sin ?a)"
  have run: "positionsLoop uniform c (Suc n) g = (?v # ps, g')"
    using u1 u2 ps assms(2,3) by (simp add: kPi_def Let_def)
  have "?q * cos ?a * (?q * cos ?a) + ?q * sin ?a * (?q * sin ?a)
      = ?q\<^sup>2 * ((sin ?a)\<^sup>2 + (cos ?a)\<^sup>2)"
    by (simp only: power2_eq_square) (simp only: distrib_left mult.assoc mult.left_commute add.commute)
  also have "\<dots> = r * r * u2"
    using u2(2) by (simp only: sin_cos_squared_add mult_1_right) (simp add: power2_eq_square)
  also have "\<dots> \<le> r * r" using u2(3) by (simp add: mult_left_le)
  finally have "in_circle c ?v" using assms(2,3) by (simp add: in_circle_def)
  with run ps show ?case by (simp add: finite_vec_def)
qed simp

section \<open>The population\<close>

definition slot_weight :: "Entity option \<Rightarrow> real" where
  "slot_weight s = (case s of None \<Rightarrow> 0
     | Some e \<Rightarrow> if \<not> e_isDestroyed e \<and> e_type e = EtAsteroid
                 then (case e_mass e of Fin m \<Rightarrow> m | _ \<Rightarrow> 0) else 0)"

definition finite_masses :: "Entity option list \<Rightarrow> bool" where
  "finite_masses st \<longleftrightarrow> (\<forall>e. Some e \<in> set st \<longrightarrow> isfinite (e_mass e))"

lemma calculateCurrentWeight_sum:
  assumes "finite_masses st"
  shows "calculateCurrentWeight st = Fin (sum_list (map slot_weight st))"
proof -
  let ?f = "\<lambda>total slot. case slot of None \<Rightarrow> total
    | Some e \<Rightarrow> if \<not> e_isDestroyed e \<and> e_type e = EtAsteroid then total + e_mass e else total"
  have "foldl ?f (Fin a) st = Fin (a + sum_list (map slot_weight st))" for a
    using assms
  proof (induction st arbitrary: a)
    case (Cons s st)
    then have fin: "finite_masses st" by (simp add: finite_masses_def)
    have "?f (Fin a) s = Fin (a + slot_weight s)"
      using Cons.prems by (auto simp: slot_weight_def finite_masses_def isfinite_iff split: option.split)
    then show ?case using Cons.IH [OF fin, of "a + slot_weight s"] by (simp add: add.assoc)
  qed simp
  then show ?thesis by (simp add: calculateCurrentWeight_def)
qed

lemma sum_list_fill:
  fixes f :: "'a option \<Rightarrow> real"
  assumes "i < length st" "st ! i = None" "f None = 0"
  shows "sum_list (map f (st[i := s])) = sum_list (map f st) + f s"
  using assms(1,2)
proof (induction st arbitrary: i)
  case (Cons a st)
  then show ?case using assms(3) by (cases i) (simp_all add: add.assoc)
qed simp

lemma slot_weight_makeAsteroid:
  "slot_weight (Some (makeAsteroid (Fin w) pos (Entity_default\<lparr>e_id := n\<rparr>))) = w"
  by (simp add: slot_weight_def makeAsteroid_def Entity_default_def)

text \<open>What the creation loop does to the storage: old entities stay where they are, every
  other entity is one of the new asteroids, and the total weight grows by theirs.\<close>

lemma createAsteroids_storage:
  assumes "pool_inv p" "room_for (length ws) p" "length ps = length ws" "finite_masses (p_storage p)"
  shows "pool_inv (createAsteroids (zip (map Fin ws) ps) p)
    \<and> finite_masses (p_storage (createAsteroids (zip (map Fin ws) ps) p))
    \<and> sum_list (map slot_weight (p_storage (createAsteroids (zip (map Fin ws) ps) p)))
        = sum_list (map slot_weight (p_storage p)) + sum_list ws
    \<and> (\<forall>i e. i < length (p_storage p) \<longrightarrow> p_storage p ! i = Some e \<longrightarrow>
        i < length (p_storage (createAsteroids (zip (map Fin ws) ps) p))
        \<and> p_storage (createAsteroids (zip (map Fin ws) ps) p) ! i = Some e)
    \<and> (\<forall>e. Some e \<in> set (p_storage (createAsteroids (zip (map Fin ws) ps) p)) \<longrightarrow>
        Some e \<in> set (p_storage p)
        \<or> (\<exists>w v n. w \<in> set ws \<and> v \<in> set ps \<and> e = makeAsteroid (Fin w) v (Entity_default\<lparr>e_id := n\<rparr>)))"
  using assms
proof (induction ws arbitrary: ps p)
  case (Cons w ws)
  then obtain v vs where ps: "ps = v # vs" "length vs = length ws" by (cases ps) auto
  obtain i p1 where acq: "acquire p = (i, p1)" by fastforce
  let ?e = "makeAsteroid (Fin w) v (Entity_default\<lparr>e_id := p_next_id p\<rparr>)"
  let ?q = "put_slot i ?e p1"
  have e_mass: "e_mass ?e = Fin w" by (simp add: makeAsteroid_def)
  have "e_id ?e = p_next_id p" by (simp add: makeAsteroid_def)
  note ap = acquire_put [OF Cons.prems(1) Cons.prems(2) [simplified] acq this]
  have run: "createAsteroids (zip (map Fin (w # ws)) ps) p = createAsteroids (zip (map Fin ws) vs) ?q"
    using ps acq ap(4) by simp
  have set: "Some d \<in> set (p_storage ?q) \<Longrightarrow> d = ?e \<or> Some d \<in> set (p_storage p)" for d
    using ap(3) set_update_cases [of "Some d" "p_storage p" i "Some ?e"] by auto
  then have fin: "finite_masses (p_storage ?q)"
    using Cons.prems(4) unfolding finite_masses_def by (metis e_mass isfinite.simps(1))
  have sum: "sum_list (map slot_weight (p_storage ?q)) = sum_list (map slot_weight (p_storage p)) + w"
    using ap(3) sum_list_fill [of i "p_storage p" slot_weight "Some ?e"] slot_weight_makeAsteroid
    by (auto simp: slot_weight_def [of None])
  have kept: "j < length (p_storage ?q) \<and> p_storage ?q ! j = Some d"
    if "j < length (p_storage p)" "p_storage p ! j = Some d" for j d
    using ap(3) that by (cases "j = i") (auto simp: nth_append)
  note IH = Cons.IH [OF ap(1,2) ps(2) fin]
  show ?case unfolding run
  proof (intro conjI allI impI)
    fix j d assume "j < length (p_storage p)" "p_storage p ! j = Some d"
    from kept [OF this] IH show "j < length (p_storage (createAsteroids (zip (map Fin ws) vs) ?q))"
      "p_storage (createAsteroids (zip (map Fin ws) vs) ?q) ! j = Some d" by blast+
  next
    fix d assume "Some d \<in> set (p_storage (createAsteroids (zip (map Fin ws) vs) ?q))"
    with IH have "Some d \<in> set (p_storage ?q)
        \<or> (\<exists>w v n. w \<in> set ws \<and> v \<in> set vs \<and> d = makeAsteroid (Fin w) v (Entity_default\<lparr>e_id := n\<rparr>))" by blast
    then show "Some d \<in> set (p_storage p) \<or> (\<exists>w' v n. w' \<in> set (w # ws) \<and> v \<in> set ps
        \<and> d = makeAsteroid (Fin w') v (Entity_default\<lparr>e_id := n\<rparr>))"
      using set [of d] ps(1) by auto
  qed (use IH sum in auto)
qed auto

lemma generated_positions:
  assumes "rng_ok uniform" "c_center circ = fvec cx cy" "c_radius circ = Fin r"
  obtains ps g' where "generatePositions uniform n circ g = (ps, g')" "ps = [] \<longleftrightarrow> n = 0 \<or> r \<le> 0"
    "ps \<noteq> [] \<Longrightarrow> length ps = n" "\<forall>v\<in>set ps. in_circle circ v"
proof (cases "n = 0 \<or> r \<le> 0")
  case True
  then show ?thesis using that [of "[]" g] assms(3) by (auto simp: generatePositions_def)
next
  case False
  obtain ps g' where ps: "positionsLoop uniform circ n g = (ps, g')" "length ps = n" "\<forall>v\<in>set ps. in_circle circ v"
    using positionsLoop_in_circle [OF assms] by blast
  with False have "ps \<noteq> []" by auto
  with False ps show ?thesis using that [of ps g'] assms(3) by (simp add: generatePositions_def)
qed

text \<open>An update that creates asteroids.\<close>

lemma AsteroidFactory_update_creates:
  assumes "pool_inv p" "finite_masses (p_storage p)" "calculateCurrentWeight (p_storage p) = Fin c" "c < 500"
    "generateAsteroidWeight uniform (Fin c) g = Some (map Fin ws, g1)" "generatePositions uniform (length ws) circ g1 = (ps, g2)"
    "length ps = length ws" "ps \<noteq> []" "room_for (length ws) p" "\<forall>v\<in>set ps. in_circle circ v"
  obtains p' where "AsteroidFactory_update uniform circ p g = Some (p', g2)" "pool_inv p'"
    "calculateCurrentWeight (p_storage p') = Fin (c + sum_list ws)"
    "\<forall>i e. i < length (p_storage p) \<and> p_storage p ! i = Some e \<longrightarrow> p_storage p' ! i = Some e"
    "\<forall>e. Some e \<in> set (p_storage p') \<and> Some e \<notin> set (p_storage p) \<longrightarrow>
       e_type e = EtAsteroid \<and> (\<exists>t. e_transform e = Some t \<and> in_circle circ (t_position t))"
proof
  let ?p' = "createAsteroids (zip (map Fin ws) ps) p"
  note cr = createAsteroids_storage [OF assms(1,9,7,2)]
  have c: "c = sum_list (map slot_weight (p_storage p))"
    using calculateCurrentWeight_sum [OF assms(2)] assms(3) by simp
  show "AsteroidFactory_update uniform circ p g = Some (?p', g2)"
    using assms(3-8) by (auto simp: AsteroidFactory_update_def asteroid_constants)
  show "pool_inv ?p'" "\<forall>i e. i < length (p_storage p) \<and> p_storage p ! i = Some e \<longrightarrow> p_storage ?p' ! i = Some e"
    using cr by blast+
  show "calculateCurrentWeight (p_storage ?p') = Fin (c + sum_list ws)"
    using calculateCurrentWeight_sum cr c by simp
  show "\<forall>e. Some e \<in> set (p_storage ?p') \<and> Some e \<notin> set (p_storage p) \<longrightarrow>
      e_type e = EtAsteroid \<and> (\<exists>t. e_transform e = Some t \<and> in_circle circ (t_position t))"
    using cr assms(10) by (fastforce simp: makeAsteroid_def)
qed

text \<open>C32.  One update of the asteroid population returns, keeps the pool consistent and every
  existing entity in its slot, adds only asteroids that lie in the free circle, and raises the
  total asteroid weight to at most 500 (a heavier population is left alone); if at least 10 of
  weight were missing and the circle is not empty, it does grow.\<close>

theorem AsteroidFactory_update_population:
  assumes "rng_ok uniform" "pool_inv p" "room_for 50 p" "finite_masses (p_storage p)"
    "calculateCurrentWeight (p_storage p) = Fin c" "0 \<le> c" "c_center circ = fvec cx cy" "c_radius circ = Fin r"
  shows "\<exists>p' g' c'. AsteroidFactory_update uniform circ p g = Some (p', g') \<and> pool_inv p'
    \<and> calculateCurrentWeight (p_storage p') = Fin c' \<and> c \<le> c' \<and> c' \<le> max c 500
    \<and> (0 < r \<and> c \<le> 490 \<longrightarrow> c < c')
    \<and> (\<forall>i e. i < length (p_storage p) \<and> p_storage p ! i = Some e \<longrightarrow> p_storage p' ! i = Some e)
    \<and> (\<forall>e. Some e \<in> set (p_storage p') \<and> Some e \<notin> set (p_storage p) \<longrightarrow>
         e_type e = EtAsteroid \<and> (\<exists>t. e_transform e = Some t \<and> in_circle circ (t_position t)))"
proof (cases "500 \<le> c")
  case True
  then show ?thesis
    using assms(2,5) by (intro exI [of _ p] exI [of _ g] exI [of _ c])
      (simp add: AsteroidFactory_update_def asteroid_constants)
next
  case False
  obtain ws g1 where ws: "generateAsteroidWeight uniform (Fin c) g = Some (map Fin ws, g1)"
    "\<forall>w\<in>set ws. 10 \<le> w \<and> w \<le> 80" "sum_list ws \<le> max 0 (500 - c)" "length ws \<le> 50" "ws = [] \<longleftrightarrow> 490 < c"
    using generated_weights [OF assms(1,6)] by blast
  obtain ps g2 where ps: "generatePositions uniform (length ws) circ g1 = (ps, g2)" "ps = [] \<longleftrightarrow> ws = [] \<or> r \<le> 0"
    "ps \<noteq> [] \<Longrightarrow> length ps = length ws" "\<forall>v\<in>set ps. in_circle circ v"
    using generated_positions [OF assms(1,7,8), of "length ws" g1] unfolding length_0_conv by blast
  show ?thesis
  proof (cases "ps = []")
    case True
    then show ?thesis
      using assms(2,5) ws ps False by (intro exI [of _ p] exI [of _ "if ws = [] then g1 else g2"] exI [of _ c])
        (auto simp: AsteroidFactory_update_def asteroid_constants)
  next
    case nonempty: False
    have "room_for (length ws) p" "c < 500" using assms(3) ws(4) False by (simp_all add: room_for_def)
    from AsteroidFactory_update_creates [OF assms(2,4,5) this(2) ws(1) ps(1) ps(3) [OF nonempty] nonempty this(1) ps(4)]
    obtain p' where p': "AsteroidFactory_update uniform circ p g = Some (p', g2)" "pool_inv p'"
      "calculateCurrentWeight (p_storage p') = Fin (c + sum_list ws)"
      "\<forall>i e. i < length (p_storage p) \<and> p_storage p ! i = Some e \<longrightarrow> p_storage p' ! i = Some e"
      "\<forall>e. Some e \<in> set (p_storage p') \<and> Some e \<notin> set (p_storage p) \<longrightarrow>
         e_type e = EtAsteroid \<and> (\<exists>t. e_transform e = Some t \<and> in_circle circ (t_position t))" by blast
    have "0 < sum_list ws" using ws(2) ps(2) nonempty by (intro sum_list_pos) force+
    moreover have "sum_list ws \<le> 500 - c" using ws(3) False by simp
    ultimately show ?thesis
      using p' False by (intro exI [of _ p'] exI [of _ g2] exI [of _ "c + sum_list ws"]) simp
  qed
qed

section \<open>Witnesses\<close>

text \<open>A generator that always answers the lower bound.\<close>

definition low_rng :: "unit uniform" where
  "low_rng a b g = (a, g)"

lemma low_rng_ok: "rng_ok low_rng"
  by (simp add: rng_ok_def low_rng_def)

theorem generateAsteroidWeight_budget_witness:
  "\<exists>ws g'. generateAsteroidWeight low_rng (Fin 480) () = Some (map Fin ws, g')
    \<and> (\<forall>w\<in>set ws. 10 \<le> w \<and> w \<le> 80) \<and> sum_list ws \<le> max 0 (500 - 480) \<and> length ws \<le> 50
    \<and> (ws = [] \<longleftrightarrow> 490 < (480 :: real))"
  by (rule generateAsteroidWeight_budget [OF low_rng_ok]) simp

theorem AsteroidFactory_update_population_witness:
  "\<exists>p' g' c'. AsteroidFactory_update low_rng \<lparr>c_center = fvec 0 0, c_radius = Fin 100\<rparr> sample_pool () = Some (p', g')
    \<and> pool_inv p' \<and> calculateCurrentWeight (p_storage p') = Fin c' \<and> 0 < c' \<and> c' \<le> 500"
proof -
  have "finite_masses (p_storage sample_pool)"
    by (auto simp: finite_masses_def sample_pool_fields Entity_default_def)
  moreover have "calculateCurrentWeight (p_storage sample_pool) = Fin 0"
    by (simp add: calculateCurrentWeight_def sample_pool_fields Entity_default_def)
  moreover have "room_for 50 sample_pool" by (simp add: room_for_def sample_pool_fields)
  ultimately show ?thesis
    using AsteroidFactory_update_population [OF low_rng_ok sample_pool_inv, of 0
        "\<lparr>c_center = fvec 0 0, c_radius = Fin 100\<rparr>" 0 0 100 "()"] by auto
qed

end
