(* ===== verification/CollisionMath.thy ===== *)
theory CollisionMath
  imports MathUtils
begin

text \<open>
  What the circle tests and the elastic impulse of src/src/common/math_utils.h compute: the
  overlap test is the distance test, the two-borders test bounds the radius, the impulse
  conserves momentum and kinetic energy and separates the bodies.
\<close>

section \<open>Circle overlap\<close>

definition euclid_dist :: "real \<Rightarrow> real \<Rightarrow> real \<Rightarrow> real \<Rightarrow> real" where
  "euclid_dist x1 y1 x2 y2 = sqrt ((x1 - x2) * (x1 - x2) + (y1 - y2) * (y1 - y2))"

lemma sq_le_iff_sqrt_le:
  assumes "0 \<le> b"
  shows "a \<le> b * b \<longleftrightarrow> sqrt a \<le> b"
  using assms real_sqrt_le_iff [of a "b * b"] by simp

lemma euclid_dist_commute: "euclid_dist x1 y1 x2 y2 = euclid_dist x2 y2 x1 y1"
  unfolding euclid_dist_def by (simp add: algebra_simps)

text \<open>On non-negative radii the overlap test never throws and answers whether the centres
  are at most the sum of the radii apart (touching included); swapping the circles changes
  nothing.  A negative or NaN radius throws.\<close>

theorem checkCircleCollision_iff_distance:
  shows "0 \<le> r1 \<Longrightarrow> 0 \<le> r2 \<Longrightarrow>
    checkCircleCollision (fvec x1 y1) (Fin r1) (fvec x2 y2) (Fin r2)
      = Inr (euclid_dist x1 y1 x2 y2 \<le> r1 + r2)"
  unfolding euclid_dist_def by (simp add: checkCircleCollision_def Let_def sq_le_iff_sqrt_le)

theorem checkCircleCollision_iff_distance_witness:
  "checkCircleCollision (fvec 0 0) (Fin 3) (fvec 0 5) (Fin 2) = Inr (euclid_dist 0 0 0 5 \<le> 3 + 2)"
  by (rule checkCircleCollision_iff_distance) simp_all

lemma checkCircleCollision_throws:
  "(\<exists>e. checkCircleCollision p1 r1 p2 r2 = Inl e) \<longleftrightarrow> \<not> Fin 0 \<le> r1 \<or> \<not> Fin 0 \<le> r2"
  by (auto simp: checkCircleCollision_def Let_def)

lemma checkCircleCollision_total:
  "Fin 0 \<le> r1 \<Longrightarrow> Fin 0 \<le> r2 \<Longrightarrow> \<exists>b. checkCircleCollision p1 r1 p2 r2 = Inr b"
  by (simp add: checkCircleCollision_def Let_def)

text \<open>A circle whose centre has a NaN coordinate overlaps nothing.\<close>

lemma checkCircleCollision_NaN:
  assumes "vx p1 = NaN \<or> vy p1 = NaN" "Fin 0 \<le> r1" "Fin 0 \<le> r2"
  shows "checkCircleCollision p1 r1 p2 r2 = Inr False" "checkCircleCollision p2 r2 p1 r1 = Inr False"
  using assms by (auto simp: checkCircleCollision_def Let_def lengthSquared_def vsub_def)

section \<open>Touching two opposite borders\<close>

lemma sq_le_abs: "0 \<le> r \<Longrightarrow> d * d + e * e \<le> r * r \<Longrightarrow> \<bar>d\<bar> \<le> r" for d e r :: real
proof -
  assume r: "0 \<le> r" and le: "d * d + e * e \<le> r * r"
  have "\<bar>d\<bar> ^ 2 \<le> r ^ 2"
    using le zero_le_square [of e] unfolding power2_abs power2_eq_square by linarith
  then show "\<bar>d\<bar> \<le> r" using r by (rule power2_le_imp_le)
qed

text \<open>Only a circle at least half as large as the world in one direction touches two
  opposite borders; so a ship with a smaller radius is never destroyed for not fitting.\<close>

theorem opposite_bounds_needs_large_radius:
  assumes "0 < w" "0 < h" "r < w / 2" "r < h / 2"
  shows "\<not> circleIntersectsOppositeWorldBounds (fvec x y) (Fin r) (Fin w) (Fin h)"
proof
  assume hit: "circleIntersectsOppositeWorldBounds (fvec x y) (Fin r) (Fin w) (Fin h)"
  let ?ny = "max (- (h / 2)) (min (h / 2) y)" and ?nx = "max (- (w / 2)) (min (w / 2) x)"
  from hit have r: "0 \<le> r"
    by (auto simp: circleIntersectsOppositeWorldBounds_def split: if_splits)
  from hit assms r have
    "(x + w / 2) * (x + w / 2) + (y - ?ny) * (y - ?ny) \<le> r * r \<and>
     (x - w / 2) * (x - w / 2) + (y - ?ny) * (y - ?ny) \<le> r * r \<or>
     (y + h / 2) * (y + h / 2) + (x - ?nx) * (x - ?nx) \<le> r * r \<and>
     (y - h / 2) * (y - h / 2) + (x - ?nx) * (x - ?nx) \<le> r * r"
    by (simp add: circleIntersectsOppositeWorldBounds_def Let_def add.commute)
  then have "\<bar>x + w / 2\<bar> \<le> r \<and> \<bar>x - w / 2\<bar> \<le> r \<or> \<bar>y + h / 2\<bar> \<le> r \<and> \<bar>y - h / 2\<bar> \<le> r"
    using sq_le_abs [OF r] by blast
  with assms show False by linarith
qed

theorem opposite_bounds_needs_large_radius_witness:
  "\<not> circleIntersectsOppositeWorldBounds (fvec 0 0) (Fin 640) (Fin 2000) (Fin 2000)"
  by (rule opposite_bounds_needs_large_radius) simp_all

section \<open>The elastic impulse\<close>

text \<open>The impulse in real numbers: a unit normal, an approaching relative velocity.\<close>

lemma impulse_cases:
  assumes m: "0 < m1" "0 < m2"
  obtains "resolveElasticImpulse (fvec x1 y1) (fvec u1 v1) (Fin m1) (fvec x2 y2) (fvec u2 v2) (Fin m2)
      = (fvec u1 v1, fvec u2 v2)"
      "(x2 - x1) * (x2 - x1) + (y2 - y1) * (y2 - y1) < 1 / 10 ^ 12
       \<or> 0 \<le> (u2 - u1) * (x2 - x1) + (v2 - v1) * (y2 - y1)"
  | nx ny c vn j where
      "resolveElasticImpulse (fvec x1 y1) (fvec u1 v1) (Fin m1) (fvec x2 y2) (fvec u2 v2) (Fin m2)
      = (fvec (u1 - nx * j / m1) (v1 - ny * j / m1), fvec (u2 + nx * j / m2) (v2 + ny * j / m2))"
      "nx * nx + ny * ny = 1" "0 < c" "x2 - x1 = c * nx" "y2 - y1 = c * ny"
      "vn = (u2 - u1) * nx + (v2 - v1) * ny" "vn < 0" "j * (1 / m1 + 1 / m2) = - 2 * vn"
proof -
  let ?dx = "x2 - x1" and ?dy = "y2 - y1"
  let ?q = "?dx * ?dx + ?dy * ?dy"
  let ?c = "sqrt ?q"
  let ?nx = "?dx * (1 / ?c)" and ?ny = "?dy * (1 / ?c)"
  let ?vn = "(u2 - u1) * ?nx + (v2 - v1) * ?ny"
  let ?s = "1 / m1 + 1 / m2"
  let ?j = "- 2 * ?vn / ?s"
  show thesis
  proof (cases "?q < 1 / 10 ^ 12")
    case True
    then show thesis
      by (intro that(1)) (simp_all add: resolveElasticImpulse_def Let_def kEps_def)
  next
    case False
    have "(0 :: real) < 1 / 10 ^ 12" by simp
    with False have q: "0 < ?q" by linarith
    then have c: "0 < ?c" by simp
    have cc: "?c * ?c = ?q" using q by simp
    have s: "0 < ?s" using m by (simp add: add_pos_pos)
    have n: "?nx * ?nx + ?ny * ?ny = 1"
    proof -
      have "?nx * ?nx + ?ny * ?ny = ?q / (?c * ?c)"
        unfolding add_divide_distrib by (simp only: times_divide_eq_right times_divide_eq_left
          mult_1_right divide_divide_eq_left mult.commute)
      also have "\<dots> = 1" unfolding cc by (rule divide_self) (use q in linarith)
      finally show ?thesis .
    qed
    have dist: "?dx = ?c * ?nx" "?dy = ?c * ?ny" using c by simp_all
    have nrm: "Fin 1 / fsqrt (Fin ?q) = Fin (1 / ?c)" using q by (auto simp: not_less)
    show thesis
    proof (cases "0 \<le> ?vn")
      case True
      have "(u2 - u1) * ?dx + (v2 - v1) * ?dy = ?c * ?vn"
        by (subst (1) dist(1), subst (1) dist(2)) (simp only: distrib_left mult.left_commute)
      with True c have "0 \<le> (u2 - u1) * ?dx + (v2 - v1) * ?dy"
        by (simp del: times_divide_eq_right)
      moreover have "resolveElasticImpulse (fvec x1 y1) (fvec u1 v1) (Fin m1) (fvec x2 y2) (fvec u2 v2) (Fin m2)
          = (fvec u1 v1, fvec u2 v2)"
        using False nrm True
        by (simp add: resolveElasticImpulse_def Let_def kEps_def del: times_divide_eq_right fsqrt.simps divide_scalar.simps)
      ultimately show thesis by (intro that(1)) simp_all
    next
      case neg: False
      have "resolveElasticImpulse (fvec x1 y1) (fvec u1 v1) (Fin m1) (fvec x2 y2) (fvec u2 v2) (Fin m2)
          = (fvec (u1 - ?nx * ?j / m1) (v1 - ?ny * ?j / m1), fvec (u2 + ?nx * ?j / m2) (v2 + ?ny * ?j / m2))"
        using False nrm neg m s
        by (simp add: resolveElasticImpulse_def Let_def kEps_def del: fsqrt.simps)
      then show thesis
        by (rule that(2) [OF _ n c dist refl]) (use neg s in simp_all)
    qed
  qed
qed

text \<open>The impulse conserves momentum in each coordinate and the kinetic energy, and the
  bodies do not approach any more afterwards: their relative velocity along the line of the
  centres is non-negative (the post-condition the source states), unless the centres
  coincide, when nothing is changed.\<close>

theorem resolveElasticImpulse_elastic:
  assumes m: "0 < m1" "0 < m2"
  shows "\<exists>a1 b1 a2 b2.
     resolveElasticImpulse (fvec x1 y1) (fvec u1 v1) (Fin m1) (fvec x2 y2) (fvec u2 v2) (Fin m2)
       = (fvec a1 b1, fvec a2 b2)
     \<and> m1 * a1 + m2 * a2 = m1 * u1 + m2 * u2 \<and> m1 * b1 + m2 * b2 = m1 * v1 + m2 * v2
     \<and> m1 * (a1\<^sup>2 + b1\<^sup>2) + m2 * (a2\<^sup>2 + b2\<^sup>2) = m1 * (u1\<^sup>2 + v1\<^sup>2) + m2 * (u2\<^sup>2 + v2\<^sup>2)
     \<and> (1 / 10 ^ 12 \<le> (x2 - x1)\<^sup>2 + (y2 - y1)\<^sup>2 \<longrightarrow>
          0 \<le> (a2 - a1) * (x2 - x1) + (b2 - b1) * (y2 - y1))"
proof (rule impulse_cases [OF m, of x1 y1 u1 v1 x2 y2 u2 v2])
  assume "resolveElasticImpulse (fvec x1 y1) (fvec u1 v1) (Fin m1) (fvec x2 y2) (fvec u2 v2) (Fin m2)
      = (fvec u1 v1, fvec u2 v2)"
    and "(x2 - x1) * (x2 - x1) + (y2 - y1) * (y2 - y1) < 1 / 10 ^ 12
       \<or> 0 \<le> (u2 - u1) * (x2 - x1) + (v2 - v1) * (y2 - y1)"
  then show ?thesis by (auto simp: power2_eq_square)
next
  fix nx ny c vn j
  assume res: "resolveElasticImpulse (fvec x1 y1) (fvec u1 v1) (Fin m1) (fvec x2 y2) (fvec u2 v2) (Fin m2)
      = (fvec (u1 - nx * j / m1) (v1 - ny * j / m1), fvec (u2 + nx * j / m2) (v2 + ny * j / m2))"
    and n: "nx * nx + ny * ny = 1" and c: "0 < c" and d: "x2 - x1 = c * nx" "y2 - y1 = c * ny"
    and vn: "vn = (u2 - u1) * nx + (v2 - v1) * ny" "vn < 0" and j: "j * (1 / m1 + 1 / m2) = - 2 * vn"
  define p q where "p = j / m1" and "q = j / m2"
  have jp: "j = m1 * p" "j = m2 * q" using m by (simp_all add: p_def q_def)
  have pq: "p + q = - 2 * vn" using j by (simp add: p_def q_def distrib_left)
  let ?a1 = "u1 - nx * p" and ?b1 = "v1 - ny * p" and ?a2 = "u2 + nx * q" and ?b2 = "v2 + ny * q"
  have res': "resolveElasticImpulse (fvec x1 y1) (fvec u1 v1) (Fin m1) (fvec x2 y2) (fvec u2 v2) (Fin m2)
      = (fvec ?a1 ?b1, fvec ?a2 ?b2)"
    unfolding res by (simp add: p_def q_def)
  have mq: "m1 * (nx * p) = m2 * (nx * q)" "m1 * (ny * p) = m2 * (ny * q)"
    using jp by (simp_all add: mult.left_commute)
  have mom: "m1 * ?a1 + m2 * ?a2 = m1 * u1 + m2 * u2" "m1 * ?b1 + m2 * ?b2 = m1 * v1 + m2 * v2"
    using mq unfolding right_diff_distrib distrib_left by linarith+
  have e1: "m1 * (?a1\<^sup>2 + ?b1\<^sup>2) = m1 * (u1\<^sup>2 + v1\<^sup>2) - 2 * (m1 * p) * (u1 * nx + v1 * ny) + (m1 * p) * p * (nx * nx + ny * ny)"
    by (simp add: power2_eq_square algebra_simps)
  have e2: "m2 * (?a2\<^sup>2 + ?b2\<^sup>2) = m2 * (u2\<^sup>2 + v2\<^sup>2) + 2 * (m2 * q) * (u2 * nx + v2 * ny) + (m2 * q) * q * (nx * nx + ny * ny)"
    by (simp add: power2_eq_square algebra_simps)
  have "m1 * (?a1\<^sup>2 + ?b1\<^sup>2) + m2 * (?a2\<^sup>2 + ?b2\<^sup>2)
      = m1 * (u1\<^sup>2 + v1\<^sup>2) + m2 * (u2\<^sup>2 + v2\<^sup>2) + j * (2 * vn + (p + q))"
    unfolding e1 e2 n jp(1) [symmetric] jp(2) [symmetric] vn(1) by (simp add: algebra_simps)
  then have energy: "m1 * (?a1\<^sup>2 + ?b1\<^sup>2) + m2 * (?a2\<^sup>2 + ?b2\<^sup>2)
      = m1 * (u1\<^sup>2 + v1\<^sup>2) + m2 * (u2\<^sup>2 + v2\<^sup>2)"
    using pq by simp
  have "(?a2 - ?a1) * (x2 - x1) + (?b2 - ?b1) * (y2 - y1) = c * (vn + (p + q) * (nx * nx + ny * ny))"
    unfolding d vn(1) by (simp add: algebra_simps)
  then have "0 \<le> (?a2 - ?a1) * (x2 - x1) + (?b2 - ?b1) * (y2 - y1)"
    using n pq vn(2) c by (simp add: mult_le_0_iff)
  with res' mom energy show ?thesis by blast
qed

theorem resolveElasticImpulse_elastic_witness:
  "\<exists>a1 b1 a2 b2.
     resolveElasticImpulse (fvec 0 0) (fvec 1 0) (Fin 2) (fvec 1 0) (fvec (- 1) 0) (Fin 1)
       = (fvec a1 b1, fvec a2 b2)
     \<and> 2 * a1 + 1 * a2 = 2 * 1 + 1 * (- 1) \<and> 2 * b1 + 1 * b2 = 2 * 0 + 1 * 0
     \<and> 2 * (a1\<^sup>2 + b1\<^sup>2) + 1 * (a2\<^sup>2 + b2\<^sup>2) = 2 * (1\<^sup>2 + 0\<^sup>2) + 1 * ((- 1)\<^sup>2 + 0\<^sup>2)
     \<and> (1 / 10 ^ 12 \<le> (1 - 0)\<^sup>2 + (0 - 0 :: real)\<^sup>2 \<longrightarrow>
          0 \<le> (a2 - a1) * (1 - 0) + (b2 - b1) * (0 - 0))"
  by (rule resolveElasticImpulse_elastic) simp_all

end
