(* ===== verification/EmptyCircle.thy ===== *)
theory EmptyCircle
  imports CollisionMath
begin

text \<open>
  \<open>math::largestEmptyCircle\<close> (src/src/common/math_utils.h): the search for a large free
  circle among the occupied ones, which decides where ships and asteroids appear.  The three
  closures of the source (\<open>maxRadiusAt\<close>, \<open>consider\<close> and the loop bodies) are
  functions of the captured variables; the mutated \<open>best\<close> is threaded through.
\<close>

type_synonym occupied = "(Vector2D \<times> scalar) list"

definition shrink_radius :: "Vector2D \<Rightarrow> scalar \<Rightarrow> Vector2D \<times> scalar \<Rightarrow> scalar" where
  "shrink_radius center r pr =
     (let sqr_d = lengthSquared (vsub center (fst pr));
          r_plus_rad = r + snd pr
      in if sqr_d < r_plus_rad * r_plus_rad
         then let d = fsqrt sqr_d - snd pr in if d < r then d else r
         else r)"

definition maxRadiusAt :: "scalar \<Rightarrow> scalar \<Rightarrow> occupied \<Rightarrow> Vector2D \<Rightarrow> scalar" where
  "maxRadiusAt half_w half_h occ center =
     (let r = std_min (half_w - fabs (vx center)) (half_h - fabs (vy center))
      in std_max (foldl (shrink_radius center) r occ) (Fin 0))"

definition consider_center :: "scalar \<Rightarrow> scalar \<Rightarrow> occupied \<Rightarrow> Circle \<Rightarrow> Vector2D \<Rightarrow> Circle" where
  "consider_center half_w half_h occ best center =
     (let r = maxRadiusAt half_w half_h occ center
      in if c_radius best + kEps < r \<or>
            (fabs (r - c_radius best) \<le> kEps \<and> lengthSquared center < lengthSquared (c_center best))
         then \<lparr>c_center = center, c_radius = r\<rparr> else best)"

text \<open>The vertices on the line through a pair of centres.\<close>

definition consider_pair ::
  "scalar \<Rightarrow> scalar \<Rightarrow> occupied \<Rightarrow> Vector2D \<times> scalar \<Rightarrow> Circle \<Rightarrow> Vector2D \<times> scalar \<Rightarrow> Circle" where
  "consider_pair half_w half_h occ a best b =
     (let pa = fst a; ra = snd a; pb = fst b; rb = snd b;
          delta = vsub pb pa;
          dist = vlength delta
      in if dist < kEps then best
         else
           let dir = vscale delta (Fin 1 / dist);
               t = (dist + ra - rb) * Fin (1 / 2);
               best = (if Fin 0 \<le> t \<and> t \<le> dist
                       then consider_center half_w half_h occ best (vadd pa (vscale dir t)) else best);
               best = consider_center half_w half_h occ best (vsub pa (vscale dir ra))
           in consider_center half_w half_h occ best (vadd pb (vscale dir rb)))"

text \<open>The best point between a circle and each border of the world.\<close>

definition consider_edges ::
  "scalar \<Rightarrow> scalar \<Rightarrow> occupied \<Rightarrow> Vector2D \<times> scalar \<Rightarrow> Circle \<Rightarrow> Circle" where
  "consider_edges half_w half_h occ a best =
     (let pa = fst a; ra = snd a;
          best = consider_center half_w half_h occ best
                   (mkvec (vx pa + (half_w - vx pa + ra) * Fin (1 / 2)) (vy pa));
          best = consider_center half_w half_h occ best
                   (mkvec (vx pa - (half_w + vx pa + ra) * Fin (1 / 2)) (vy pa));
          best = consider_center half_w half_h occ best
                   (mkvec (vx pa) (vy pa + (half_h - vy pa + ra) * Fin (1 / 2)))
      in consider_center half_w half_h occ best
           (mkvec (vx pa) (vy pa - (half_h + vy pa + ra) * Fin (1 / 2))))"

fun consider_circles ::
  "scalar \<Rightarrow> scalar \<Rightarrow> occupied \<Rightarrow> Circle \<Rightarrow> occupied \<Rightarrow> Circle" where
  "consider_circles half_w half_h occ best [] = best"
| "consider_circles half_w half_h occ best (a # rest) =
     consider_circles half_w half_h occ
       (consider_edges half_w half_h occ a
         (foldl (consider_pair half_w half_h occ a) best rest)) rest"

definition largestEmptyCircle :: "occupied \<Rightarrow> scalar \<Rightarrow> scalar \<Rightarrow> Circle" where
  "largestEmptyCircle occ world_width world_height =
     (let half_w = world_width * Fin (1 / 2);
          half_h = world_height * Fin (1 / 2)
      in if occ = [] then \<lparr>c_center = fvec 0 0, c_radius = std_min half_w half_h\<rparr>
         else
           let best = \<lparr>c_center = fvec 0 0, c_radius = Fin (- 1)\<rparr>;
               best = consider_circles half_w half_h occ best occ;
               best = consider_center half_w half_h occ best (fvec 0 0);
               best = (if c_radius best < Fin 0
                       then \<lparr>c_center = fvec 0 0, c_radius = Fin 0\<rparr> else best)
           in best\<lparr>c_radius := std_max (Fin 0) (c_radius best - kFreeCircleMargin)\<rparr>)"

section \<open>Soundness: the circle found is free\<close>

text \<open>Finite occupied circles, and what it means for a circle to be free of them.\<close>

definition fin_occ :: "(real \<times> real \<times> real) list \<Rightarrow> occupied" where
  "fin_occ os = map (\<lambda>(x, y, r). (fvec x y, Fin r)) os"

lemma fin_occ_simps [simp]:
  "fin_occ [] = []" "fin_occ ((x, y, r) # os) = (fvec x y, Fin r) # fin_occ os"
  "fin_occ os = [] \<longleftrightarrow> os = []"
  by (simp_all add: fin_occ_def)

definition clear_of :: "real \<Rightarrow> real \<Rightarrow> real \<Rightarrow> (real \<times> real \<times> real) list \<Rightarrow> bool" where
  "clear_of x y R os \<longleftrightarrow> (\<forall>(px, py, pr) \<in> set os. R + pr \<le> euclid_dist x y px py)"

lemma clear_of_mono: "clear_of x y R os \<Longrightarrow> R' \<le> R \<Longrightarrow> clear_of x y R' os"
  by (fastforce simp: clear_of_def)

lemma clear_of_Cons:
  "clear_of x y R ((px, py, pr) # os) \<longleftrightarrow> R + pr \<le> euclid_dist x y px py \<and> clear_of x y R os"
  by (simp add: clear_of_def)

lemma shrink_radius_fin:
  "\<exists>r'. shrink_radius (fvec x y) (Fin r) (fvec px py, Fin pr) = Fin r' \<and> r' \<le> r
     \<and> (0 < r' \<longrightarrow> 0 \<le> pr \<longrightarrow> r' + pr \<le> euclid_dist x y px py)"
proof -
  let ?q = "(x - px) * (x - px) + (y - py) * (y - py)"
  have q: "0 \<le> ?q" by simp
  show ?thesis
  proof (cases "?q < (r + pr) * (r + pr)")
    case True
    then have "shrink_radius (fvec x y) (Fin r) (fvec px py, Fin pr) = Fin (min r (sqrt ?q - pr))"
      using q [THEN leD] by (auto simp: shrink_radius_def Let_def min_def)
    then show ?thesis
      by (intro exI [of _ "min r (sqrt ?q - pr)"]) (auto simp: euclid_dist_def min_def)
  next
    case False
    then have "shrink_radius (fvec x y) (Fin r) (fvec px py, Fin pr) = Fin r"
      by (simp add: shrink_radius_def Let_def)
    moreover have "r + pr \<le> euclid_dist x y px py" if "0 < r" "0 \<le> pr"
      unfolding euclid_dist_def using False that by (intro real_le_rsqrt) (simp add: power2_eq_square)
    ultimately show ?thesis by simp
  qed
qed

lemma shrink_all_fin:
  assumes "\<forall>(px, py, pr) \<in> set os. 0 \<le> pr"
  shows "\<exists>r'. foldl (shrink_radius (fvec x y)) (Fin r) (fin_occ os) = Fin r' \<and> r' \<le> r
     \<and> (0 < r' \<longrightarrow> clear_of x y r' os)"
  using assms
proof (induction os arbitrary: r)
  case Nil
  then show ?case by (simp add: clear_of_def)
next
  case (Cons p os)
  obtain px py pr where p: "p = (px, py, pr)" by (cases p)
  obtain r1 where r1: "shrink_radius (fvec x y) (Fin r) (fvec px py, Fin pr) = Fin r1" "r1 \<le> r"
      "0 < r1 \<longrightarrow> 0 \<le> pr \<longrightarrow> r1 + pr \<le> euclid_dist x y px py"
    using shrink_radius_fin by blast
  obtain r' where r': "foldl (shrink_radius (fvec x y)) (Fin r1) (fin_occ os) = Fin r'" "r' \<le> r1"
      "0 < r' \<longrightarrow> clear_of x y r' os"
    using Cons.IH [of r1] Cons.prems by auto
  have "0 < r' \<longrightarrow> clear_of x y r' (p # os)"
    using r1(3) r'(2,3) Cons.prems by (auto simp: p clear_of_Cons)
  with r1 r' show ?case by (auto simp: p)
qed

lemma maxRadiusAt_fin:
  assumes "\<forall>(px, py, pr) \<in> set os. 0 \<le> pr"
  shows "\<exists>r. maxRadiusAt (Fin a) (Fin b) (fin_occ os) (fvec x y) = Fin r \<and> 0 \<le> r
     \<and> (0 < r \<longrightarrow> \<bar>x\<bar> + r \<le> a \<and> \<bar>y\<bar> + r \<le> b \<and> clear_of x y r os)"
proof -
  let ?r0 = "min (a - \<bar>x\<bar>) (b - \<bar>y\<bar>)"
  obtain r' where r': "foldl (shrink_radius (fvec x y)) (Fin ?r0) (fin_occ os) = Fin r'"
      "r' \<le> ?r0" "0 < r' \<longrightarrow> clear_of x y r' os"
    using shrink_all_fin [OF assms] by blast
  then have "maxRadiusAt (Fin a) (Fin b) (fin_occ os) (fvec x y) = Fin (max r' 0)"
    by (simp add: maxRadiusAt_def Let_def)
  moreover have "0 < max r' 0 \<longrightarrow> \<bar>x\<bar> + max r' 0 \<le> a \<and> \<bar>y\<bar> + max r' 0 \<le> b \<and> clear_of x y (max r' 0) os"
    using r'(2,3) by (auto simp: max_def)
  ultimately show ?thesis by (intro exI [of _ "max r' 0"]) simp
qed

text \<open>The invariant of the search: the best circle so far has a finite centre, and its radius
  is the free radius there (or it is the initial sentinel).\<close>

definition best_ok :: "scalar \<Rightarrow> scalar \<Rightarrow> occupied \<Rightarrow> Circle \<Rightarrow> bool" where
  "best_ok hw hh occ best \<longleftrightarrow> (\<exists>x y. c_center best = fvec x y \<and>
     (c_radius best = Fin (- 1) \<or> c_radius best = maxRadiusAt hw hh occ (fvec x y)))"

lemma best_ok_consider_center: "best_ok hw hh occ best \<Longrightarrow> best_ok hw hh occ (consider_center hw hh occ best (fvec x y))"
  by (auto simp: best_ok_def consider_center_def Let_def)

lemma best_ok_consider_pair:
  assumes "best_ok hw hh occ best"
  shows "best_ok hw hh occ (consider_pair hw hh occ (fvec x y, Fin r) best (fvec x' y', Fin r'))"
proof -
  let ?d = "sqrt ((x' - x) * (x' - x) + (y' - y) * (y' - y))"
  show ?thesis
  proof (cases "?d < 1 / 10 ^ 12")
    case True
    with assms show ?thesis by (simp add: consider_pair_def kEps_def Let_def)
  next
    case False
    then have "?d \<noteq> 0" by (intro notI) simp
    let ?delta = "vsub (fvec x' y') (fvec x y)"
    have dir: "vscale ?delta (Fin 1 / vlength ?delta) = fvec ((x' - x) * (1 / ?d)) ((y' - y) * (1 / ?d))"
      using \<open>?d \<noteq> 0\<close> by auto
    have t: "(vlength ?delta + Fin r - Fin r') * Fin (1 / 2) = Fin ((?d + r - r') * (1 / 2))"
      by simp
    show ?thesis
      unfolding consider_pair_def Let_def fst_conv snd_conv dir t
      by (simp add: best_ok_consider_center assms del: times_divide_eq_right)
  qed
qed

lemma best_ok_consider_edges:
  "best_ok (Fin a) (Fin b) occ best \<Longrightarrow>
   best_ok (Fin a) (Fin b) occ (consider_edges (Fin a) (Fin b) occ (fvec x y, Fin r) best)"
  by (simp add: consider_edges_def Let_def best_ok_consider_center)

lemma best_ok_consider_circles:
  "best_ok (Fin a) (Fin b) occ best \<Longrightarrow>
   best_ok (Fin a) (Fin b) occ (consider_circles (Fin a) (Fin b) occ best (fin_occ os))"
proof (induction os arbitrary: best)
  case (Cons p os)
  obtain x y r where p: "p = (x, y, r)" by (cases p)
  have "best_ok (Fin a) (Fin b) occ (foldl (consider_pair (Fin a) (Fin b) occ (fvec x y, Fin r)) best (fin_occ os))"
    using Cons.prems by (induction os arbitrary: best) (auto simp: best_ok_consider_pair)
  then show ?case
    unfolding p fin_occ_simps consider_circles.simps
    by (intro Cons.IH best_ok_consider_edges)
qed simp

text \<open>C36.  The circle that is found lies in the world and is strictly disjoint from every
  occupied circle (by the margin the source subtracts); a radius of zero says that no free
  circle was found.\<close>

theorem largestEmptyCircle_free:
  assumes "0 < w" "0 < h" "\<forall>(px, py, pr) \<in> set os. 0 \<le> pr"
  shows "\<exists>x y R. largestEmptyCircle (fin_occ os) (Fin w) (Fin h) = \<lparr>c_center = fvec x y, c_radius = Fin R\<rparr>
     \<and> 0 \<le> R \<and> (0 < R \<longrightarrow> \<bar>x\<bar> + R \<le> w / 2 \<and> \<bar>y\<bar> + R \<le> h / 2 \<and> clear_of x y (R + 1 / 10 ^ 6) os)"
proof (cases "os = []")
  case True
  then show ?thesis
    using assms by (auto simp: largestEmptyCircle_def Let_def clear_of_def)
next
  case False
  let ?occ = "fin_occ os" and ?a = "Fin (w / 2)" and ?b = "Fin (h / 2)"
  define best where "best = consider_center ?a ?b ?occ
    (consider_circles ?a ?b ?occ \<lparr>c_center = fvec 0 0, c_radius = Fin (- 1)\<rparr> ?occ) (fvec 0 0)"
  have "best_ok ?a ?b ?occ best"
    unfolding best_def
    by (intro best_ok_consider_center best_ok_consider_circles) (simp add: best_ok_def)
  then obtain x y where c: "c_center best = fvec x y"
      and rad: "c_radius best = Fin (- 1) \<or> c_radius best = maxRadiusAt ?a ?b ?occ (fvec x y)"
    by (auto simp: best_ok_def)
  obtain r where r: "maxRadiusAt ?a ?b ?occ (fvec x y) = Fin r" "0 \<le> r"
      "0 < r \<longrightarrow> \<bar>x\<bar> + r \<le> w / 2 \<and> \<bar>y\<bar> + r \<le> h / 2 \<and> clear_of x y r os"
    using maxRadiusAt_fin [OF assms(3)] by blast
  have res: "largestEmptyCircle ?occ (Fin w) (Fin h) =
      (let best = (if c_radius best < Fin 0 then \<lparr>c_center = fvec 0 0, c_radius = Fin 0\<rparr> else best)
       in best\<lparr>c_radius := std_max (Fin 0) (c_radius best - kFreeCircleMargin)\<rparr>)"
    using False by (simp add: largestEmptyCircle_def Let_def best_def)
  from rad show ?thesis
  proof
    assume "c_radius best = Fin (- 1)"
    then have "largestEmptyCircle ?occ (Fin w) (Fin h) = \<lparr>c_center = fvec 0 0, c_radius = Fin 0\<rparr>"
      unfolding res by (simp add: kFreeCircleMargin_def)
    then show ?thesis by (intro exI [of _ 0]) simp
  next
    assume "c_radius best = maxRadiusAt ?a ?b ?occ (fvec x y)"
    then have lec: "largestEmptyCircle ?occ (Fin w) (Fin h)
        = \<lparr>c_center = fvec x y, c_radius = Fin (max 0 (r - 1 / 10 ^ 6))\<rparr>"
      unfolding res using r(1,2) c
      by (cases best) (simp add: kFreeCircleMargin_def)
    let ?R = "max 0 (r - 1 / 10 ^ 6)"
    have "\<bar>x\<bar> + ?R \<le> w / 2 \<and> \<bar>y\<bar> + ?R \<le> h / 2 \<and> clear_of x y (?R + 1 / 10 ^ 6) os" if "0 < ?R"
    proof -
      from that have R: "?R + 1 / 10 ^ 6 = r" by (simp add: max_def split: if_splits)
      then have "?R \<le> r" and "0 < r" using r(2) by simp_all
      with r(3) R show ?thesis by auto
    qed
    then show ?thesis using lec by (intro exI [of _ x] exI [of _ y] exI [of _ ?R]) simp
  qed
qed

theorem largestEmptyCircle_free_witness:
  "\<exists>x y R. largestEmptyCircle (fin_occ [(0, 0, 5)]) (Fin 100) (Fin 100) = \<lparr>c_center = fvec x y, c_radius = Fin R\<rparr>
     \<and> 0 \<le> R \<and> (0 < R \<longrightarrow> \<bar>x\<bar> + R \<le> 100 / 2 \<and> \<bar>y\<bar> + R \<le> 100 / 2 \<and> clear_of x y (R + 1 / 10 ^ 6) [(0, 0, 5)])"
  by (rule largestEmptyCircle_free) simp_all

end
