(* ===== verification/SnapshotSerder.thy ===== *)
theory SnapshotSerder
  imports EntityUtils ByteIO
begin

text \<open>
  src/src/common/entity_snapshot_serder.cpp: one entity as a FlatBuffer.  The code that the
  FlatBuffers compiler generates from src/schemas and the FlatBuffers library are not in the
  repository; what the source uses of them is the parameter \<open>fb\<close>: building a finished buffer
  from the table contents, the identifier test, the verifier and reading the root table back.
  The records below are the tables of the schema, an enumeration as its \<open>ubyte\<close>, optional
  fields as options.
\<close>

record WireTransform =
  wt_position :: "(scalar \<times> scalar) option"
  wt_velocity :: "(scalar \<times> scalar) option"
  wt_angle :: scalar

record WireShip =
  ws_name :: "string option"
  ws_score :: u32
  ws_thrust_power :: scalar
  ws_drag :: scalar
  ws_is_thrusting :: bool
  ws_frags :: u16

record WireEntity =
  w_id :: u64
  w_type :: byte
  w_mass :: scalar
  w_radius :: scalar
  w_is_destroyed :: bool
  w_transform :: "WireTransform option"
  w_ship :: "WireShip option"
  w_health :: "(u16 \<times> u16) option"
  w_combat :: "(u16 \<times> u64) option"
  w_asteroid :: "u16 option"

record flatbuffers =
  fb_build :: "WireEntity \<Rightarrow> byte list"
  fb_has_identifier :: "byte list \<Rightarrow> bool"
  fb_verify :: "byte list \<Rightarrow> bool"
  fb_root :: "byte list \<Rightarrow> WireEntity"

text \<open>What FlatBuffers documents, for the contents of one buffer: a finished buffer with a
  file identifier has it after the root offset, passes the verifier, and its accessors return
  what was written.\<close>

definition fb_faithful :: "flatbuffers \<Rightarrow> WireEntity \<Rightarrow> bool" where
  "fb_faithful fb w \<longleftrightarrow> 8 \<le> length (fb_build fb w) \<and> fb_has_identifier fb (fb_build fb w)
     \<and> fb_verify fb (fb_build fb w) \<and> fb_root fb (fb_build fb w) = w"

section \<open>Enumeration\<close>

definition kMinFlatBufferSize :: nat where "kMinFlatBufferSize = 4 + 4"
definition kEnumBullet :: byte where "kEnumBullet = 3"

definition ToWire :: "EntityType \<Rightarrow> byte" where
  "ToWire t = (case t of EtNone \<Rightarrow> 0 | EtShip \<Rightarrow> 1 | EtAsteroid \<Rightarrow> 2 | EtBullet \<Rightarrow> 3)"

definition FromWire :: "byte \<Rightarrow> EntityType" where
  "FromWire val =
     (if kEnumBullet < val then EtNone
      else if val = 0 then EtNone else if val = 1 then EtShip else if val = 2 then EtAsteroid
      else EtBullet)"

lemma FromWire_ToWire [simp]: "FromWire (ToWire t) = t"
  by (cases t) (simp_all add: FromWire_def ToWire_def kEnumBullet_def)

section \<open>Entities\<close>

definition toWireEntity :: "EntitySnapshot \<Rightarrow> WireEntity" where
  "toWireEntity dto =
     \<lparr>w_id = s_id dto, w_type = ToWire (s_type dto), w_mass = s_mass dto, w_radius = s_radius dto,
      w_is_destroyed = s_is_destroyed dto,
      w_transform = map_option (\<lambda>t.
        \<lparr>wt_position = Some (vx (ts_position t), vy (ts_position t)),
         wt_velocity = Some (vx (ts_velocity t), vy (ts_velocity t)), wt_angle = ts_angle t\<rparr>) (s_transform dto),
      w_ship = map_option (\<lambda>s.
        \<lparr>ws_name = Some (ss_name s), ws_score = ss_score s, ws_thrust_power = ss_thrust_power s,
         ws_drag = ss_drag s, ws_is_thrusting = ss_is_thrusting s, ws_frags = ss_frags s\<rparr>) (s_ship dto),
      w_health = map_option (\<lambda>h. (hs_current h, hs_max h)) (s_health dto),
      w_combat = map_option (\<lambda>c. (cs_damage c, cs_owner_id c)) (s_combat dto),
      w_asteroid = map_option ast_score_reward (s_asteroid dto)\<rparr>"

definition SerializeEntity :: "flatbuffers \<Rightarrow> EntitySnapshot \<Rightarrow> byte list" where
  "SerializeEntity fb dto = fb_build fb (toWireEntity dto)"

text \<open>Copying the root table; a transform without its structs is malformed.\<close>

definition fromWireEntity :: "WireEntity \<Rightarrow> EntitySnapshot option" where
  "fromWireEntity w =
     (let dto = \<lparr>s_id = w_id w, s_type = FromWire (w_type w), s_mass = w_mass w, s_radius = w_radius w,
            s_is_destroyed = w_is_destroyed w, s_transform = None,
            s_ship = map_option (\<lambda>s.
              \<lparr>ss_name = (case ws_name s of Some n \<Rightarrow> n | None \<Rightarrow> []), ss_score = ws_score s,
               ss_thrust_power = ws_thrust_power s, ss_drag = ws_drag s,
               ss_is_thrusting = ws_is_thrusting s, ss_frags = ws_frags s\<rparr>) (w_ship w),
            s_health = map_option (\<lambda>(c, m). \<lparr>hs_current = c, hs_max = m\<rparr>) (w_health w),
            s_combat = map_option (\<lambda>(d, owner). \<lparr>cs_damage = d, cs_owner_id = owner\<rparr>) (w_combat w),
            s_asteroid = map_option (\<lambda>r. \<lparr>ast_score_reward = r\<rparr>) (w_asteroid w)\<rparr>
      in case w_transform w of
           None \<Rightarrow> Some dto
         | Some t \<Rightarrow> (case (wt_position t, wt_velocity t) of
               (Some pos, Some vel) \<Rightarrow>
                 Some (dto\<lparr>s_transform := Some \<lparr>ts_position = mkvec (fst pos) (snd pos),
                    ts_velocity = mkvec (fst vel) (snd vel), ts_angle = wt_angle t\<rparr>\<rparr>)
             | _ \<Rightarrow> None))"

definition DeserializeEntity :: "flatbuffers \<Rightarrow> byte list \<Rightarrow> EntitySnapshot option" where
  "DeserializeEntity fb data =
     (if data = [] then None
      else if length data < kMinFlatBufferSize then None
      else if \<not> fb_has_identifier fb data then None
      else if \<not> fb_verify fb data then None
      else fromWireEntity (fb_root fb data))"

lemma fromWireEntity_toWireEntity: "fromWireEntity (toWireEntity dto) = Some dto"
proof -
  have "map_option (\<lambda>s. \<lparr>ss_name = ss_name s, ss_score = ss_score s, ss_thrust_power = ss_thrust_power s,
      ss_drag = ss_drag s, ss_is_thrusting = ss_is_thrusting s, ss_frags = ss_frags s\<rparr>) x = x" for x
    by (cases x) simp_all
  moreover have "map_option (\<lambda>h. \<lparr>hs_current = hs_current h, hs_max = hs_max h\<rparr>) x = x" for x
    by (cases x) simp_all
  moreover have "map_option (\<lambda>c. \<lparr>cs_damage = cs_damage c, cs_owner_id = cs_owner_id c\<rparr>) x = x" for x
    by (cases x) simp_all
  moreover have "map_option (\<lambda>a. \<lparr>ast_score_reward = ast_score_reward a\<rparr>) x = x" for x
    by (cases x) simp_all
  ultimately show ?thesis
    by (cases dto; cases "s_transform dto")
      (simp_all add: fromWireEntity_def toWireEntity_def option.map_comp comp_def Let_def)
qed

lemma Deserialize_Serialize_entity:
  "fb_faithful fb (toWireEntity dto) \<Longrightarrow> DeserializeEntity fb (SerializeEntity fb dto) = Some dto"
  by (auto simp: DeserializeEntity_def SerializeEntity_def fb_faithful_def kMinFlatBufferSize_def
      fromWireEntity_toWireEntity)

end
