(* ===== verification/GameSnapshot.thy ===== *)
theory GameSnapshot
  imports SnapshotSerder Config
begin

text \<open>
  src/src/common/game_snapshot.h and game_snapshot.cpp: the snapshot of one tick with the
  leaderboard, its byte format and the strict parser of that format.
\<close>

record LeaderboardEntry =
  le_name :: string
  le_score :: u32

record GameSnapshot =
  gs_snapshots :: "EntitySnapshot list"
  gs_leaderboard :: "LeaderboardEntry list"
  gs_tick_number :: u32

section \<open>Serialisation\<close>

definition name_buf :: "string \<Rightarrow> byte list" where
  "name_buf nm =
     (let copy_len = min (length nm) 32
      in to_bytes (take copy_len nm) @ replicate (32 - copy_len) 0)"

fun writeLeaderboard :: "LeaderboardEntry list \<Rightarrow> byte list \<Rightarrow> byte list" where
  "writeLeaderboard [] w = w"
| "writeLeaderboard (entry # rest) w =
     writeLeaderboard rest (writeU32 (le_score entry) (writeBytes (name_buf (le_name entry)) w))"

fun writeEntities :: "flatbuffers \<Rightarrow> EntitySnapshot list \<Rightarrow> byte list \<Rightarrow> exn + byte list" where
  "writeEntities fb [] w = Inr w"
| "writeEntities fb (entity # rest) w =
     (let bytes = SerializeEntity fb entity
      in if 0xFFFFFFFF < length bytes
         then Inl (LengthError ''GameSnapshot::Serialize: entity payload is too large'')
         else writeEntities fb rest (writeBytes bytes (writeU32 (of_nat (length bytes)) w)))"

definition Serialize :: "flatbuffers \<Rightarrow> GameSnapshot \<Rightarrow> exn + byte list" where
  "Serialize fb g =
     (if 0xFFFFFFFF < length (gs_snapshots g)
      then Inl (LengthError ''GameSnapshot::Serialize: too many entities'')
      else if 0xFFFFFFFF < length (gs_leaderboard g)
      then Inl (LengthError ''GameSnapshot::Serialize: too many leaderboard entries'')
      else
        let w = writeU32 (gs_tick_number g) [];
            w = writeU32 (of_nat (length (gs_leaderboard g))) w;
            w = writeLeaderboard (gs_leaderboard g) w;
            w = writeU32 (of_nat (length (gs_snapshots g))) w
        in writeEntities fb (gs_snapshots g) w)"

section \<open>Parsing\<close>

fun readLeaderboard :: "nat \<Rightarrow> byte list \<Rightarrow> exn + LeaderboardEntry list \<times> byte list" where
  "readLeaderboard 0 r = Inr ([], r)"
| "readLeaderboard (Suc n) r =
     and_then (readBytes 32 r) (\<lambda>(name_bytes, r).
     and_then (readU32 r) (\<lambda>(score, r).
     and_then (readLeaderboard n r) (\<lambda>(rest, r).
       Inr (\<lparr>le_name = before_char NUL (to_text name_bytes), le_score = score\<rparr> # rest, r))))"

fun readEntities :: "flatbuffers \<Rightarrow> nat \<Rightarrow> byte list \<Rightarrow> exn + EntitySnapshot list \<times> byte list" where
  "readEntities fb 0 r = Inr ([], r)"
| "readEntities fb (Suc n) r =
     and_then (readU32 r) (\<lambda>(payload_size, r).
     and_then (readBytes (unat payload_size) r) (\<lambda>(payload, r).
       case DeserializeEntity fb payload of
         None \<Rightarrow> Inl (InvalidArgument ''GameSnapshot::Deserialize: invalid entity payload'')
       | Some entity \<Rightarrow> and_then (readEntities fb n r) (\<lambda>(rest, r). Inr (entity # rest, r))))"

definition kMinLeaderboardEntrySize :: nat where "kMinLeaderboardEntrySize = 32 + 4"

text \<open>The two sections of the input, each with its count check.\<close>

definition readLeaderboardSection :: "byte list \<Rightarrow> exn + LeaderboardEntry list \<times> byte list" where
  "readLeaderboardSection r =
     and_then (readU32 r) (\<lambda>(leaderboard_count, r).
       if kMaxLeaderboardSize < unat leaderboard_count
          \<or> length r div kMinLeaderboardEntrySize < unat leaderboard_count
       then Inl (InvalidArgument ''GameSnapshot::Deserialize: impossible leaderboard count'')
       else readLeaderboard (unat leaderboard_count) r)"

definition readEntitySection :: "flatbuffers \<Rightarrow> byte list \<Rightarrow> exn + EntitySnapshot list \<times> byte list" where
  "readEntitySection fb r =
     and_then (readU32 r) (\<lambda>(entity_count, r).
       if length r div 4 < unat entity_count
       then Inl (InvalidArgument ''GameSnapshot::Deserialize: impossible entity count'')
       else readEntities fb (unat entity_count) r)"

definition Deserialize :: "flatbuffers \<Rightarrow> byte list \<Rightarrow> exn + GameSnapshot" where
  "Deserialize fb buffer =
     and_then (readU32 buffer) (\<lambda>(tick_number, r).
     and_then (readLeaderboardSection r) (\<lambda>(leaderboard, r).
     and_then (readEntitySection fb r) (\<lambda>(snapshots, r).
     and_then (requireEnd r) (\<lambda>_.
       Inr \<lparr>gs_snapshots = snapshots, gs_leaderboard = leaderboard, gs_tick_number = tick_number\<rparr>))))"

section \<open>Reading what was written\<close>

text \<open>The name as the receiver sees it.\<close>

definition wire_name :: "string \<Rightarrow> string" where
  "wire_name nm = before_char NUL (take 32 nm)"

lemma length_name_buf: "length (name_buf nm) = 32"
  by (simp add: name_buf_def Let_def)

lemma wire_name_buf: "before_char NUL (to_text (name_buf nm)) = wire_name nm"
proof -
  have "to_text (replicate k 0) = replicate k NUL" for k
    by (simp add: to_text_def char_of_byte_def NUL_def)
  then have buf: "to_text (name_buf nm) = take 32 nm @ replicate (32 - min (length nm) 32) NUL"
    by (simp add: name_buf_def Let_def min_def)
  show ?thesis
  proof (cases "NUL \<in> set (take 32 nm)")
    case True
    then obtain u t where "take 32 nm = u @ NUL # t" "NUL \<notin> set u" by (metis split_list_first)
    then show ?thesis by (simp add: buf wire_name_def before_char_append)
  next
    case False
    then show ?thesis by (simp add: buf wire_name_def before_char_replicate before_char_id)
  qed
qed

definition seen_entry :: "LeaderboardEntry \<Rightarrow> LeaderboardEntry" where
  "seen_entry e = e\<lparr>le_name := wire_name (le_name e)\<rparr>"

definition entry_bytes :: "LeaderboardEntry \<Rightarrow> byte list" where
  "entry_bytes e = name_buf (le_name e) @ be_bytes (le_score e)"

lemma writeLeaderboard_eq: "writeLeaderboard es w = w @ concat (map entry_bytes es)"
  by (induction es arbitrary: w) (simp_all add: writeU32_eq writeBytes_def entry_bytes_def)

lemma length_entry_bytes: "length (entry_bytes e) = 36"
  by (simp add: entry_bytes_def length_name_buf be.length_store)

lemma length_entries: "length (concat (map entry_bytes es)) = 36 * length es"
  by (induction es) (simp_all add: length_entry_bytes)

lemma readLeaderboard_entries:
  "readLeaderboard (length es) (concat (map entry_bytes es) @ r) = Inr (map seen_entry es, r)"
proof (induction es)
  case (Cons e es)
  have "readBytes 32 (name_buf (le_name e) @ be_bytes (le_score e) @ concat (map entry_bytes es) @ r)
      = Inr (name_buf (le_name e), be_bytes (le_score e) @ concat (map entry_bytes es) @ r)"
    by (rule readBytes_append) (rule length_name_buf)
  then show ?case
    using Cons.IH by (simp add: entry_bytes_def [of e] seen_entry_def [of e] wire_name_buf)
qed simp

definition entity_bytes :: "flatbuffers \<Rightarrow> EntitySnapshot \<Rightarrow> byte list" where
  "entity_bytes fb e = be_bytes (of_nat (length (SerializeEntity fb e))) @ SerializeEntity fb e"

text \<open>An entity that FlatBuffers represents faithfully in a buffer of 32-bit size.\<close>

definition fb_entity_ok :: "flatbuffers \<Rightarrow> EntitySnapshot \<Rightarrow> bool" where
  "fb_entity_ok fb e \<longleftrightarrow> fb_faithful fb (toWireEntity e) \<and> length (SerializeEntity fb e) \<le> 0xFFFFFFFF"

lemma writeEntities_eq:
  "\<forall>e\<in>set es. fb_entity_ok fb e \<Longrightarrow> writeEntities fb es w = Inr (w @ concat (map (entity_bytes fb) es))"
  by (induction es arbitrary: w)
    (simp_all add: writeU32_eq writeBytes_def entity_bytes_def fb_entity_ok_def Let_def)

lemma length_entities: "4 * length es \<le> length (concat (map (entity_bytes fb) es))"
  by (induction es) (simp_all add: entity_bytes_def be.length_store)

lemma readEntities_entities:
  "\<forall>e\<in>set es. fb_entity_ok fb e \<Longrightarrow>
   readEntities fb (length es) (concat (map (entity_bytes fb) es) @ r) = Inr (es, r)"
proof (induction es)
  case (Cons e es)
  let ?b = "SerializeEntity fb e" and ?rest = "concat (map (entity_bytes fb) es) @ r"
  have n: "unat (of_nat (length ?b) :: u32) = length ?b"
    using Cons.prems by (simp add: fb_entity_ok_def unat_of_nat)
  have "readBytes (length ?b) (?b @ ?rest) = Inr (?b, ?rest)" by (rule readBytes_append) simp
  then show ?case
    using Cons Deserialize_Serialize_entity [of fb e] n by (simp add: entity_bytes_def fb_entity_ok_def)
qed simp

lemma serialize_parse:
  assumes "length (gs_leaderboard g) \<le> kMaxLeaderboardSize" "length (gs_snapshots g) \<le> 0xFFFFFFFF"
    "\<forall>e\<in>set (gs_snapshots g). fb_entity_ok fb e"
  shows "\<exists>bytes. Serialize fb g = Inr bytes
    \<and> Deserialize fb bytes = Inr (g\<lparr>gs_leaderboard := map seen_entry (gs_leaderboard g)\<rparr>)"
proof -
  let ?L = "gs_leaderboard g" and ?S = "gs_snapshots g"
  let ?lb = "concat (map entry_bytes ?L)" and ?eb = "concat (map (entity_bytes fb) ?S)"
  let ?body = "be_bytes (of_nat (length ?L)) @ ?lb @ be_bytes (of_nat (length ?S)) @ ?eb"
  have l: "length ?L \<le> 10" using assms(1) by (simp add: kMaxLeaderboardSize_def)
  have ser: "Serialize fb g = Inr (be_bytes (gs_tick_number g) @ ?body)"
    using assms l by (simp add: Serialize_def writeU32_eq writeLeaderboard_eq writeEntities_eq Let_def)
  have n: "unat (of_nat (length ?L) :: u32) = length ?L" "unat (of_nat (length ?S) :: u32) = length ?S"
    using l assms(2) by (simp_all add: unat_of_nat)
  have "36 * length ?L div 36 = length ?L" by simp
  moreover have "36 * length ?L \<le> length (?lb @ be_bytes (of_nat (length ?S)) @ ?eb)"
    by (simp add: length_entries)
  ultimately have "length ?L \<le> length (?lb @ be_bytes (of_nat (length ?S)) @ ?eb) div 36"
    by (metis div_le_mono)
  then have "readLeaderboardSection ?body = Inr (map seen_entry ?L, be_bytes (of_nat (length ?S)) @ ?eb)"
    using n(1) l readLeaderboard_entries [of ?L "be_bytes (of_nat (length ?S)) @ ?eb"]
    by (simp add: readLeaderboardSection_def kMaxLeaderboardSize_def kMinLeaderboardEntrySize_def not_less)
  moreover have "length ?S \<le> length ?eb div 4"
    using div_le_mono [OF length_entities [of ?S fb], of 4] by simp
  then have "readEntitySection fb (be_bytes (of_nat (length ?S)) @ ?eb) = Inr (?S, [])"
    using n(2) readEntities_entities [OF assms(3), of "[]"] by (simp add: readEntitySection_def not_less)
  ultimately have "Deserialize fb (be_bytes (gs_tick_number g) @ ?body)
      = Inr (g\<lparr>gs_leaderboard := map seen_entry ?L\<rparr>)"
    by (simp add: Deserialize_def requireEnd_def)
  with ser show ?thesis by blast
qed

text \<open>C25.  Round trip: a snapshot with at most ten leaderboard entries serialises, and parsing
  the bytes gives the same tick, entities, scores and order; only leaderboard names are cut at
  32 bytes and at their first NUL.\<close>

theorem Deserialize_Serialize:
  assumes "length (gs_leaderboard g) \<le> kMaxLeaderboardSize" "length (gs_snapshots g) \<le> 0xFFFFFFFF"
    "\<forall>e\<in>set (gs_snapshots g). fb_entity_ok fb e"
  shows "\<exists>bytes. Serialize fb g = Inr bytes
    \<and> Deserialize fb bytes = Inr (g\<lparr>gs_leaderboard := map seen_entry (gs_leaderboard g)\<rparr>)"
  by (rule serialize_parse [OF assms])

section \<open>The parser is strict\<close>

text \<open>Reading does not look past what it consumes.\<close>

lemma local_reader_leaderboard: "local_reader (readLeaderboard n)"
proof (induction n)
  case (Suc n)
  then have "local_reader (\<lambda>r. and_then (readBytes 32 r) (\<lambda>(name_bytes, r).
     and_then (readU32 r) (\<lambda>(score, r). and_then (readLeaderboard n r) (\<lambda>(rest, r).
       Inr (\<lparr>le_name = before_char NUL (to_text name_bytes), le_score = score\<rparr> # rest, r)))))"
    by (intro local_reader_intros)
  then show ?case by (simp add: local_reader_def)
qed (simp add: local_reader_def)

lemma local_reader_entities: "local_reader (readEntities fb n)"
proof (induction n)
  case (Suc n)
  have "local_reader (\<lambda>r. case DeserializeEntity fb payload of
         None \<Rightarrow> Inl (InvalidArgument ''GameSnapshot::Deserialize: invalid entity payload'')
       | Some entity \<Rightarrow> and_then (readEntities fb n r) (\<lambda>(rest, r). Inr (entity # rest, r)))" for payload
  proof (cases "DeserializeEntity fb payload")
    case (Some entity)
    have "local_reader (\<lambda>r. and_then (readEntities fb n r) (\<lambda>(rest, r). Inr (entity # rest, r)))"
      using Suc by (intro local_reader_intros)
    with Some show ?thesis by simp
  qed (simp add: local_reader_fail)
  then have "local_reader (\<lambda>r. and_then (readU32 r) (\<lambda>(payload_size, r).
     and_then (readBytes (unat payload_size) r) (\<lambda>(payload, r). case DeserializeEntity fb payload of
         None \<Rightarrow> Inl (InvalidArgument ''GameSnapshot::Deserialize: invalid entity payload'')
       | Some entity \<Rightarrow> and_then (readEntities fb n r) (\<lambda>(rest, r). Inr (entity # rest, r)))))"
    by (intro local_reader_bind local_reader_u32 local_reader_bytes)
  then show ?case by (simp add: local_reader_def)
qed (simp add: local_reader_def)

lemma local_reader_leaderboard_section: "local_reader readLeaderboardSection"
  unfolding readLeaderboardSection_def [abs_def]
  by (intro local_reader_bind local_reader_guard local_reader_u32 local_reader_leaderboard)

lemma local_reader_entity_section: "local_reader (readEntitySection fb)"
  unfolding readEntitySection_def [abs_def]
  by (intro local_reader_bind local_reader_guard [where P = False, simplified] local_reader_u32
      local_reader_entities)

lemma readLeaderboard_length: "readLeaderboard n u = Inr (es, r) \<Longrightarrow> length es = n"
  by (induction n arbitrary: u es) (auto simp: and_then_Inr_iff)

text \<open>C26.  The parser accepts no proper extension and no proper prefix of an input it accepts:
  trailing bytes are rejected as such, and what it returns has at most ten leaderboard entries.\<close>

theorem Deserialize_strict:
  assumes "Deserialize fb buffer = Inr g"
  shows "(x \<noteq> [] \<longrightarrow> Deserialize fb (buffer @ x) = Inl (InvalidArgument ''GameSnapshot::Deserialize: trailing bytes''))
    \<and> (buffer = p @ y \<and> y \<noteq> [] \<longrightarrow> (\<exists>e. Deserialize fb p = Inl e))
    \<and> length (gs_leaderboard g) \<le> 10"
proof -
  have ext: "Deserialize fb (b @ z) = Inl (InvalidArgument ''GameSnapshot::Deserialize: trailing bytes'')"
    if "Deserialize fb b = Inr h" "z \<noteq> []" for b z h
  proof -
    from that(1) obtain t r1 lb r2 es where
      "readU32 b = Inr (t, r1)" "readLeaderboardSection r1 = Inr (lb, r2)" "readEntitySection fb r2 = Inr (es, [])"
      by (auto simp: Deserialize_def and_then_Inr_iff requireEnd_def split: if_splits)
    then show ?thesis
      using local_readerD [OF local_reader_u32, of b t r1 z]
        local_readerD [OF local_reader_leaderboard_section, of r1 lb r2 z]
        local_readerD [OF local_reader_entity_section, of fb r2 es "[]" z] that(2)
      by (simp add: Deserialize_def requireEnd_def)
  qed
  have "\<exists>e. Deserialize fb p = Inl e" if "buffer = p @ y" "y \<noteq> []"
  proof (cases "Deserialize fb p")
    case (Inr h)
    with ext [OF Inr that(2)] assms that(1) show ?thesis by simp
  qed simp
  moreover have "length (gs_leaderboard g) \<le> 10"
    using assms by (auto simp: Deserialize_def readLeaderboardSection_def kMaxLeaderboardSize_def
        and_then_Inr_iff split: if_splits dest!: readLeaderboard_length)
  ultimately show ?thesis using ext [OF assms] by blast
qed

section \<open>Witnesses\<close>

text \<open>A buffer format that represents entities without components by their identifier.\<close>

definition bare_entity :: "u64 \<Rightarrow> EntitySnapshot" where
  "bare_entity i = \<lparr>s_id = i, s_type = EtBullet, s_mass = Fin 1, s_radius = Fin 2, s_is_destroyed = False,
     s_transform = None, s_ship = None, s_health = None, s_combat = None, s_asteroid = None\<rparr>"

definition sample_fb :: flatbuffers where
  "sample_fb = \<lparr>fb_build = (\<lambda>w. [0, 0, 0, 0, 69, 83, 78, 80] @ be_bytes (ucast (w_id w))),
     fb_has_identifier = (\<lambda>bs. take 4 (drop 4 bs) = [69, 83, 78, 80]),
     fb_verify = (\<lambda>bs. length bs = 12),
     fb_root = (\<lambda>bs. toWireEntity (bare_entity (ucast (be_value (drop 8 bs)))))\<rparr>"

definition sample_snapshot :: GameSnapshot where
  "sample_snapshot = \<lparr>gs_snapshots = [bare_entity 5, bare_entity 6],
     gs_leaderboard = [\<lparr>le_name = ''Ann'', le_score = 30\<rparr>], gs_tick_number = 7\<rparr>"

lemma sample_snapshot_ok: "\<forall>e\<in>set (gs_snapshots sample_snapshot). fb_entity_ok sample_fb e"
  by (simp add: sample_snapshot_def sample_fb_def fb_entity_ok_def fb_faithful_def SerializeEntity_def
      be.length_store be_value_bytes toWireEntity_def bare_entity_def)

theorem Deserialize_Serialize_witness:
  "\<exists>bytes. Serialize sample_fb sample_snapshot = Inr bytes
    \<and> Deserialize sample_fb bytes = Inr (sample_snapshot\<lparr>gs_leaderboard := map seen_entry (gs_leaderboard sample_snapshot)\<rparr>)"
  by (rule Deserialize_Serialize [OF _ _ sample_snapshot_ok])
    (simp_all add: sample_snapshot_def kMaxLeaderboardSize_def)

theorem Deserialize_strict_witness:
  "Deserialize sample_fb ([0, 0, 0, 9, 0, 0, 0, 0, 0, 0, 0, 0] @ [1])
     = Inl (InvalidArgument ''GameSnapshot::Deserialize: trailing bytes'')
   \<and> (\<exists>e. Deserialize sample_fb [0, 0, 0, 9, 0, 0, 0] = Inl e)"
proof -
  have "Deserialize sample_fb [0, 0, 0, 9, 0, 0, 0, 0, 0, 0, 0, 0]
      = Inr \<lparr>gs_snapshots = [], gs_leaderboard = [], gs_tick_number = 9\<rparr>"
    by (simp add: Deserialize_def readLeaderboardSection_def readEntitySection_def readU32_def
        require_bytes_def be_value_def requireEnd_def)
  from Deserialize_strict [OF this, of "[1]" "[0, 0, 0, 9, 0, 0, 0]" "[0, 0, 0, 0, 0]"] show ?thesis by simp
qed

end
