(* ===== verification/World.thy ===== *)
theory World
  imports CollisionUtils AsteroidFactory EmptyCircle GameSnapshot Events
begin

text \<open>
  src/src/server/world_instance.h and world_instance.cpp: the simulation.  This theory holds
  the state and every step of a tick, in the order \<open>runTickStep\<close> calls them; the facts about
  them are in WorldSteps and WorldTick, the life cycle of the loop is in WorldLoop.  Events that
  a step publishes are returned in order; a step that can throw returns the exception with the
  state it had reached.  \<open>session_to_ship_\<close> is iterated over, so it is an association list.
\<close>

section \<open>State\<close>

datatype ActionType = AcUnknown | AcPlayerJoin | AcPlayerQuit | AcMoveAndShoot | AcRespawn

record ActionEvent =
  ac_session_id :: SessionId
  ac_type :: ActionType
  ac_move_direction :: Vector2D
  ac_target_point :: Vector2D
  ac_angle :: scalar
  ac_is_shooting :: bool
  ac_player_name :: string

definition ActionEvent_default :: ActionEvent where
  "ActionEvent_default = \<lparr>ac_session_id = 0, ac_type = AcUnknown, ac_move_direction = vzero,
     ac_target_point = vzero, ac_angle = Fin 0, ac_is_shooting = False, ac_player_name = []\<rparr>"

record PendingJoin =
  pj_session_id :: SessionId
  pj_player_name :: string

datatype WorldState = Stopped | Running

record World =
  wi_current_tick :: u64
  wi_action_queue :: "ActionEvent ThreadSafeQueue"
  wi_entities :: EntityPool
  wi_snapshot_buffer :: "EntitySnapshot list"
  wi_tick_interval :: int
  wi_width :: scalar
  wi_height :: scalar
  wi_state :: WorldState
  wi_session_to_ship :: "(SessionId \<times> EntityId) list"

text \<open>The conversion of a duration to whole microseconds truncates; for a non-finite number
  it is undefined in the source and zero here.\<close>

fun to_micros :: "scalar \<Rightarrow> int" where
  "to_micros (Fin s) = (if 0 \<le> s then \<lfloor>s * 1000000\<rfloor> else \<lceil>s * 1000000\<rceil>)"
| "to_micros _ = 0"

definition WorldInstance_ctor :: "bool \<Rightarrow> scalar \<Rightarrow> scalar \<Rightarrow> scalar \<Rightarrow> exn + World" where
  "WorldInstance_ctor has_event_bus tick_rate_hz world_width world_height =
     (if \<not> has_event_bus then Inl (InvalidArgument ''WorldInstance: event_bus must not be nullptr'')
      else if tick_rate_hz \<le> Fin 0 then Inl (InvalidArgument ''WorldInstance: tick_rate_hz must be positive'')
      else if world_width \<le> Fin 0 \<or> world_height \<le> Fin 0
      then Inl (InvalidArgument ''WorldInstance: world_width and world_height must be positive'')
      else
        let tick_interval = to_micros (Fin 1 / tick_rate_hz);
            tick_interval = (if tick_interval < 1 then 1 else tick_interval)
        in Inr \<lparr>wi_current_tick = 0, wi_action_queue = [], wi_entities = EntityPool_init,
                wi_snapshot_buffer = [], wi_tick_interval = tick_interval, wi_width = world_width,
                wi_height = world_height, wi_state = Stopped, wi_session_to_ship = []\<rparr>)"

section \<open>Actions\<close>

definition enqueueAction :: "ActionEvent \<Rightarrow> World \<Rightarrow> World" where
  "enqueueAction action w = w\<lparr>wi_action_queue := queue_push action (wi_action_queue w)\<rparr>"

definition onClientDisconnected :: "SessionId \<Rightarrow> World \<Rightarrow> World" where
  "onClientDisconnected sid =
     enqueueAction (ActionEvent_default\<lparr>ac_type := AcPlayerQuit, ac_session_id := sid\<rparr>)"

definition onPlayerJoin :: "SessionId \<Rightarrow> string \<Rightarrow> World \<Rightarrow> World" where
  "onPlayerJoin sid login =
     enqueueAction (ActionEvent_default\<lparr>ac_type := AcPlayerJoin, ac_session_id := sid,
       ac_player_name := login\<rparr>)"

definition onShotReceived :: "SessionId \<Rightarrow> World \<Rightarrow> World" where
  "onShotReceived sid =
     enqueueAction (ActionEvent_default\<lparr>ac_type := AcMoveAndShoot, ac_session_id := sid,
       ac_is_shooting := True\<rparr>)"

definition onPlayerMove :: "SessionId \<Rightarrow> scalar \<Rightarrow> World \<Rightarrow> World" where
  "onPlayerMove sid angle =
     enqueueAction (ActionEvent_default\<lparr>ac_type := AcMoveAndShoot, ac_session_id := sid,
       ac_angle := angle\<rparr>)"

text \<open>The callbacks of \<open>setupSubscriptions\<close>; other events do not reach the world.\<close>

definition world_on_event :: "event \<Rightarrow> World \<Rightarrow> World" where
  "world_on_event ev w =
     (case ev of
        ClientDisconnectedEvent sid \<Rightarrow> onClientDisconnected sid w
      | PlayerJoinEvent sid login \<Rightarrow> onPlayerJoin sid login w
      | ShotMessageEvent sid \<Rightarrow> onShotReceived sid w
      | PlayerMoveEvent sid angle \<Rightarrow> onPlayerMove sid angle w
      | _ \<Rightarrow> w)"

section \<open>The input queue\<close>

definition slot_of :: "World \<Rightarrow> nat \<Rightarrow> Entity option" where
  "slot_of w i = p_storage (wi_entities w) ! i"

definition put_entity :: "nat \<Rightarrow> Entity \<Rightarrow> World \<Rightarrow> World" where
  "put_entity i e w = w\<lparr>wi_entities := put_slot i e (wi_entities w)\<rparr>"

definition acquire_entity :: "World \<Rightarrow> nat \<times> World" where
  "acquire_entity w = (let (i, p) = acquire (wi_entities w) in (i, w\<lparr>wi_entities := p\<rparr>))"

text \<open>The bullet a ship fires, written into the acquired entity.\<close>

definition makeBullet :: "Entity \<Rightarrow> TransformComponent \<Rightarrow> EntityId \<Rightarrow> Entity \<Rightarrow> Entity" where
  "makeBullet ship t ship_id bullet =
     (let direction = mkvec (fcos (t_angle t)) (fsin (t_angle t))
      in bullet\<lparr>e_type := EtBullet, e_radius := kBulletRadius,
           e_transform := Some (TransformComponent_default\<lparr>
             t_position := vadd (t_position t) (vscale direction (e_radius ship)),
             t_velocity := vscale direction kBulletSpeed\<rparr>),
           e_combat := Some \<lparr>co_damage = ucast kBulletDamage, co_owner_id = ship_id\<rparr>\<rparr>)"

definition playerJoin :: "ActionEvent \<Rightarrow> PendingJoin list \<Rightarrow> PendingJoin list" where
  "playerJoin action new_players =
     (if \<exists>p\<in>set new_players. pj_session_id p = ac_session_id action then new_players
      else new_players @ [\<lparr>pj_session_id = ac_session_id action, pj_player_name = ac_player_name action\<rparr>])"

definition playerQuit :: "ActionEvent \<Rightarrow> World \<Rightarrow> World" where
  "playerQuit action w =
     (case map_of (wi_session_to_ship w) (ac_session_id action) of
        None \<Rightarrow> w
      | Some ship_id \<Rightarrow>
          let w = (case findByEntityID (wi_entities w) ship_id of
                     None \<Rightarrow> w
                   | Some i \<Rightarrow> put_entity i ((the (slot_of w i))\<lparr>e_isDestroyed := True\<rparr>) w)
          in w\<lparr>wi_session_to_ship := AList.delete (ac_session_id action) (wi_session_to_ship w)\<rparr>)"

definition moveAndShoot :: "ActionEvent \<Rightarrow> World \<Rightarrow> World" where
  "moveAndShoot action w =
     (case map_of (wi_session_to_ship w) (ac_session_id action) of
        None \<Rightarrow> w
      | Some ship_id \<Rightarrow> (case findByEntityID (wi_entities w) ship_id of
          None \<Rightarrow> w
        | Some i \<Rightarrow>
            let ship = the (slot_of w i)
            in case e_transform ship of
                 None \<Rightarrow> w
               | Some t \<Rightarrow>
                   let t = t\<lparr>t_angle := ac_angle action\<rparr>;
                       ship = ship\<lparr>e_transform := Some t\<rparr>;
                       w = put_entity i ship w
                   in if ac_is_shooting action
                      then let (b, w) = acquire_entity w
                           in put_entity b (makeBullet ship t ship_id (the (slot_of w b))) w
                      else w))"

definition processAction :: "ActionEvent \<Rightarrow> World \<times> PendingJoin list \<Rightarrow> World \<times> PendingJoin list" where
  "processAction action st =
     (case ac_type action of
        AcPlayerJoin \<Rightarrow> (fst st, playerJoin action (snd st))
      | AcPlayerQuit \<Rightarrow> (playerQuit action (fst st), snd st)
      | AcMoveAndShoot \<Rightarrow> (moveAndShoot action (fst st), snd st)
      | _ \<Rightarrow> st)"

definition processInputQueue :: "World \<Rightarrow> World \<times> PendingJoin list" where
  "processInputQueue w =
     (let (queued_actions, q) = queue_drain (wi_action_queue w)
      in fold processAction queued_actions (w\<lparr>wi_action_queue := q\<rparr>, []))"

section \<open>Physics\<close>

definition updatePhysics :: "scalar \<Rightarrow> World \<Rightarrow> World" where
  "updatePhysics dt w = w\<lparr>wi_entities := move_pool dt (wi_width w) (wi_height w) (wi_entities w)\<rparr>"

section \<open>Collisions\<close>

definition mayCollide :: "EntityType \<Rightarrow> EntityType \<Rightarrow> bool" where
  "mayCollide a b =
     (if a = EtNone \<or> b = EtNone then False
      else if a = EtBullet \<and> b = EtBullet then False
      else if a = EtAsteroid \<and> b = EtAsteroid then False
      else True)"

datatype GrowStatus = CanGrow | CannotFit | InvalidInput

definition tryGrowShip :: "World \<Rightarrow> Vector2D \<Rightarrow> scalar \<Rightarrow> GrowStatus \<times> Vector2D" where
  "tryGrowShip w position radius =
     (if \<not> isfinite (vx position) \<or> \<not> isfinite (vy position) \<or> \<not> isfinite radius \<or> radius < Fin 0
         \<or> \<not> isfinite (wi_width w) \<or> \<not> isfinite (wi_height w) \<or> wi_width w \<le> Fin 0 \<or> wi_height w \<le> Fin 0
      then (InvalidInput, position)
      else
        let position = clampToWorldBounds position (wi_width w) (wi_height w)
        in if circleIntersectsOppositeWorldBounds position radius (wi_width w) (wi_height w)
           then (CannotFit, position) else (CanGrow, position))"

text \<open>The closure of \<open>onCollisionShipAsteroid\<close>, with the captured status.\<close>

definition can_grow_in :: "World \<Rightarrow> GrowStatus growth" where
  "can_grow_in w status position radius =
     (let (grow_status, position) = tryGrowShip w position radius
      in (grow_status = CanGrow, position, grow_status))"

definition world_ShipAsteroid :: "nat \<Rightarrow> nat \<Rightarrow> World \<Rightarrow> World" where
  "world_ShipAsteroid i j w =
     (let (ship, asteroid, grow_status) =
            onCollisionShipAsteroid (can_grow_in w) (the (slot_of w i)) (the (slot_of w j)) CanGrow;
          ship = (if grow_status = CannotFit then ship\<lparr>e_isDestroyed := True\<rparr> else ship)
      in put_entity j asteroid (put_entity i ship w))"

definition world_ShipShip :: "nat \<Rightarrow> nat \<Rightarrow> World \<Rightarrow> World" where
  "world_ShipShip i j w =
     (let (ship1, ship2) = onCollisionShipShip (the (slot_of w i)) (the (slot_of w j))
      in put_entity j ship2 (put_entity i ship1 w))"

text \<open>The search for the bullet's owner among the entities that are not destroyed.\<close>

fun awardOwner :: "EntityId \<Rightarrow> bool \<Rightarrow> Entity option list \<Rightarrow> Entity option list" where
  "awardOwner owner_id ship_destroyed [] = []"
| "awardOwner owner_id ship_destroyed (slot # slots) =
     (case slot of
        None \<Rightarrow> slot # awardOwner owner_id ship_destroyed slots
      | Some e \<Rightarrow>
          if e_isDestroyed e \<or> e_id e \<noteq> owner_id then slot # awardOwner owner_id ship_destroyed slots
          else case e_ship e of
            Some sc \<Rightarrow>
              if e_type e \<noteq> EtShip then slot # slots
              else Some (e\<lparr>e_ship := Some (addScore sc (if ship_destroyed then 50 else 5))\<rparr>) # slots
          | None \<Rightarrow> slot # slots)"

definition world_BulletShip :: "nat \<Rightarrow> nat \<Rightarrow> World \<Rightarrow> World" where
  "world_BulletShip i j w =
     (let (proj, ship, hit) = onCollisionBulletShip (the (slot_of w i)) (the (slot_of w j));
          w = put_entity j ship (put_entity i proj w)
      in case hit of
           None \<Rightarrow> w
         | Some (owner_id, ship_destroyed) \<Rightarrow>
             w\<lparr>wi_entities := (wi_entities w)\<lparr>p_storage :=
               awardOwner owner_id ship_destroyed (p_storage (wi_entities w))\<rparr>\<rparr>)"

text \<open>Not implemented in the source: bullets pass through asteroids.\<close>

definition world_BulletAsteroid :: "nat \<Rightarrow> nat \<Rightarrow> World \<Rightarrow> World" where
  "world_BulletAsteroid i j w = w"

definition dispatchCollision :: "nat \<Rightarrow> nat \<Rightarrow> World \<Rightarrow> World" where
  "dispatchCollision i j w =
     (let ta = e_type (the (slot_of w i)); tb = e_type (the (slot_of w j))
      in if ta = EtShip \<and> tb = EtShip then world_ShipShip i j w
         else if ta = EtShip \<and> tb = EtAsteroid then world_ShipAsteroid i j w
         else if ta = EtAsteroid \<and> tb = EtShip then world_ShipAsteroid j i w
         else if ta = EtBullet \<and> tb = EtShip then world_BulletShip i j w
         else if ta = EtShip \<and> tb = EtBullet then world_BulletShip j i w
         else if ta = EtBullet \<and> tb = EtAsteroid then world_BulletAsteroid i j w
         else if ta = EtAsteroid \<and> tb = EtBullet then world_BulletAsteroid j i w
         else w)"

text \<open>The inner loop over the later slots, for the entity in slot \<open>i\<close>; it ends when that
  entity has been destroyed or a check throws.\<close>

fun collideInner :: "nat \<Rightarrow> nat list \<Rightarrow> World \<Rightarrow> World \<times> exn option" where
  "collideInner i [] w = (w, None)"
| "collideInner i (j # js) w =
     (let a = the (slot_of w i)
      in if e_isDestroyed a then (w, None)
         else case slot_of w j of
           None \<Rightarrow> collideInner i js w
         | Some b \<Rightarrow>
             if e_isDestroyed b \<or> e_transform b = None then collideInner i js w
             else if \<not> mayCollide (e_type a) (e_type b) then collideInner i js w
             else case checkCircleCollision (t_position (the (e_transform a))) (e_radius a)
                         (t_position (the (e_transform b))) (e_radius b) of
                 Inl e \<Rightarrow> (w, Some e)
               | Inr hit \<Rightarrow>
                   if \<not> hit then collideInner i js w
                   else collideInner i js (dispatchCollision i j w))"

fun collideOuter :: "nat \<Rightarrow> nat list \<Rightarrow> World \<Rightarrow> World \<times> exn option" where
  "collideOuter n [] w = (w, None)"
| "collideOuter n (i # is) w =
     (case slot_of w i of
        None \<Rightarrow> collideOuter n is w
      | Some a \<Rightarrow>
          if e_isDestroyed a \<or> e_transform a = None then collideOuter n is w
          else case collideInner i [i + 1..<n] w of
              (w, Some e) \<Rightarrow> (w, Some e)
            | (w, None) \<Rightarrow> collideOuter n is w)"

section \<open>Destroyed ships\<close>

text \<open>The pass over the sessions: an event for each session whose ship is destroyed, and the
  sessions that stay.  (The loop after it in the source only logs.)\<close>

fun reapSessions :: "EntityId set \<Rightarrow> (SessionId \<times> EntityId) list \<Rightarrow> event list \<times> (SessionId \<times> EntityId) list" where
  "reapSessions destroyed_ids [] = ([], [])"
| "reapSessions destroyed_ids ((sid, eid) # rest) =
     (let (evs, kept) = reapSessions destroyed_ids rest
      in if eid \<in> destroyed_ids then (ShipDestroyedEvent sid # evs, kept)
         else (evs, (sid, eid) # kept))"

definition destroyed_ids :: "Entity option list \<Rightarrow> EntityId set" where
  "destroyed_ids storage = set (concat (map (\<lambda>opt. case opt of
       None \<Rightarrow> [] | Some e \<Rightarrow> if e_isDestroyed e then [e_id e] else []) storage))"

definition reapDestroyedShips :: "World \<Rightarrow> World \<times> event list" where
  "reapDestroyedShips w =
     (let (evs, sessions) = reapSessions (destroyed_ids (p_storage (wi_entities w))) (wi_session_to_ship w)
      in (w\<lparr>wi_session_to_ship := sessions, wi_entities := recycleDestroyed (wi_entities w)\<rparr>, evs))"

definition resolveCollisions :: "World \<Rightarrow> World \<times> event list \<times> exn option" where
  "resolveCollisions w =
     (let n = length (p_storage (wi_entities w))
      in case collideOuter n [0..<n] w of
           (w, Some e) \<Rightarrow> (w, [], Some e)
         | (w, None) \<Rightarrow> (let (w, evs) = reapDestroyedShips w in (w, evs, None)))"

section \<open>Population and new ships\<close>

definition collectLiveEntities :: "EntityPool \<Rightarrow> Entity list" where
  "collectLiveEntities pool =
     map the (filter (\<lambda>slot. isActive slot \<and> e_transform (the slot) \<noteq> None \<and> \<not> e_radius (the slot) \<le> Fin 0)
       (p_storage pool))"

definition freePosition :: "World \<Rightarrow> Circle" where
  "freePosition w =
     largestEmptyCircle (map (\<lambda>e. (t_position (the (e_transform e)), e_radius e))
       (collectLiveEntities (wi_entities w))) (wi_width w) (wi_height w)"

definition maintainAsteroidPopulation :: "'g uniform \<Rightarrow> World \<Rightarrow> 'g \<Rightarrow> (World \<times> 'g) option" where
  "maintainAsteroidPopulation uniform w g =
     (case AsteroidFactory_update uniform (freePosition w) (wi_entities w) g of
        None \<Rightarrow> None
      | Some (p, g) \<Rightarrow> Some (w\<lparr>wi_entities := p\<rparr>, g))"

text \<open>The name field: at most 31 characters, the rest NUL.\<close>

definition ship_name :: "string \<Rightarrow> string" where
  "ship_name player_name =
     (let len = min (length player_name) 31
      in take len player_name @ replicate (32 - len) NUL)"

definition makeShip :: "PendingJoin \<Rightarrow> Circle \<Rightarrow> Entity \<Rightarrow> Entity" where
  "makeShip join area entity =
     entity\<lparr>e_type := EtShip, e_mass := kShipDefaultMass, e_radius := kShipDefaultRadius,
       e_transform := Some \<lparr>t_position = c_center area, t_velocity = vzero, t_angle = Fin 0\<rparr>,
       e_ship := Some (ShipComponent_default\<lparr>sh_name := ship_name (pj_player_name join),
         sh_thrust_power := kShipDefaultThrustPower, sh_drag := kShipDefaultDrag, sh_is_thrusting := True\<rparr>),
       e_health := Some \<lparr>h_current = kShipDefaultHealth, h_max = kShipDefaultHealth\<rparr>,
       e_combat := Some \<lparr>co_damage = kShipDefaultDamage, co_owner_id = e_id entity\<rparr>\<rparr>"

definition spawnShip :: "PendingJoin \<Rightarrow> World \<Rightarrow> World" where
  "spawnShip join w =
     (let area = freePosition w;
          (i, w) = acquire_entity w;
          ship = makeShip join area (the (slot_of w i));
          w = put_entity i ship w
      in w\<lparr>wi_session_to_ship := AList.update (pj_session_id join) (e_id ship) (wi_session_to_ship w)\<rparr>)"

definition spawnShips :: "PendingJoin list \<Rightarrow> World \<Rightarrow> World" where
  "spawnShips new_players w = fold spawnShip new_players w"

section \<open>Snapshots\<close>

definition leaderboardEntries :: "Entity option list \<Rightarrow> LeaderboardEntry list" where
  "leaderboardEntries storage = concat (map (\<lambda>slot. case slot of
       None \<Rightarrow> []
     | Some e \<Rightarrow> (case (e_ship e, e_health e) of
         (Some sc, Some h) \<Rightarrow>
           if e_type e = EtShip \<and> 0 < h_current h \<and> \<not> e_isDestroyed e
           then [\<lparr>le_name = before_char NUL (sh_name sc), le_score = sh_score sc\<rparr>] else []
       | _ \<Rightarrow> [])) storage)"

text \<open>\<open>std::partial_sort\<close> leaves the order of equal scores open; here it is the order of the
  slots.\<close>

definition buildLeaderboard :: "World \<Rightarrow> LeaderboardEntry list" where
  "buildLeaderboard w =
     (let top_players = leaderboardEntries (p_storage (wi_entities w));
          top_count = min kMaxLeaderboardSize (length top_players)
      in take top_count (sort_key (\<lambda>e. - int (unat (le_score e))) top_players))"

definition buildGameSnapshot :: "World \<Rightarrow> GameSnapshot \<times> World" where
  "buildGameSnapshot w =
     (let w = w\<lparr>wi_snapshot_buffer := buildEntitySnapshots (wi_entities w)\<rparr>
      in (\<lparr>gs_snapshots = wi_snapshot_buffer w, gs_leaderboard = buildLeaderboard w,
           gs_tick_number = ucast (wi_current_tick w)\<rparr>, w))"

definition broadcastSnapshot :: "flatbuffers \<Rightarrow> GameSnapshot \<Rightarrow> World \<Rightarrow> World \<times> event list \<times> exn option" where
  "broadcastSnapshot fb g w =
     (case Serialize fb g of
        Inl e \<Rightarrow> (w, [], Some e)
      | Inr payload \<Rightarrow>
          (w\<lparr>wi_entities := recycleDestroyed (wi_entities w)\<rparr>, [SendPacketEvent 0 payload], None))"

section \<open>The tick\<close>

definition tick_dt :: "World \<Rightarrow> scalar" where
  "tick_dt w = Fin (of_int (wi_tick_interval w)) / Fin 1000000"

text \<open>\<open>runTickStep\<close> catches what its steps throw: the tick then ends where it was.  The
  result is \<open>None\<close> if the asteroid loop does not return.\<close>

definition runTickStep :: "'g uniform \<Rightarrow> flatbuffers \<Rightarrow> World \<Rightarrow> 'g \<Rightarrow> (World \<times> event list \<times> 'g) option" where
  "runTickStep uniform fb w g =
     (let (w, new_players) = processInputQueue w;
          w = updatePhysics (tick_dt w) w;
          (w, evs, err) = resolveCollisions w
      in if err \<noteq> None then Some (w, evs, g)
         else case maintainAsteroidPopulation uniform w g of
           None \<Rightarrow> None
         | Some (w, g) \<Rightarrow>
             let w = spawnShips new_players w;
                 (snap, w) = buildGameSnapshot w;
                 (w, evs', err) = broadcastSnapshot fb snap w
             in Some (w, evs @ evs', g))"

end
