(* ===== verification/WorldSteps.thy ===== *)
theory WorldSteps
  imports World
begin

text \<open>
  What the steps of a tick keep.  A step that only changes entities relates the storages slot
  by slot with \<open>evolves\<close> (\<open>steps_to\<close>); the invariant \<open>world_inv\<close> then follows once for
  all of them, and the steps that acquire or recycle slots are treated one by one.
\<close>

section \<open>Slot-wise changes\<close>

abbreviation storage_evolves :: "Entity option list \<Rightarrow> Entity option list \<Rightarrow> bool" where
  "storage_evolves \<equiv> list_all2 (rel_option evolves)"

lemma storage_evolves_refl: "storage_evolves st st"
  by (rule list.rel_refl, rule option.rel_refl, rule evolves_refl)

lemma storage_evolves_trans:
  "storage_evolves a b \<Longrightarrow> storage_evolves b c \<Longrightarrow> storage_evolves a c"
  by (rule list_all2_trans [OF _ ]) (auto elim!: option.rel_cases intro: evolves_trans)

lemma storage_evolvesD:
  assumes "storage_evolves st st'" "i < length st"
  shows "st' ! i = None \<longleftrightarrow> st ! i = None" "st ! i = Some e \<Longrightarrow> \<exists>e'. st' ! i = Some e' \<and> evolves e e'"
    "st' ! i = Some e' \<Longrightarrow> \<exists>e. st ! i = Some e \<and> evolves e e'" "length st' = length st"
proof -
  have "rel_option evolves (st ! i) (st' ! i)" using list_all2_nthD [OF assms] .
  then show "st' ! i = None \<longleftrightarrow> st ! i = None" "st ! i = Some e \<Longrightarrow> \<exists>e'. st' ! i = Some e' \<and> evolves e e'"
    "st' ! i = Some e' \<Longrightarrow> \<exists>e. st ! i = Some e \<and> evolves e e'"
    by (auto elim: option.rel_cases)
  show "length st' = length st" using list_all2_lengthD [OF assms(1)] by simp
qed

lemma storage_evolves_update:
  "i < length st \<Longrightarrow> st ! i = Some d \<Longrightarrow> evolves d e \<Longrightarrow> storage_evolves st (st[i := Some e])"
  by (auto simp: list_all2_conv_all_nth nth_list_update option.rel_refl)

lemma storage_evolves_map:
  "(\<And>e. evolves e (f e)) \<Longrightarrow> storage_evolves st (map (map_option f) st)"
  by (simp add: list_all2_conv_all_nth option.rel_map option.rel_refl)

lemma pool_inv_evolves:
  assumes "pool_inv p" "storage_evolves (p_storage p) st'"
  shows "pool_inv (p\<lparr>p_storage := st'\<rparr>)"
proof -
  let ?S = "p_storage p"
  note inv = assms(1) [unfolded pool_inv_alt] and len = list_all2_lengthD [OF assms(2)]
  note D = storage_evolvesD [OF assms(2)]
  have "free_ok st' (p_free p)" using inv D(1) len by (auto simp: free_ok_def)
  moreover have "index_ok st' (p_index p)"
    unfolding index_ok_def
  proof (intro allI)
    fix k i
    have "p_index p k = Some i \<longleftrightarrow> i < length ?S \<and> (\<exists>e. ?S ! i = Some e \<and> e_id e = k)"
      using inv unfolding index_ok_def by blast
    also have "\<dots> \<longleftrightarrow> i < length st' \<and> (\<exists>e. st' ! i = Some e \<and> e_id e = k)"
      using D(2,3) len unfolding evolves_def by (metis (no_types, lifting))
    finally show "p_index p k = Some i \<longleftrightarrow> i < length st' \<and> (\<exists>e. st' ! i = Some e \<and> e_id e = k)" .
  qed
  moreover have "e_id e < p_next_id p" if "Some e \<in> set st'" for e
  proof -
    from that obtain i where "i < length st'" "st' ! i = Some e" by (auto simp: in_set_conv_nth)
    with D(3) len obtain d where "i < length ?S" "?S ! i = Some d" "evolves d e" by (metis (no_types))
    with inv show ?thesis unfolding evolves_def by (metis nth_mem)
  qed
  ultimately show ?thesis by (simp add: pool_inv_alt)
qed

text \<open>A step of the world that changes only entities, slot by slot.\<close>

definition steps_to :: "World \<Rightarrow> World \<Rightarrow> bool" where
  "steps_to w w' \<longleftrightarrow> (\<exists>st'. w' = w\<lparr>wi_entities := (wi_entities w)\<lparr>p_storage := st'\<rparr>\<rparr>
     \<and> storage_evolves (p_storage (wi_entities w)) st')"

lemma steps_to_refl: "steps_to w w"
  unfolding steps_to_def by (rule exI [of _ "p_storage (wi_entities w)"]) (simp add: storage_evolves_refl)

lemma steps_to_trans: "steps_to a b \<Longrightarrow> steps_to b c \<Longrightarrow> steps_to a c"
  unfolding steps_to_def by (fastforce intro: storage_evolves_trans)

lemma steps_toD:
  assumes "steps_to w w'"
  shows "storage_evolves (p_storage (wi_entities w)) (p_storage (wi_entities w'))"
    "wi_session_to_ship w' = wi_session_to_ship w" "wi_width w' = wi_width w" "wi_height w' = wi_height w"
    "wi_action_queue w' = wi_action_queue w" "wi_current_tick w' = wi_current_tick w"
    "wi_tick_interval w' = wi_tick_interval w" "wi_state w' = wi_state w"
    "p_next_id (wi_entities w') = p_next_id (wi_entities w)"
    "length (p_storage (wi_entities w')) = length (p_storage (wi_entities w))"
  using assms list_all2_lengthD unfolding steps_to_def by fastforce+

lemma steps_to_put:
  "i < length (p_storage (wi_entities w)) \<Longrightarrow> slot_of w i = Some d \<Longrightarrow> evolves d e \<Longrightarrow>
   steps_to w (put_entity i e w)"
  unfolding steps_to_def put_entity_def put_slot_def slot_of_def
  using storage_evolves_update by fastforce

lemma slot_of_put:
  "i < length (p_storage (wi_entities w)) \<Longrightarrow> slot_of (put_entity i e w) j = (if j = i then Some e else slot_of w j)"
  by (auto simp: slot_of_def put_entity_def put_slot_def)

lemma steps_to_put2:
  assumes "i < length (p_storage (wi_entities w))" "j < length (p_storage (wi_entities w))" "i \<noteq> j"
    "slot_of w i = Some a" "slot_of w j = Some b" "evolves a a'" "evolves b b'"
  shows "steps_to w (put_entity j b' (put_entity i a' w))"
proof (rule steps_to_trans)
  show s: "steps_to w (put_entity i a' w)" using steps_to_put assms by blast
  show "steps_to (put_entity i a' w) (put_entity j b' (put_entity i a' w))"
    using assms steps_toD(10) [OF s] by (intro steps_to_put) (simp_all add: slot_of_put)
qed

section \<open>The collision loops\<close>

lemma awardOwner_evolves: "storage_evolves st (awardOwner owner d st)"
proof (induction owner d st rule: awardOwner.induct)
  case (2 owner d s st)
  have pay: "evolves e (e\<lparr>e_ship := Some sc'\<rparr>)" if "e_ship e = Some sc" for e sc sc'
    using that by (simp add: evolves_def entity_ok_def)
  have same: "rel_option evolves s s" by (simp add: option.rel_refl)
  show ?case
  proof (cases s)
    case None
    with 2(1) show ?thesis by simp
  next
    case (Some e)
    show ?thesis
    proof (cases "e_isDestroyed e \<or> e_id e \<noteq> owner")
      case True
      with 2(2) [OF Some True] Some show ?thesis by simp
    next
      case False
      then show ?thesis using Some pay storage_evolves_refl [of st] by (auto split: option.split)
    qed
  qed
qed simp

lemma dispatchCollision_steps:
  assumes "i < length (p_storage (wi_entities w))" "j < length (p_storage (wi_entities w))" "i \<noteq> j"
    "slot_of w i = Some a" "slot_of w j = Some b"
  shows "steps_to w (dispatchCollision i j w)"
proof -
  have SS: "steps_to w (world_ShipShip i j w)"
    using steps_to_put2 [OF assms] onCollisionShipShip_frame [of a b] assms(4,5)
    by (auto simp: world_ShipShip_def split: prod.split)
  have SA: "steps_to w (world_ShipAsteroid k l w)"
    if "k < length (p_storage (wi_entities w))" "l < length (p_storage (wi_entities w))" "k \<noteq> l"
      "slot_of w k = Some c" "slot_of w l = Some d" for k l c d
  proof -
    obtain c' d' gs where r: "onCollisionShipAsteroid (can_grow_in w) c d CanGrow = (c', d', gs)"
      using prod_cases3 by blast
    have "evolves c' (if gs = CannotFit then c'\<lparr>e_isDestroyed := True\<rparr> else c')"
      by (simp add: evolves_def entity_ok_def)
    with onCollisionShipAsteroid_frame [OF r] evolves_trans
    have "evolves c (if gs = CannotFit then c'\<lparr>e_isDestroyed := True\<rparr> else c')" "evolves d d'" by blast+
    from steps_to_put2 [OF that this] show ?thesis by (simp add: world_ShipAsteroid_def r that)
  qed
  have BS: "steps_to w (world_BulletShip k l w)"
    if "k < length (p_storage (wi_entities w))" "l < length (p_storage (wi_entities w))" "k \<noteq> l"
      "slot_of w k = Some c" "slot_of w l = Some d" for k l c d
  proof -
    obtain c' d' hit where r: "onCollisionBulletShip c d = (c', d', hit)" using prod_cases3 by blast
    have "evolves c c'" "evolves d d'" using onCollisionBulletShip_frame [OF r] by blast+
    note s = steps_to_put2 [OF that this]
    have "steps_to v (v\<lparr>wi_entities := (wi_entities v)\<lparr>p_storage := awardOwner k' b' (p_storage (wi_entities v))\<rparr>\<rparr>)"
      for v k' b' unfolding steps_to_def using awardOwner_evolves by blast
    with s show ?thesis
      by (auto simp: world_BulletShip_def r that Let_def split: option.split prod.split intro: steps_to_trans)
  qed
  show ?thesis
    using SS SA [OF assms] SA [OF assms(2,1) _ assms(5,4)] BS [OF assms] BS [OF assms(2,1) _ assms(5,4)] assms(3)
    by (auto simp: dispatchCollision_def Let_def world_BulletAsteroid_def steps_to_refl)
qed

text \<open>All entities of a storage have proper mass and radius.\<close>

definition entities_ok :: "Entity option list \<Rightarrow> bool" where
  "entities_ok st \<longleftrightarrow> (\<forall>e. Some e \<in> set st \<longrightarrow> entity_ok e)"

lemma entities_ok_nth: "entities_ok st \<Longrightarrow> i < length st \<Longrightarrow> st ! i = Some e \<Longrightarrow> entity_ok e"
  unfolding entities_ok_def by (metis nth_mem)

lemma entities_ok_evolves:
  assumes "entities_ok st" "storage_evolves st st'"
  shows "entities_ok st'"
  unfolding entities_ok_def
proof (intro allI impI)
  fix e' assume "Some e' \<in> set st'"
  then obtain i where i: "i < length st'" "st' ! i = Some e'" by (auto simp: in_set_conv_nth)
  have len: "length st' = length st" using list_all2_lengthD [OF assms(2)] by simp
  with storage_evolvesD(3) [OF assms(2), of i e'] i obtain e where "st ! i = Some e" "evolves e e'" by auto
  with entities_ok_nth [OF assms(1), of i e] i len show "entity_ok e'" by (simp add: evolves_def)
qed

lemma checkCircleCollision_no_throw:
  assumes "entity_ok a" "entity_ok b"
  shows "\<exists>hit. checkCircleCollision p (e_radius a) q (e_radius b) = Inr hit"
  using assms by (auto simp: entity_ok_def checkCircleCollision_def Let_def)

lemma collideInner_steps:
  assumes "i < length (p_storage (wi_entities w))" "slot_of w i = Some a"
    "\<forall>j\<in>set js. i < j \<and> j < length (p_storage (wi_entities w))"
  shows "steps_to w (fst (collideInner i js w))
    \<and> (entities_ok (p_storage (wi_entities w)) \<longrightarrow> snd (collideInner i js w) = None)"
  using assms
proof (induction i js w arbitrary: a rule: collideInner.induct)
  case (1 i w)
  show ?case by (simp add: steps_to_refl)
next
  case (2 i j js w)
  have js: "\<forall>j\<in>set js. i < j \<and> j < length (p_storage (wi_entities w))" and j: "i < j" "j < length (p_storage (wi_entities w))"
    using "2.prems"(3) by simp_all
  note IH = "2.IH"
  have a: "the (slot_of w i) = a" using "2.prems"(2) by simp
  show ?case
  proof (cases "e_isDestroyed a")
    case True
    then show ?thesis using a by (simp add: steps_to_refl)
  next
    case alive: False
    show ?thesis
    proof (cases "slot_of w j")
      case None
      then show ?thesis using IH(1) [OF refl _ None "2.prems"(1,2) js] alive a by simp
    next
      case b: (Some b)
      let ?chk = "checkCircleCollision (t_position (the (e_transform a))) (e_radius a)
          (t_position (the (e_transform b))) (e_radius b)"
      have ok: "entities_ok (p_storage (wi_entities w)) \<Longrightarrow> \<exists>hit. ?chk = Inr hit"
        using checkCircleCollision_no_throw entities_ok_nth "2.prems"(1,2) b j(2)
        unfolding slot_of_def by blast
      show ?thesis
      proof (cases "e_isDestroyed b \<or> e_transform b = None \<or> \<not> mayCollide (e_type a) (e_type b)")
        case True
        then show ?thesis
          using IH(2) [OF refl _ b _ "2.prems"(1,2) js] IH(3) [OF refl _ b _ _ "2.prems"(1,2) js] alive a b by auto
      next
        case False
        show ?thesis
        proof (cases ?chk)
          case (Inl e)
          with ok have "\<not> entities_ok (p_storage (wi_entities w))" by auto
          with Inl False alive a b show ?thesis by (auto simp: steps_to_refl)
        next
          case hit: (Inr hit)
          show ?thesis
          proof (cases hit)
            case no: False
            then show ?thesis
              using IH(4) [OF refl _ b _ _ _ _ "2.prems"(1,2) js] hit False alive a b by simp
          next
            case True
            let ?w' = "dispatchCollision i j w"
            have s: "steps_to w ?w'" using dispatchCollision_steps [OF "2.prems"(1) j(2) _ "2.prems"(2) b] j(1) by simp
            note sd = steps_toD [OF s]
            obtain a' where a': "slot_of ?w' i = Some a'"
              using storage_evolvesD(2) [OF sd(1) "2.prems"(1)] "2.prems"(2) unfolding slot_of_def by blast
            have "steps_to ?w' (fst (collideInner i js ?w'))
                \<and> (entities_ok (p_storage (wi_entities ?w')) \<longrightarrow> snd (collideInner i js ?w') = None)"
              using IH(5) [OF refl _ b _ _ _ _ _ a'] hit True False alive a js "2.prems"(1) sd(10) by simp
            with s entities_ok_evolves [OF _ sd(1)] show ?thesis
              using hit True False alive a b by (auto intro: steps_to_trans)
          qed
        qed
      qed
    qed
  qed
qed

lemma collideOuter_steps:
  assumes "n = length (p_storage (wi_entities w))" "\<forall>i\<in>set is. i < n"
  shows "steps_to w (fst (collideOuter n is w))
    \<and> (entities_ok (p_storage (wi_entities w)) \<longrightarrow> snd (collideOuter n is w) = None)"
  using assms
proof (induction n "is" w rule: collideOuter.induct)
  case (1 n w)
  show ?case by (simp add: steps_to_refl)
next
  case (2 n i is' w)
  have is': "\<forall>i\<in>set is'. i < n" and i: "i < length (p_storage (wi_entities w))" using "2.prems" by simp_all
  show ?case
  proof (cases "slot_of w i")
    case None
    then show ?thesis using "2.IH"(1) [OF None "2.prems"(1) is'] by simp
  next
    case a: (Some a)
    show ?thesis
    proof (cases "e_isDestroyed a \<or> e_transform a = None")
      case True
      then show ?thesis using "2.IH"(2) [OF a True "2.prems"(1) is'] a by auto
    next
      case False
      obtain w' x where c: "collideInner i [i + 1..<n] w = (w', x)" by fastforce
      have inner: "steps_to w w' \<and> (entities_ok (p_storage (wi_entities w)) \<longrightarrow> x = None)"
        using collideInner_steps [OF i a, of "[i + 1..<n]"] "2.prems"(1) c by simp
      note sd = steps_toD [OF inner [THEN conjunct1]]
      show ?thesis
      proof (cases x)
        case (Some e)
        then show ?thesis using a False c inner by auto
      next
        case None
        have "n = length (p_storage (wi_entities w'))" using "2.prems"(1) sd(10) by simp
        from "2.IH"(3) [OF a False c [symmetric] None this is'] inner entities_ok_evolves [OF _ sd(1)] a False c None
        show ?thesis by (auto intro: steps_to_trans)
      qed
    qed
  qed
qed

section \<open>The invariant\<close>

definition complete_ship :: "Entity \<Rightarrow> bool" where
  "complete_ship e \<longleftrightarrow> e_type e = EtShip \<and> e_transform e \<noteq> None \<and> e_ship e \<noteq> None \<and> e_health e \<noteq> None"

text \<open>A session's ship is in the pool.\<close>

definition has_ship :: "Entity option list \<Rightarrow> EntityId \<Rightarrow> bool" where
  "has_ship st k \<longleftrightarrow> (\<exists>e. Some e \<in> set st \<and> e_id e = k \<and> complete_ship e)"

text \<open>A session's ship is in the pool and not destroyed.\<close>

definition has_live_ship :: "Entity option list \<Rightarrow> EntityId \<Rightarrow> bool" where
  "has_live_ship st k \<longleftrightarrow> (\<exists>e. Some e \<in> set st \<and> e_id e = k \<and> complete_ship e \<and> \<not> e_isDestroyed e)"

definition world_inv :: "World \<Rightarrow> bool" where
  "world_inv w \<longleftrightarrow> pool_inv (wi_entities w) \<and> entities_ok (p_storage (wi_entities w))
     \<and> wf_alist (wi_session_to_ship w) \<and> distinct (map snd (wi_session_to_ship w))
     \<and> (\<forall>x\<in>set (wi_session_to_ship w). has_ship (p_storage (wi_entities w)) (snd x))"

text \<open>Between two ticks, no session has a destroyed ship.\<close>

definition sessions_alive :: "World \<Rightarrow> bool" where
  "sessions_alive w \<longleftrightarrow> (\<forall>x\<in>set (wi_session_to_ship w). has_live_ship (p_storage (wi_entities w)) (snd x))"

lemma complete_ship_evolves: "evolves d e \<Longrightarrow> complete_ship d \<Longrightarrow> complete_ship e"
  by (simp add: evolves_def complete_ship_def)

lemma has_ship_evolves:
  assumes "has_ship st k" "storage_evolves st st'"
  shows "has_ship st' k"
proof -
  from assms(1) obtain i d where i: "i < length st" "st ! i = Some d" "e_id d = k" "complete_ship d"
    unfolding has_ship_def by (metis in_set_conv_nth)
  from storage_evolvesD(2) [OF assms(2) i(1,2)] obtain e where "st' ! i = Some e" "evolves d e" by blast
  moreover have "i < length st'" using i(1) list_all2_lengthD [OF assms(2)] by simp
  ultimately show ?thesis
    using i complete_ship_evolves unfolding has_ship_def evolves_def by (metis nth_mem)
qed

lemma steps_to_inv:
  assumes "world_inv w" "steps_to w w'"
  shows "world_inv w'"
proof -
  note sd = steps_toD [OF assms(2)]
  obtain st' where st': "w' = w\<lparr>wi_entities := (wi_entities w)\<lparr>p_storage := st'\<rparr>\<rparr>"
      "storage_evolves (p_storage (wi_entities w)) st'"
    using assms(2) unfolding steps_to_def by blast
  have "pool_inv (wi_entities w')"
    using pool_inv_evolves [OF _ st'(2)] assms(1) st'(1) by (simp add: world_inv_def)
  then show ?thesis
    using assms(1) sd(2) entities_ok_evolves [OF _ sd(1)] has_ship_evolves [OF _ sd(1)]
    by (simp add: world_inv_def)
qed

end
