(* ===== verification/WorldTick.thy ===== *)
theory WorldTick
  imports WorldSteps
begin

text \<open>
  The tick as a whole: every step of \<open>runTickStep\<close> keeps \<open>good n\<close>, the invariant
  together with room for \<open>n\<close> more identifiers, so a tick never throws in the collision pass,
  always returns, and leaves every session with a live ship.  Then what players are promised:
  a join leads to a ship, a destroyed ship is reported exactly once, the leaderboard is the top ten.
\<close>

section \<open>Room for the entities of a tick\<close>

definition good :: "nat \<Rightarrow> World \<Rightarrow> bool" where
  "good n w \<longleftrightarrow> world_inv w \<and> sessions_alive w \<and> room_for n (wi_entities w)"

lemma room_for_mono: "room_for m p \<Longrightarrow> n \<le> m \<Longrightarrow> room_for n p"
  by (simp add: room_for_def)

lemma good_mono: "good m w \<Longrightarrow> n \<le> m \<Longrightarrow> good n w"
  unfolding good_def using room_for_mono by blast

text \<open>The invariant reads only the entities that are in the storage, and the sessions.\<close>

abbreviation contents :: "World \<Rightarrow> Entity set" where
  "contents w \<equiv> {e. Some e \<in> set (p_storage (wi_entities w))}"

lemma entities_ok_contents: "entities_ok (p_storage (wi_entities w)) \<longleftrightarrow> (\<forall>e\<in>contents w. entity_ok e)"
  by (simp add: entities_ok_def)

lemma has_ship_contents:
  "has_ship (p_storage (wi_entities w)) k \<longleftrightarrow> (\<exists>e\<in>contents w. e_id e = k \<and> complete_ship e)"
  by (simp add: has_ship_def)

lemma has_live_ship_contents:
  "has_live_ship (p_storage (wi_entities w)) k \<longleftrightarrow>
     (\<exists>e\<in>contents w. e_id e = k \<and> complete_ship e \<and> \<not> e_isDestroyed e)"
  by (simp add: has_live_ship_def)

lemma has_live_ship_has_ship: "has_live_ship st k \<Longrightarrow> has_ship st k"
  unfolding has_live_ship_def has_ship_def by blast

text \<open>Adding an entity that no session refers to.\<close>

lemma good_add:
  assumes "good m w" "pool_inv (wi_entities w')" "room_for n (wi_entities w')"
    "wi_session_to_ship w' = wi_session_to_ship w" "contents w \<subseteq> contents w'"
    "\<forall>e\<in>contents w'. e \<in> contents w \<or> entity_ok e"
  shows "good n w'"
proof -
  have ok: "\<forall>e\<in>contents w'. entity_ok e"
    using assms(1,6) unfolding good_def world_inv_def entities_ok_contents by blast
  have live: "has_live_ship (p_storage (wi_entities w)) k \<Longrightarrow> has_live_ship (p_storage (wi_entities w')) k" for k
    using assms(5) unfolding has_live_ship_contents by blast
  have ship: "has_ship (p_storage (wi_entities w)) k \<Longrightarrow> has_ship (p_storage (wi_entities w')) k" for k
    using assms(5) unfolding has_ship_contents by blast
  show ?thesis
    using assms(1-4) ok live ship unfolding good_def world_inv_def sessions_alive_def entities_ok_contents by simp
qed

text \<open>Acquiring a slot and writing a new entity into it.\<close>

lemma contents_fill:
  assumes "i < length st" "st ! i = None"
  shows "{e. Some e \<in> set (st[i := Some n])} = insert n {e. Some e \<in> set st}"
proof -
  have "x = n \<or> Some x \<in> set st" if "Some x \<in> set (st[i := Some n])" for x
    using set_update_cases [OF that] by auto
  moreover have "Some x \<in> set (st[i := Some n])" if "Some x \<in> set st" for x
  proof -
    from that obtain j where j: "j < length st" "st ! j = Some x" by (auto simp: in_set_conv_nth)
    with assms have "st[i := Some n] ! j = Some x" by (cases "j = i") auto
    with j show ?thesis by (metis length_list_update nth_mem)
  qed
  moreover have "Some n \<in> set (st[i := Some n])" using assms(1) by (rule set_update_memI)
  ultimately show ?thesis by blast
qed

lemma acquire_put_entity:
  assumes "good (Suc n) w" "acquire_entity w = (i, w1)" "e_id e = p_next_id (wi_entities w)" "entity_ok e"
  shows "good n (put_entity i e w1)
    \<and> contents (put_entity i e w1) = insert e (contents w)
    \<and> wi_session_to_ship (put_entity i e w1) = wi_session_to_ship w
    \<and> the (slot_of w1 i) = Entity_default\<lparr>e_id := p_next_id (wi_entities w)\<rparr>"
proof -
  obtain p' where acq: "acquire (wi_entities w) = (i, p')" "w1 = w\<lparr>wi_entities := p'\<rparr>"
    using assms(2) by (auto simp: acquire_entity_def split: prod.splits)
  have inv: "pool_inv (wi_entities w)" and room: "room_for (Suc n) (wi_entities w)"
    using assms(1) by (simp_all add: good_def world_inv_def)
  note ap = acquire_put [OF inv room acq(1) assms(3)]
  let ?w = "put_entity i e w1"
  have p: "wi_entities ?w = put_slot i e p'" "wi_session_to_ship ?w = wi_session_to_ship w"
    by (simp_all add: put_entity_def acq(2))
  have cont: "contents ?w = insert e (contents w)"
    unfolding p(1) using ap(3)
  proof (elim disjE conjE)
    assume "i < length (p_storage (wi_entities w))" "p_storage (wi_entities w) ! i = None"
      "p_storage (put_slot i e p') = (p_storage (wi_entities w))[i := Some e]"
    then show "{x. Some x \<in> set (p_storage (put_slot i e p'))} = insert e (contents w)"
      by (simp only: contents_fill)
  next
    assume "p_storage (put_slot i e p') = p_storage (wi_entities w) @ [Some e]"
    then show "{x. Some x \<in> set (p_storage (put_slot i e p'))} = insert e (contents w)"
      by (simp only:) auto
  qed
  have "good n ?w"
  proof (rule good_add [OF assms(1)])
    show "pool_inv (wi_entities ?w)" "room_for n (wi_entities ?w)" using ap(1,2) by (simp_all only: p(1))
    show "contents w \<subseteq> contents ?w" "\<forall>x\<in>contents ?w. x \<in> contents w \<or> entity_ok x"
      unfolding cont using assms(4) by blast+
  qed (rule p(2))
  with p cont ap(4) acq(2) show ?thesis by (simp add: slot_of_def)
qed

section \<open>Changes in place\<close>

text \<open>A change in place that does not destroy the ships of sessions.\<close>

lemma has_live_ship_evolves:
  assumes "has_live_ship st k" "storage_evolves st st'"
    "\<And>i d e. i < length st \<Longrightarrow> st ! i = Some d \<Longrightarrow> st' ! i = Some e \<Longrightarrow> e_id d = k \<Longrightarrow> complete_ship d
       \<Longrightarrow> \<not> e_isDestroyed d \<Longrightarrow> \<not> e_isDestroyed e"
  shows "has_live_ship st' k"
proof -
  from assms(1) obtain i d where i: "i < length st" "st ! i = Some d" "e_id d = k" "complete_ship d" "\<not> e_isDestroyed d"
    unfolding has_live_ship_def by (metis in_set_conv_nth)
  from storage_evolvesD(2) [OF assms(2) i(1,2)] obtain e where e: "st' ! i = Some e" "evolves d e" by blast
  have "i < length st'" using i(1) list_all2_lengthD [OF assms(2)] by simp
  with e(1) have "Some e \<in> set st'" by (metis nth_mem)
  moreover have "e_id e = k" "complete_ship e" "\<not> e_isDestroyed e"
    using e(2) i(3) complete_ship_evolves [OF e(2) i(4)] assms(3) [OF i(1,2) e(1) i(3-5)]
    by (simp_all add: evolves_def)
  ultimately show ?thesis unfolding has_live_ship_def by blast
qed

lemma good_steps:
  assumes "good n w" "steps_to w w'"
    "\<And>k. k \<in> snd ` set (wi_session_to_ship w) \<Longrightarrow> has_live_ship (p_storage (wi_entities w)) k
       \<Longrightarrow> has_live_ship (p_storage (wi_entities w')) k"
  shows "good n w'"
  using assms(1,3) steps_to_inv [OF _ assms(2)] steps_toD [OF assms(2)]
  by (auto simp: good_def sessions_alive_def room_for_def)

lemma moveEntity_evolves: "evolves e (moveEntity dt w h e)"
  by (auto simp: evolves_def entity_ok_def moveEntity_frame)
    (auto simp: moveEntity_def Let_def split: option.splits prod.splits EntityType.splits if_splits)

lemma moveEntity_keeps_ship:
  "e_type e = EtShip \<Longrightarrow> e_isDestroyed (moveEntity dt w h e) = e_isDestroyed e"
  by (auto simp: moveEntity_def Let_def split: option.split prod.split)

lemma updatePhysics_good:
  assumes "good n w"
  shows "good n (updatePhysics dt w)"
proof (rule good_steps [OF assms])
  let ?f = "map_option (moveEntity dt (wi_width w) (wi_height w))"
  let ?st = "p_storage (wi_entities w)"
  have st: "p_storage (wi_entities (updatePhysics dt w)) = map ?f ?st"
    by (simp add: updatePhysics_def move_pool_def updateMovementAndBounds_def)
  have ev: "storage_evolves ?st (map ?f ?st)" by (rule storage_evolves_map) (rule moveEntity_evolves)
  show "steps_to w (updatePhysics dt w)"
    unfolding steps_to_def using ev
    by (intro exI [of _ "map ?f ?st"]) (simp add: updatePhysics_def move_pool_def updateMovementAndBounds_def)
  show "has_live_ship (p_storage (wi_entities (updatePhysics dt w))) k" if "has_live_ship ?st k" for k
    unfolding st by (rule has_live_ship_evolves [OF that ev])
      (auto simp: complete_ship_def moveEntity_keeps_ship)
qed

section \<open>The input queue\<close>

lemma session_ship_slot:
  assumes "good n w" "map_of (wi_session_to_ship w) sid = Some k" "findByEntityID (wi_entities w) k = Some i"
  obtains d where "i < length (p_storage (wi_entities w))" "slot_of w i = Some d" "e_id d = k" "complete_ship d"
    "\<not> e_isDestroyed d"
proof -
  have inv: "pool_inv (wi_entities w)" using assms(1) by (simp add: good_def world_inv_def)
  from assms(3) findByEntityID_iff [OF inv] obtain d where
    d: "i < length (p_storage (wi_entities w))" "p_storage (wi_entities w) ! i = Some d" "e_id d = k" by blast
  have "has_live_ship (p_storage (wi_entities w)) k"
    using assms(1) map_of_SomeD [OF assms(2)] by (fastforce simp: good_def sessions_alive_def)
  then obtain e where "Some e \<in> set (p_storage (wi_entities w))" "e_id e = k" "complete_ship e" "\<not> e_isDestroyed e"
    unfolding has_live_ship_def by blast
  moreover from this obtain j where "j < length (p_storage (wi_entities w))" "p_storage (wi_entities w) ! j = Some e"
    by (auto simp: in_set_conv_nth)
  moreover have "j = i" if "j < length (p_storage (wi_entities w))" "p_storage (wi_entities w) ! j = Some e" "e_id e = k" for j e
    using pool.ids_distinct [OF inv that(1) d(1) that(2) d(2)] that(3) d(3) by simp
  ultimately have "d = e" using d by (metis option.inject)
  then show ?thesis using that [of d] d \<open>complete_ship e\<close> \<open>\<not> e_isDestroyed e\<close> by (simp add: slot_of_def)
qed

lemma session_ship_found:
  assumes "good n w" "map_of (wi_session_to_ship w) sid = Some k"
  shows "\<exists>i. findByEntityID (wi_entities w) k = Some i"
proof -
  have "pool_inv (wi_entities w)" "has_live_ship (p_storage (wi_entities w)) k"
    using assms(1) map_of_SomeD [OF assms(2)] by (fastforce simp: good_def world_inv_def sessions_alive_def)+
  then show ?thesis
    using findByEntityID_iff unfolding has_live_ship_def by (metis in_set_conv_nth)
qed

lemma playerQuit_good:
  assumes "good n w"
  shows "good n (playerQuit action w)"
proof (cases "map_of (wi_session_to_ship w) (ac_session_id action)")
  case None
  with assms show ?thesis by (simp add: playerQuit_def)
next
  case (Some k)
  obtain i where i: "findByEntityID (wi_entities w) k = Some i" using session_ship_found [OF assms Some] by blast
  obtain d where d: "i < length (p_storage (wi_entities w))" "slot_of w i = Some d" "e_id d = k" "complete_ship d"
    by (rule session_ship_slot [OF assms Some i])
  let ?del = "AList.delete (ac_session_id action) (wi_session_to_ship w)"
  let ?d = "d\<lparr>e_isDestroyed := True\<rparr>"
  let ?w1 = "w\<lparr>wi_session_to_ship := ?del\<rparr>"
  have run: "playerQuit action w = put_entity i ?d ?w1"
    using Some i d(2) by (simp add: playerQuit_def put_entity_def Let_def)
  have sub: "set ?del \<subseteq> set (wi_session_to_ship w)" by (auto simp: AList.delete_eq)
  have dist: "distinct (map snd (wi_session_to_ship w))" "wf_alist (wi_session_to_ship w)"
    using assms by (simp_all add: good_def world_inv_def)
  have other: "l \<noteq> k" if "l \<in> snd ` set ?del" for l
  proof
    assume "l = k"
    with that obtain s where s: "(s, k) \<in> set ?del" by auto
    then have "s \<noteq> ac_session_id action" "(s, k) \<in> set (wi_session_to_ship w)" by (auto simp: AList.delete_eq)
    with map_of_SomeD [OF Some] dist(1) show False by (fastforce simp: distinct_map inj_on_def)
  qed
  have "good n ?w1"
    using assms sub dist wf_alist_delete [OF dist(2)]
    by (auto simp: good_def world_inv_def sessions_alive_def AList.delete_eq distinct_map intro: inj_on_subset)
  then show ?thesis unfolding run
  proof (rule good_steps)
    have "evolves d ?d" by (simp add: evolves_def entity_ok_def)
    then show st: "steps_to ?w1 (put_entity i ?d ?w1)" using d(1,2) by (intro steps_to_put [of i _ d]) (simp_all add: slot_of_def)
    fix l assume "l \<in> snd ` set (wi_session_to_ship ?w1)" and live: "has_live_ship (p_storage (wi_entities ?w1)) l"
    then have l: "l \<noteq> k" using other by simp
    show "has_live_ship (p_storage (wi_entities (put_entity i ?d ?w1))) l"
    proof (rule has_live_ship_evolves [OF live steps_toD(1) [OF st]])
      fix j a b
      assume j: "j < length (p_storage (wi_entities ?w1))" "p_storage (wi_entities ?w1) ! j = Some a"
        "p_storage (wi_entities (put_entity i ?d ?w1)) ! j = Some b" "e_id a = l" "\<not> e_isDestroyed a"
      have "j \<noteq> i" using j d l by (auto simp: slot_of_def)
      with j show "\<not> e_isDestroyed b" by (simp add: put_entity_def put_slot_def)
    qed
  qed
qed

lemma makeBullet_ok: "entity_ok (makeBullet ship t k (Entity_default\<lparr>e_id := n\<rparr>))"
  by (simp add: entity_ok_def makeBullet_def Entity_default_def kBulletRadius_def Let_def)

lemma e_id_makeBullet [simp]: "e_id (makeBullet ship t k b) = e_id b"
  by (simp add: makeBullet_def Let_def)

text \<open>Turning a ship.\<close>

lemma turn_ship_good:
  assumes "good n w" "i < length (p_storage (wi_entities w))" "slot_of w i = Some d" "e_transform d = Some t"
  shows "good n (put_entity i (d\<lparr>e_transform := Some (t\<lparr>t_angle := a\<rparr>)\<rparr>) w)"
proof (rule good_steps [OF assms(1)])
  let ?d = "d\<lparr>e_transform := Some (t\<lparr>t_angle := a\<rparr>)\<rparr>"
  have "evolves d ?d" using assms(4) by (simp add: evolves_def entity_ok_def)
  then show st: "steps_to w (put_entity i ?d w)" using steps_to_put assms(2,3) by blast
  fix l assume live: "has_live_ship (p_storage (wi_entities w)) l"
  show "has_live_ship (p_storage (wi_entities (put_entity i ?d w))) l"
    by (rule has_live_ship_evolves [OF live steps_toD(1) [OF st]])
      (use assms(2,3) in \<open>auto simp: put_entity_def put_slot_def slot_of_def nth_list_update split: if_splits\<close>)
qed

text \<open>What a move or shot command does, with the ship it concerns.\<close>

lemma moveAndShoot_ship:
  assumes "good (Suc n) w" "map_of (wi_session_to_ship w) (ac_session_id action) = Some k"
  obtains i d t where "i < length (p_storage (wi_entities w))" "slot_of w i = Some d" "e_id d = k" "complete_ship d"
    "\<not> e_isDestroyed d" "e_transform d = Some t"
    "good n (moveAndShoot action w)" "wi_session_to_ship (moveAndShoot action w) = wi_session_to_ship w"
    "contents (moveAndShoot action w) =
       (if ac_is_shooting action
        then insert (makeBullet (d\<lparr>e_transform := Some (t\<lparr>t_angle := ac_angle action\<rparr>)\<rparr>) (t\<lparr>t_angle := ac_angle action\<rparr>) k
               (Entity_default\<lparr>e_id := p_next_id (wi_entities w)\<rparr>))
        else id) (contents (put_entity i (d\<lparr>e_transform := Some (t\<lparr>t_angle := ac_angle action\<rparr>)\<rparr>) w))"
proof -
  obtain i where i: "findByEntityID (wi_entities w) k = Some i" using session_ship_found [OF assms] by blast
  obtain d where d: "i < length (p_storage (wi_entities w))" "slot_of w i = Some d" "e_id d = k" "complete_ship d"
      "\<not> e_isDestroyed d"
    by (rule session_ship_slot [OF assms i])
  obtain t where t: "e_transform d = Some t" using d(4) by (auto simp: complete_ship_def)
  let ?t = "t\<lparr>t_angle := ac_angle action\<rparr>"
  let ?d = "d\<lparr>e_transform := Some ?t\<rparr>"
  let ?w = "put_entity i ?d w"
  have turned: "good (Suc n) ?w" by (rule turn_ship_good [OF assms(1) d(1,2) t])
  have keep: "wi_session_to_ship ?w = wi_session_to_ship w" "p_next_id (wi_entities ?w) = p_next_id (wi_entities w)"
    by (simp_all add: put_entity_def put_slot_def)
  obtain b w1 where acq: "acquire_entity ?w = (b, w1)" by fastforce
  let ?b = "makeBullet ?d ?t k (Entity_default\<lparr>e_id := p_next_id (wi_entities ?w)\<rparr>)"
  have add: "good n (put_entity b ?b w1) \<and> contents (put_entity b ?b w1) = insert ?b (contents ?w)
      \<and> wi_session_to_ship (put_entity b ?b w1) = wi_session_to_ship ?w
      \<and> the (slot_of w1 b) = Entity_default\<lparr>e_id := p_next_id (wi_entities ?w)\<rparr>"
    by (rule acquire_put_entity [OF turned acq _ makeBullet_ok]) simp
  have run: "moveAndShoot action w = (if ac_is_shooting action then put_entity b ?b w1 else ?w)"
    using assms(2) i d(2) t acq add by (simp add: moveAndShoot_def Let_def)
  have "good n (moveAndShoot action w)" unfolding run
    using add good_mono [OF turned, of n] by (auto split: if_split)
  moreover have "wi_session_to_ship (moveAndShoot action w) = wi_session_to_ship w" unfolding run
    using add keep by (auto split: if_split)
  moreover have "contents (moveAndShoot action w) =
      (if ac_is_shooting action then insert ?b else id) (contents ?w)" unfolding run
    using add by (auto split: if_split)
  ultimately show ?thesis using that [OF d t] by (simp only: keep(2))
qed

lemma moveAndShoot_good:
  assumes "good (Suc n) w"
  shows "good n (moveAndShoot action w)"
proof (cases "map_of (wi_session_to_ship w) (ac_session_id action)")
  case None
  with good_mono [OF assms, of n] show ?thesis by (simp add: moveAndShoot_def)
next
  case (Some k)
  then show ?thesis by (rule moveAndShoot_ship [OF assms])
qed

lemma playerJoin_pending:
  "length (playerJoin action ps) \<le> Suc (length ps)"
  "distinct (map pj_session_id ps) \<Longrightarrow> distinct (map pj_session_id (playerJoin action ps))"
  "pj_session_id ` set ps \<subseteq> pj_session_id ` set (playerJoin action ps)"
  by (auto simp: playerJoin_def)

lemma processAction_good:
  assumes "good (Suc n) w"
  shows "good n (fst (processAction action (w, ps)))"
  using playerQuit_good [OF good_mono [OF assms, of n]] moveAndShoot_good [OF assms] good_mono [OF assms, of n]
  by (simp add: processAction_def split: ActionType.split)

lemma processAction_pending:
  "length (snd (processAction action st)) \<le> Suc (length (snd st))
   \<and> (distinct (map pj_session_id (snd st)) \<longrightarrow> distinct (map pj_session_id (snd (processAction action st))))"
  using playerJoin_pending [where ps = "snd st"] by (simp add: processAction_def split: ActionType.split)

lemma fold_processAction:
  "good (length actions + n) w \<Longrightarrow> distinct (map pj_session_id ps) \<Longrightarrow>
   good n (fst (fold processAction actions (w, ps)))
   \<and> distinct (map pj_session_id (snd (fold processAction actions (w, ps))))
   \<and> length (snd (fold processAction actions (w, ps))) \<le> length ps + length actions"
proof (induction actions arbitrary: w ps)
  case (Cons action actions)
  obtain w1 ps1 where st: "processAction action (w, ps) = (w1, ps1)" by fastforce
  have "good (Suc (length actions + n)) w" using Cons.prems(1) by simp
  from processAction_good [OF this, of action ps] st have g: "good (length actions + n) w1" by simp
  have "distinct (map pj_session_id ps1)" "length ps1 \<le> Suc (length ps)"
    using processAction_pending [of action "(w, ps)"] st Cons.prems(2) by simp_all
  with Cons.IH [OF g] st show ?case by fastforce
qed simp

lemma processInputQueue_eq:
  "processInputQueue w = fold processAction (wi_action_queue w) (w\<lparr>wi_action_queue := []\<rparr>, [])"
  by (simp add: processInputQueue_def queue_drain_def drain_loop_eq)

lemma processInputQueue_good:
  assumes "good (length (wi_action_queue w) + n) w" "processInputQueue w = (w', ps)"
  shows "good n w'" "distinct (map pj_session_id ps)" "length ps \<le> length (wi_action_queue w)"
proof -
  let ?w = "w\<lparr>wi_action_queue := []\<rparr>"
  have "good (length (wi_action_queue w) + n) ?w"
    using assms(1) by (simp add: good_def world_inv_def sessions_alive_def)
  from fold_processAction [OF this, of "[]"] assms(2)
  show "good n w'" "distinct (map pj_session_id ps)" "length ps \<le> length (wi_action_queue w)"
    by (simp_all add: processInputQueue_eq)
qed

section \<open>Collisions and destroyed ships\<close>

lemma reapSessions_eq:
  "reapSessions ids m =
     (map (\<lambda>x. ShipDestroyedEvent (fst x)) (filter (\<lambda>x. snd x \<in> ids) m), filter (\<lambda>x. snd x \<notin> ids) m)"
  by (induction ids m rule: reapSessions.induct) simp_all

lemma destroyed_ids_iff:
  "k \<in> destroyed_ids st \<longleftrightarrow> (\<exists>e. Some e \<in> set st \<and> e_isDestroyed e \<and> e_id e = k)"
proof -
  have "k \<in> destroyed_ids st \<longleftrightarrow> (\<exists>s\<in>set st. \<exists>e. s = Some e \<and> e_isDestroyed e \<and> e_id e = k)"
    by (auto simp: destroyed_ids_def split: option.splits if_splits)
  then show ?thesis by blast
qed

lemma contents_recycle:
  "{e. Some e \<in> set (p_storage (recycleDestroyed p))} = {e. Some e \<in> set (p_storage p) \<and> \<not> e_isDestroyed e}"
proof -
  have "(Some e \<in> clean_slot ` S) \<longleftrightarrow> Some e \<in> S \<and> \<not> e_isDestroyed e" for e S
  proof
    assume "Some e \<in> clean_slot ` S"
    then obtain s where "s \<in> S" "clean_slot s = Some e" by (metis imageE)
    then show "Some e \<in> S \<and> \<not> e_isDestroyed e" by (auto simp: clean_slot_def split: option.splits if_splits)
  next
    assume "Some e \<in> S \<and> \<not> e_isDestroyed e"
    then have "clean_slot (Some e) = Some e" "Some e \<in> S" by (simp_all add: clean_slot_def)
    then show "Some e \<in> clean_slot ` S" by (metis imageI)
  qed
  then show ?thesis by (simp add: recycleDestroyed_storage)
qed

lemma reap_good:
  assumes "world_inv w" "room_for n (wi_entities w)" "reapDestroyedShips w = (w', evs)"
  shows "good n w'"
proof -
  let ?ids = "destroyed_ids (p_storage (wi_entities w))"
  let ?S = "filter (\<lambda>x. snd x \<notin> ?ids) (wi_session_to_ship w)"
  have w': "w' = w\<lparr>wi_session_to_ship := ?S, wi_entities := recycleDestroyed (wi_entities w)\<rparr>"
    using assms(3) by (simp add: reapDestroyedShips_def reapSessions_eq)
  have inv: "pool_inv (wi_entities w)" "entities_ok (p_storage (wi_entities w))" "wf_alist (wi_session_to_ship w)"
      "distinct (map snd (wi_session_to_ship w))"
    using assms(1) by (simp_all add: world_inv_def)
  have cont: "contents w' = {e \<in> contents w. \<not> e_isDestroyed e}" by (simp add: w' contents_recycle)
  have live: "has_live_ship (p_storage (wi_entities w')) (snd x)" if "x \<in> set ?S" for x
  proof -
    from that assms(1) have "has_ship (p_storage (wi_entities w)) (snd x)" by (simp add: world_inv_def)
    then obtain e where e: "e \<in> contents w" "e_id e = snd x" "complete_ship e" unfolding has_ship_contents by blast
    with that have "\<not> e_isDestroyed e" by (auto simp: destroyed_ids_iff)
    with e cont show ?thesis unfolding has_live_ship_contents by blast
  qed
  have ok: "entities_ok (p_storage (wi_entities w'))"
    using inv(2) cont unfolding entities_ok_contents by blast
  have sess: "wi_session_to_ship w' = ?S" and ents: "wi_entities w' = recycleDestroyed (wi_entities w)"
    by (simp_all add: w')
  have dist: "distinct (map snd ?S)" using inv(4) by (auto simp: distinct_map intro: inj_on_subset)
  have room: "room_for n (wi_entities w')" using assms(2) by (simp add: w' room_for_def)
  have hs: "has_ship (p_storage (wi_entities w')) (snd x)" if "x \<in> set ?S" for x
    by (rule has_live_ship_has_ship [OF live [OF that]])
  show ?thesis
    unfolding good_def world_inv_def sessions_alive_def sess
    using ok dist room hs live recycleDestroyed_inv [OF inv(1)] wf_alist_filter [OF inv(3)]
    by (simp add: ents)
qed

lemma collisions_good:
  assumes "good n w" "collideOuter (length (p_storage (wi_entities w))) [0..<length (p_storage (wi_entities w))] w = (w1, x)"
  shows "steps_to w w1" "x = None" "world_inv w1" "room_for n (wi_entities w1)"
    "wi_session_to_ship w1 = wi_session_to_ship w"
proof -
  have "steps_to w w1 \<and> (entities_ok (p_storage (wi_entities w)) \<longrightarrow> x = None)"
    using collideOuter_steps [OF refl, of "[0..<length (p_storage (wi_entities w))]" w] assms(2) by simp
  then show s: "steps_to w w1" and "x = None" using assms(1) by (simp_all add: good_def world_inv_def)
  show "world_inv w1" using steps_to_inv [OF _ s] assms(1) by (simp add: good_def)
  show "room_for n (wi_entities w1)" using steps_toD(9) [OF s] assms(1) by (simp add: good_def room_for_def)
  show "wi_session_to_ship w1 = wi_session_to_ship w" by (rule steps_toD(2) [OF s])
qed

lemma resolveCollisions_good:
  assumes "good n w" "resolveCollisions w = (w', evs, err)"
  shows "good n w'" "err = None"
proof -
  let ?n = "length (p_storage (wi_entities w))"
  obtain w1 x where c: "collideOuter ?n [0..<?n] w = (w1, x)" by fastforce
  note cg = collisions_good [OF assms(1) c]
  obtain w2 evs2 where r: "reapDestroyedShips w1 = (w2, evs2)" by fastforce
  with c cg(2) assms(2) have "w' = w2" "err = None" by (simp_all add: resolveCollisions_def)
  with reap_good [OF cg(3,4) r] show "good n w'" "err = None" by simp_all
qed

section \<open>Asteroids and new ships\<close>

lemma entity_ok_makeAsteroid: "0 \<le> x \<Longrightarrow> entity_ok (makeAsteroid (Fin x) v e)"
  by (simp add: entity_ok_def makeAsteroid_def asteroid_constants)

lemma sum_list_slot_weight_nonneg:
  assumes "entities_ok st"
  shows "0 \<le> sum_list (map slot_weight st)"
proof (rule sum_list_nonneg)
  fix x assume "x \<in> set (map slot_weight st)"
  then obtain s where s: "s \<in> set st" "x = slot_weight s" by auto
  show "0 \<le> x"
  proof (cases s)
    case (Some e)
    with assms s have "Fin 0 \<le> e_mass e" by (simp add: entities_ok_def entity_ok_def)
    with s Some show ?thesis by (auto simp: slot_weight_def split: scalar.split)
  qed (use s in \<open>simp add: slot_weight_def\<close>)
qed

lemma generatePositions_length:
  "generatePositions uniform n c g = (ps, g') \<Longrightarrow> ps \<noteq> [] \<Longrightarrow> length ps = n"
proof -
  have len: "length (fst (positionsLoop uniform c n g)) = n" for n g
    by (induction n arbitrary: g) (auto simp: Let_def case_prod_beta)
  show "generatePositions uniform n c g = (ps, g') \<Longrightarrow> ps \<noteq> [] \<Longrightarrow> length ps = n"
    using len [of n g] by (auto simp: generatePositions_def split: if_splits)
qed

lemma createAsteroids_room: "room_for (length zs + n) p \<Longrightarrow> room_for n (createAsteroids zs p)"
proof (induction zs p rule: createAsteroids.induct)
  case (2 weight position rest p)
  obtain i p1 where acq: "acquire p = (i, p1)" by fastforce
  then have "p_next_id p1 = p_next_id p + 1" by (auto simp: acquire_def Let_def split: if_splits)
  moreover have "unat (p_next_id p + 1) = unat (p_next_id p) + 1"
    using "2.prems" by (simp add: room_for_def unat_word_ariths)
  ultimately have "room_for (length rest + n) (put_slot i e p1)" for e
    using "2.prems" by (simp add: room_for_def put_slot_def)
  with "2.IH" [OF acq [symmetric] refl] acq show ?case by simp
qed simp

lemma maintain_good:
  assumes "good (50 + n) w" "rng_ok uniform"
  obtains w' g' where "maintainAsteroidPopulation uniform w g = Some (w', g')" "good n w'"
    "wi_session_to_ship w' = wi_session_to_ship w" "wi_current_tick w' = wi_current_tick w"
proof -
  let ?p = "wi_entities w" and ?c = "freePosition w"
  have inv: "pool_inv ?p" and ok: "entities_ok (p_storage ?p)" and room: "room_for (50 + n) ?p"
    using assms(1) by (simp_all add: good_def world_inv_def)
  have fin: "finite_masses (p_storage ?p)" using ok by (simp add: finite_masses_def entities_ok_def entity_ok_def)
  define c where "c = sum_list (map slot_weight (p_storage ?p))"
  have c: "calculateCurrentWeight (p_storage ?p) = Fin c" "0 \<le> c"
    using calculateCurrentWeight_sum [OF fin] sum_list_slot_weight_nonneg [OF ok] by (simp_all add: c_def)
  obtain ws g1 where ws: "generateAsteroidWeight uniform (Fin c) g = Some (map Fin ws, g1)"
      "\<forall>x\<in>set ws. 10 \<le> x \<and> x \<le> 80" "length ws \<le> 50"
    using generated_weights [OF assms(2) c(2)] by blast
  obtain ps g2 where ps: "generatePositions uniform (length ws) ?c g1 = (ps, g2)" by fastforce
  have "\<exists>p' g'. AsteroidFactory_update uniform ?c ?p g = Some (p', g')
      \<and> (p' = ?p \<or> ps \<noteq> [] \<and> p' = createAsteroids (zip (map Fin ws) ps) ?p)"
    by (simp add: AsteroidFactory_update_def Let_def c(1) ws(1) ps)
  then obtain p' g' where up: "AsteroidFactory_update uniform ?c ?p g = Some (p', g')"
    "p' = ?p \<or> ps \<noteq> [] \<and> p' = createAsteroids (zip (map Fin ws) ps) ?p" by blast
  let ?w' = "w\<lparr>wi_entities := p'\<rparr>"
  have "good n ?w'"
  proof (cases "p' = ?p")
    case True
    with good_mono [OF assms(1), of n] show ?thesis by simp
  next
    case False
    with up(2) have p': "ps \<noteq> []" "p' = createAsteroids (zip (map Fin ws) ps) ?p" by blast+
    have "room_for (length ws) ?p" by (rule room_for_mono [OF room]) (use ws(3) in simp)
    note cr = createAsteroids_storage [OF inv this generatePositions_length [OF ps p'(1)] fin, folded p'(2)]
    have "room_for (length (zip (map Fin ws) ps) + n) ?p"
      by (rule room_for_mono [OF room]) (use ws(3) in simp)
    then have "room_for n p'" using createAsteroids_room p'(2) by blast
    show ?thesis
    proof (rule good_add [OF assms(1)])
      show "pool_inv (wi_entities ?w')" "room_for n (wi_entities ?w')" using cr \<open>room_for n p'\<close> by simp_all
      show "contents w \<subseteq> contents ?w'" using cr by (auto simp: in_set_conv_nth)
      show "\<forall>e\<in>contents ?w'. e \<in> contents w \<or> entity_ok e"
      proof
        fix e assume "e \<in> contents ?w'"
        with cr have "Some e \<in> set (p_storage ?p) \<or> (\<exists>x v k. x \<in> set ws
            \<and> e = makeAsteroid (Fin x) v (Entity_default\<lparr>e_id := k\<rparr>))" by fastforce
        then show "e \<in> contents w \<or> entity_ok e"
          using ws(2) entity_ok_makeAsteroid by force
      qed
    qed simp
  qed
  with that [of ?w' g'] up(1) show ?thesis by (simp add: maintainAsteroidPopulation_def)
qed

lemma entity_ok_makeShip: "entity_ok (makeShip j c e)"
  by (simp add: entity_ok_def makeShip_def kShipDefaultMass_def kShipDefaultRadius_def)

lemma complete_makeShip: "complete_ship (makeShip j c e) \<and> e_isDestroyed (makeShip j c e) = e_isDestroyed e
    \<and> e_id (makeShip j c e) = e_id e"
  by (simp add: complete_ship_def makeShip_def)

lemma update_alist:
  "distinct (map snd m) \<Longrightarrow> v \<notin> snd ` set m \<Longrightarrow> distinct (map snd (AList.update k v m))
   \<and> set (AList.update k v m) \<subseteq> insert (k, v) (set m)"
proof (induction m)
  case (Cons x m)
  obtain k' v' where x: "x = (k', v')" by fastforce
  from Cons have IH: "distinct (map snd (AList.update k v m))" "set (AList.update k v m) \<subseteq> insert (k, v) (set m)"
    by simp_all
  then have "v' \<notin> snd ` set (AList.update k v m)" using Cons.prems x by auto
  with IH Cons.prems x show ?case by auto
qed simp

lemma spawnShip_good:
  assumes "good (Suc n) w"
  shows "good n (spawnShip j w)
    \<and> map_of (wi_session_to_ship (spawnShip j w)) = (map_of (wi_session_to_ship w))(pj_session_id j \<mapsto> p_next_id (wi_entities w))
    \<and> contents (spawnShip j w) =
        insert (makeShip j (freePosition w) (Entity_default\<lparr>e_id := p_next_id (wi_entities w)\<rparr>)) (contents w)"
proof -
  let ?k = "p_next_id (wi_entities w)"
  let ?e = "makeShip j (freePosition w) (Entity_default\<lparr>e_id := ?k\<rparr>)"
  obtain i w1 where acq: "acquire_entity w = (i, w1)" by fastforce
  have id: "e_id ?e = ?k" using complete_makeShip by simp
  note add = acquire_put_entity [OF assms acq id entity_ok_makeShip]
  let ?w2 = "put_entity i ?e w1"
  let ?m = "AList.update (pj_session_id j) ?k (wi_session_to_ship w)"
  have run: "spawnShip j w = ?w2\<lparr>wi_session_to_ship := ?m\<rparr>"
    using acq add id by (simp add: spawnShip_def Let_def)
  have inv: "pool_inv (wi_entities w)" "wf_alist (wi_session_to_ship w)" "distinct (map snd (wi_session_to_ship w))"
    using assms by (simp_all add: good_def world_inv_def)
  have new: "?k \<notin> snd ` set (wi_session_to_ship w)"
  proof
    assume "?k \<in> snd ` set (wi_session_to_ship w)"
    then have "has_ship (p_storage (wi_entities w)) ?k" using assms by (auto simp: good_def world_inv_def)
    then obtain e where "Some e \<in> set (p_storage (wi_entities w))" "e_id e = ?k" unfolding has_ship_def by blast
    with inv(1) show False unfolding pool_inv_def by fastforce
  qed
  have m: "distinct (map snd ?m)" "set ?m \<subseteq> insert (pj_session_id j, ?k) (set (wi_session_to_ship w))"
    using update_alist [OF inv(3) new] by blast+
  have live: "has_live_ship (p_storage (wi_entities ?w2)) ?k"
    using add complete_makeShip [of j "freePosition w" "Entity_default\<lparr>e_id := ?k\<rparr>"]
    unfolding has_live_ship_contents by (auto simp: Entity_default_def)
  have all: "has_live_ship (p_storage (wi_entities ?w2)) (snd x)" if "x \<in> set ?m" for x
    using that m(2) live add by (auto simp: good_def sessions_alive_def)
  have "good n (?w2\<lparr>wi_session_to_ship := ?m\<rparr>)"
    using add all m(1) wf_alist_update [OF inv(2)] has_live_ship_has_ship
    by (auto simp: good_def world_inv_def sessions_alive_def)
  with run add show ?thesis by (simp add: update_conv')
qed

lemma spawnShips_good:
  "good (length joins + n) w \<Longrightarrow> good n (spawnShips joins w) \<and> contents w \<subseteq> contents (spawnShips joins w)"
proof (induction joins arbitrary: w)
  case (Cons j joins)
  then have g: "good (Suc (length joins + n)) w" by simp
  from spawnShip_good [OF g, of j] Cons.IH [of "spawnShip j w"] show ?case by (auto simp: spawnShips_def)
qed (simp add: spawnShips_def)

section \<open>The tick\<close>

lemma broadcastSnapshot_good:
  assumes "good n w" "broadcastSnapshot fb snap w = (w', evs, err)"
  shows "good n w'" "wi_session_to_ship w' = wi_session_to_ship w"
    "contents w' \<subseteq> contents w" "{e \<in> contents w. \<not> e_isDestroyed e} \<subseteq> contents w'"
    "evs = (case Serialize fb snap of Inl _ \<Rightarrow> [] | Inr bytes \<Rightarrow> [SendPacketEvent 0 bytes])"
proof -
  let ?P = "good n w' \<and> wi_session_to_ship w' = wi_session_to_ship w \<and> contents w' \<subseteq> contents w
    \<and> {e \<in> contents w. \<not> e_isDestroyed e} \<subseteq> contents w'
    \<and> evs = (case Serialize fb snap of Inl _ \<Rightarrow> [] | Inr bytes \<Rightarrow> [SendPacketEvent 0 bytes])"
  have ?P
  proof (cases "Serialize fb snap")
    case (Inl e)
    with assms show ?thesis by (auto simp: broadcastSnapshot_def)
  next
    case (Inr bytes)
    let ?w = "w\<lparr>wi_entities := recycleDestroyed (wi_entities w)\<rparr>"
    have w': "w' = ?w" "evs = [SendPacketEvent 0 bytes]" using Inr assms(2) by (simp_all add: broadcastSnapshot_def)
    have cont: "contents ?w = {e \<in> contents w. \<not> e_isDestroyed e}" by (simp add: contents_recycle)
    have inv: "pool_inv (wi_entities ?w)" "entities_ok (p_storage (wi_entities ?w))"
      using assms(1) cont recycleDestroyed_inv unfolding entities_ok_contents good_def world_inv_def by auto
    have live: "has_live_ship (p_storage (wi_entities ?w)) k" if "has_live_ship (p_storage (wi_entities w)) k" for k
      using that cont unfolding has_live_ship_contents by blast
    have "good n ?w"
      unfolding good_def world_inv_def sessions_alive_def
      using inv live has_live_ship_has_ship assms(1)
      by (simp add: good_def world_inv_def sessions_alive_def room_for_def)
    with w' cont Inr show ?thesis by auto
  qed
  then show "good n w'" "wi_session_to_ship w' = wi_session_to_ship w" "contents w' \<subseteq> contents w"
    "{e \<in> contents w. \<not> e_isDestroyed e} \<subseteq> contents w'"
    "evs = (case Serialize fb snap of Inl _ \<Rightarrow> [] | Inr bytes \<Rightarrow> [SendPacketEvent 0 bytes])"
    by blast+
qed

lemma buildGameSnapshot_eq:
  "buildGameSnapshot w =
     (\<lparr>gs_snapshots = buildEntitySnapshots (wi_entities w), gs_leaderboard = buildLeaderboard w,
       gs_tick_number = ucast (wi_current_tick w)\<rparr>,
      w\<lparr>wi_snapshot_buffer := buildEntitySnapshots (wi_entities w)\<rparr>)"
  by (simp add: buildGameSnapshot_def buildLeaderboard_def)

text \<open>The clock, the size of the world and the life-cycle state are not touched by the steps, and
  the queue only by draining it.\<close>

definition same_frame :: "World \<Rightarrow> World \<Rightarrow> bool" where
  "same_frame w w' \<longleftrightarrow> wi_current_tick w' = wi_current_tick w \<and> wi_tick_interval w' = wi_tick_interval w
     \<and> wi_width w' = wi_width w \<and> wi_height w' = wi_height w \<and> wi_state w' = wi_state w
     \<and> wi_action_queue w' = wi_action_queue w"

lemma same_frame_trans: "same_frame a b \<Longrightarrow> same_frame b c \<Longrightarrow> same_frame a c"
  by (simp add: same_frame_def)

lemma same_frame_parts:
  "same_frame w w" "same_frame w (put_entity i e w)" "same_frame w (snd (acquire_entity w))"
  "same_frame w (w\<lparr>wi_entities := p\<rparr>)" "same_frame w (w\<lparr>wi_session_to_ship := m\<rparr>)"
  "same_frame w (w\<lparr>wi_snapshot_buffer := b\<rparr>)"
  by (simp_all add: same_frame_def put_entity_def acquire_entity_def case_prod_beta)

lemma same_frame_steps: "steps_to w w' \<Longrightarrow> same_frame w w'"
  by (auto simp: same_frame_def steps_to_def)

lemma same_frame_playerQuit: "same_frame w (playerQuit a w)"
  by (auto simp: same_frame_def playerQuit_def put_entity_def Let_def split: option.split)

lemma same_frame_moveAndShoot: "same_frame w (moveAndShoot a w)"
  by (auto simp: same_frame_def moveAndShoot_def put_entity_def acquire_entity_def Let_def
      split: option.split prod.split)

lemma same_frame_queue: "same_frame (w\<lparr>wi_action_queue := []\<rparr>) (fst (processInputQueue w))"
proof -
  have "same_frame (fst st) (fst (processAction a st))" for a st
    using same_frame_playerQuit [of "fst st" a] same_frame_moveAndShoot [of "fst st" a] same_frame_parts(1) [of "fst st"]
    by (simp add: processAction_def split: ActionType.split)
  note step = this
  have "same_frame (fst st) (fst (fold processAction as st))" for as st
  proof (induction as arbitrary: st)
    case (Cons a as)
    show ?case using same_frame_trans [OF step [of st a] Cons.IH [of "processAction a st"]] by simp
  qed (simp add: same_frame_parts)
  from this [of "(w\<lparr>wi_action_queue := []\<rparr>, [])"] show ?thesis by (simp add: processInputQueue_eq)
qed

lemma same_frame_reap: "same_frame w (fst (reapDestroyedShips w))"
  by (auto simp: same_frame_def reapDestroyedShips_def split: prod.split)

lemma same_frame_spawnShips: "same_frame w (spawnShips joins w)"
proof -
  have "same_frame w (spawnShip j w)" for j w
    by (auto simp: same_frame_def spawnShip_def put_entity_def acquire_entity_def Let_def split: prod.split)
  then show ?thesis unfolding spawnShips_def
    by (induction joins arbitrary: w) (auto intro: same_frame_parts same_frame_trans)
qed

lemma same_frame_broadcast: "same_frame w (fst (broadcastSnapshot fb s w))"
  by (auto simp: same_frame_def broadcastSnapshot_def split: sum.split)

text \<open>The stages of a tick, one after the other, in a good world: none of them fails.\<close>

lemma runTickStep_stages:
  assumes "good (2 * length (wi_action_queue w) + 50 + n) w" "rng_ok uniform"
  obtains w1 joins w2 deaths w3 g' w4 snap w5 evs err where
    "processInputQueue w = (w1, joins)" "good (length joins + 50 + n) w1"
    "distinct (map pj_session_id joins)"
    "resolveCollisions (updatePhysics (tick_dt w1) w1) = (w2, deaths, None)" "good (length joins + 50 + n) w2"
    "maintainAsteroidPopulation uniform w2 g = Some (w3, g')" "good (length joins + n) w3"
    "w4 = spawnShips joins w3" "good n w4"
    "buildGameSnapshot w4 = (snap, w4\<lparr>wi_snapshot_buffer := buildEntitySnapshots (wi_entities w4)\<rparr>)"
    "broadcastSnapshot fb snap (w4\<lparr>wi_snapshot_buffer := buildEntitySnapshots (wi_entities w4)\<rparr>) = (w5, evs, err)"
    "good n w5" "runTickStep uniform fb w g = Some (w5, deaths @ evs, g')"
    "same_frame (w\<lparr>wi_action_queue := []\<rparr>) w4" "same_frame w4 w5"
proof -
  obtain w1 joins where s1: "processInputQueue w = (w1, joins)" by fastforce
  have "good (length (wi_action_queue w) + (length (wi_action_queue w) + 50 + n)) w" 
    by (rule good_mono [OF assms(1)]) simp
  note p1 = processInputQueue_good [OF this s1]
  have g1: "good (length joins + 50 + n) w1" by (rule good_mono [OF p1(1)]) (use p1(3) in simp)
  let ?w = "updatePhysics (tick_dt w1) w1"
  obtain w2 deaths err where s2: "resolveCollisions ?w = (w2, deaths, err)" using prod_cases3 by blast
  note p2 = resolveCollisions_good [OF updatePhysics_good [OF g1] s2]
  have "good (50 + (length joins + n)) w2" using p2(1) by (simp add: ac_simps)
  then obtain w3 g' where s3: "maintainAsteroidPopulation uniform w2 g = Some (w3, g')" "good (length joins + n) w3"
    by (rule maintain_good [OF _ assms(2)])
  have g4: "good n (spawnShips joins w3)" using spawnShips_good [OF s3(2)] by blast
  let ?w4 = "spawnShips joins w3"
  let ?w4b = "?w4\<lparr>wi_snapshot_buffer := buildEntitySnapshots (wi_entities ?w4)\<rparr>"
  obtain snap where s4: "buildGameSnapshot ?w4 = (snap, ?w4b)" by (simp add: buildGameSnapshot_eq)
  have g4b: "good n ?w4b" using g4 by (simp add: good_def world_inv_def sessions_alive_def)
  obtain w5 evs err' where s5: "broadcastSnapshot fb snap ?w4b = (w5, evs, err')" using prod_cases3 by blast
  have run: "runTickStep uniform fb w g = Some (w5, deaths @ evs, g')"
    using s1 s2 p2(2) s3(1) s4 s5 by (simp add: runTickStep_def Let_def)
  have f1: "same_frame (w\<lparr>wi_action_queue := []\<rparr>) w1" using same_frame_queue [of w] s1 by simp
  have f2: "same_frame w1 w2"
  proof -
    obtain v x where c: "collideOuter (length (p_storage (wi_entities ?w))) [0..<length (p_storage (wi_entities ?w))] ?w = (v, x)"
      by fastforce
    note cg = collisions_good [OF updatePhysics_good [OF g1] c]
    have "w2 = fst (reapDestroyedShips v)"
      using s2 c cg(2) by (auto simp: resolveCollisions_def split: prod.splits)
    moreover have "same_frame w1 ?w" by (simp add: same_frame_def updatePhysics_def)
    ultimately show ?thesis using same_frame_steps [OF cg(1)] same_frame_reap [of v] same_frame_trans by metis
  qed
  have f3: "same_frame w2 w3"
    using s3(1) same_frame_parts(4) by (auto simp: maintainAsteroidPopulation_def split: option.splits)
  have f4: "same_frame (w\<lparr>wi_action_queue := []\<rparr>) ?w4"
    using f1 f2 f3 same_frame_spawnShips same_frame_trans by blast
  have "same_frame ?w4b w5" using same_frame_broadcast [of ?w4b fb snap] s5 by simp
  then have f5: "same_frame ?w4 w5" using same_frame_parts(6) same_frame_trans by blast
  show ?thesis
    by (rule that [OF s1 g1 p1(2) _ p2(1) s3 refl g4 s4 s5 broadcastSnapshot_good(1) [OF g4b s5] run f4 f5])
      (use s2 p2(2) in simp)
qed

lemma runTickStep_good:
  assumes "good (2 * length (wi_action_queue w) + 50 + n) w" "rng_ok uniform"
  shows "\<exists>w' evs g'. runTickStep uniform fb w g = Some (w', evs, g') \<and> good n w'
    \<and> same_frame (w\<lparr>wi_action_queue := []\<rparr>) w'"
proof -
  from runTickStep_stages [OF assms, of g fb] obtain w4 w5 evs g' where
    "good n w5" "runTickStep uniform fb w g = Some (w5, evs, g')"
    "same_frame (w\<lparr>wi_action_queue := []\<rparr>) w4" "same_frame w4 w5" by metis
  then show ?thesis using same_frame_trans by blast
qed

text \<open>C1.  A tick of a world in a consistent state always returns, whatever the random
  numbers, the queued commands and the entities: the collision pass cannot throw, the asteroid
  loop ends, and afterwards the world is consistent again and every session still has a ship
  that is in the pool and not destroyed.  The queue is empty.\<close>

theorem runTickStep_invariant:
  assumes "world_inv w" "sessions_alive w" "rng_ok uniform"
    "room_for (2 * length (wi_action_queue w) + 50) (wi_entities w)"
  shows "\<exists>w' evs g'. runTickStep uniform fb w g = Some (w', evs, g') \<and> world_inv w' \<and> sessions_alive w'
    \<and> same_frame (w\<lparr>wi_action_queue := []\<rparr>) w'"
  using runTickStep_good [of w 0 uniform fb g] assms by (auto simp: good_def)

end
