(* ===== verification/WorldPlayers.thy ===== *)
theory WorldPlayers
  imports WorldTick
begin

text \<open>
  What a player is promised: a join that is drained leads to a ship, commands touch only the
  sender's ship, a lost ship is reported once, and the leaderboard lists the ten best.
\<close>

section \<open>Joining\<close>

lemma processAction_snd: "snd (processAction action st) =
    (if ac_type action = AcPlayerJoin then playerJoin action (snd st) else snd st)"
  by (simp add: processAction_def split: ActionType.split)

lemma fold_pending_kept: "p \<in> set (snd st) \<Longrightarrow> p \<in> set (snd (fold processAction actions st))"
  by (induction actions arbitrary: st) (auto simp: processAction_snd playerJoin_def)

lemma fold_pending_from:
  "p \<in> set (snd (fold processAction actions st)) \<Longrightarrow>
   p \<in> set (snd st) \<or> (\<exists>b\<in>set actions. ac_type b = AcPlayerJoin \<and> ac_session_id b = pj_session_id p)"
  by (induction actions arbitrary: st) (fastforce simp: processAction_snd playerJoin_def split: if_splits)+

lemma join_pending:
  assumes "wi_action_queue w = pre @ a # post" "ac_type a = AcPlayerJoin"
    "\<forall>b\<in>set pre. ac_type b = AcPlayerJoin \<longrightarrow> ac_session_id b \<noteq> ac_session_id a"
  shows "\<lparr>pj_session_id = ac_session_id a, pj_player_name = ac_player_name a\<rparr> \<in> set (snd (processInputQueue w))"
proof -
  let ?st = "fold processAction pre (w\<lparr>wi_action_queue := []\<rparr>, [])"
  have "\<forall>p\<in>set (snd ?st). pj_session_id p \<noteq> ac_session_id a"
    using fold_pending_from [of _ pre "(w\<lparr>wi_action_queue := []\<rparr>, [])"] assms(3) by fastforce
  then have "\<lparr>pj_session_id = ac_session_id a, pj_player_name = ac_player_name a\<rparr> \<in> set (snd (processAction a ?st))"
    using assms(2) by (simp add: processAction_snd playerJoin_def)
  then show ?thesis by (simp add: processInputQueue_eq assms(1) fold_pending_kept)
qed

lemma spawnShips_keeps_session:
  "good (length joins + n) w \<Longrightarrow> sid \<notin> pj_session_id ` set joins \<Longrightarrow>
   map_of (wi_session_to_ship (spawnShips joins w)) sid = map_of (wi_session_to_ship w) sid"
proof (induction joins arbitrary: w)
  case (Cons j joins)
  then have g: "good (Suc (length joins + n)) w" by simp
  from spawnShip_good [OF g, of j] Cons.IH [of "spawnShip j w"] Cons.prems(2) show ?case
    by (auto simp: spawnShips_def)
qed (simp add: spawnShips_def)

lemma spawnShips_ship:
  assumes "good (length joins + n) w" "j \<in> set joins" "distinct (map pj_session_id joins)"
  shows "\<exists>k c. map_of (wi_session_to_ship (spawnShips joins w)) (pj_session_id j) = Some k
    \<and> makeShip j c (Entity_default\<lparr>e_id := k\<rparr>) \<in> contents (spawnShips joins w)"
  using assms
proof (induction joins arbitrary: w)
  case (Cons i joins)
  then have g: "good (Suc (length joins + n)) w" by simp
  note sp = spawnShip_good [OF g, of i]
  have run: "spawnShips (i # joins) w = spawnShips joins (spawnShip i w)" by (simp add: spawnShips_def)
  show ?case
  proof (cases "i = j")
    case True
    then have "pj_session_id j \<notin> pj_session_id ` set joins" using Cons.prems(3) by auto
    with spawnShips_keeps_session [OF sp [THEN conjunct1]] sp True
    have "map_of (wi_session_to_ship (spawnShips (i # joins) w)) (pj_session_id j) = Some (p_next_id (wi_entities w))"
      unfolding run by simp
    moreover have "makeShip j (freePosition w) (Entity_default\<lparr>e_id := p_next_id (wi_entities w)\<rparr>)
        \<in> contents (spawnShips (i # joins) w)"
      using spawnShips_good [OF sp [THEN conjunct1]] sp True unfolding run by blast
    ultimately show ?thesis by blast
  next
    case False
    with Cons.IH [OF sp [THEN conjunct1]] Cons.prems(2,3) show ?thesis unfolding run by simp
  qed
qed simp

lemma before_char_ship_name: "before_char NUL (ship_name s) = before_char NUL (take 31 s)"
proof -
  have name: "ship_name s = take 31 s @ replicate (32 - min (length s) 31) NUL"
    by (simp add: ship_name_def Let_def min_def)
  show ?thesis
  proof (cases "NUL \<in> set (take 31 s)")
    case True
    then obtain u t where u: "take 31 s = u @ NUL # t" "NUL \<notin> set u" by (metis split_list_first)
    then show ?thesis unfolding name u(1) by (simp add: before_char_append)
  next
    case False
    then show ?thesis unfolding name by (simp add: before_char_replicate before_char_id)
  qed
qed

text \<open>C21.  A player whose join is in the queue when a tick starts has a ship when it ends: the
  session is mapped to a live ship with the first 31 characters of the login as its name, full
  health and no score, whatever else is in the queue.  (Only the first join of a session in the
  queue counts.)\<close>

theorem join_gets_ship:
  assumes "world_inv w" "sessions_alive w" "rng_ok uniform"
    "room_for (2 * length (wi_action_queue w) + 50) (wi_entities w)"
    "wi_action_queue w = pre @ a # post" "ac_type a = AcPlayerJoin"
    "\<forall>b\<in>set pre. ac_type b = AcPlayerJoin \<longrightarrow> ac_session_id b \<noteq> ac_session_id a"
  shows "\<exists>w' evs g' k e sc. runTickStep uniform fb w g = Some (w', evs, g')
    \<and> map_of (wi_session_to_ship w') (ac_session_id a) = Some k
    \<and> Some e \<in> set (p_storage (wi_entities w')) \<and> e_id e = k \<and> e_type e = EtShip \<and> \<not> e_isDestroyed e
    \<and> e_ship e = Some sc \<and> before_char NUL (sh_name sc) = before_char NUL (take 31 (ac_player_name a))
    \<and> sh_score sc = 0 \<and> e_health e = Some \<lparr>h_current = 100, h_max = 100\<rparr>"
proof -
  have "good (2 * length (wi_action_queue w) + 50 + 0) w" using assms by (simp add: good_def)
  then obtain w1 joins w2 deaths w3 g' w4 snap w5 evs err where
    st: "processInputQueue w = (w1, joins)" "distinct (map pj_session_id joins)" "good (length joins + 0) w3"
      "w4 = spawnShips joins w3" "good 0 w4"
      "broadcastSnapshot fb snap (w4\<lparr>wi_snapshot_buffer := buildEntitySnapshots (wi_entities w4)\<rparr>) = (w5, evs, err)"
      "runTickStep uniform fb w g = Some (w5, deaths @ evs, g')"
    by (rule runTickStep_stages [OF _ assms(3), of _ _ g fb]) blast
  let ?j = "\<lparr>pj_session_id = ac_session_id a, pj_player_name = ac_player_name a\<rparr>"
  have "?j \<in> set joins" using join_pending [OF assms(5-7)] st(1) by simp
  from spawnShips_ship [OF st(3) this st(2)] obtain k c where
    k: "map_of (wi_session_to_ship w4) (ac_session_id a) = Some k"
       "makeShip ?j c (Entity_default\<lparr>e_id := k\<rparr>) \<in> contents w4"
    unfolding st(4) by auto
  let ?e = "makeShip ?j c (Entity_default\<lparr>e_id := k\<rparr>)"
  let ?w4 = "w4\<lparr>wi_snapshot_buffer := buildEntitySnapshots (wi_entities w4)\<rparr>"
  have g4: "good 0 ?w4" using st(5) by (simp add: good_def world_inv_def sessions_alive_def)
  note b = broadcastSnapshot_good [OF g4 st(6)]
  have "\<not> e_isDestroyed ?e" by (simp add: makeShip_def Entity_default_def)
  then have e: "?e \<in> contents w5" using b(4) k(2) by auto
  note nm = before_char_ship_name
  have e_is: "e_id ?e = k" "e_type ?e = EtShip" "e_health ?e = Some \<lparr>h_current = 100, h_max = 100\<rparr>"
    "e_ship ?e = Some (ShipComponent_default\<lparr>sh_name := ship_name (ac_player_name a),
         sh_thrust_power := kShipDefaultThrustPower, sh_drag := kShipDefaultDrag, sh_is_thrusting := True\<rparr>)"
    by (simp_all add: makeShip_def kShipDefaultHealth_def)
  show ?thesis
    using st(7) k(1) b(2) e e_is nm \<open>\<not> e_isDestroyed ?e\<close>
    by (intro exI [of _ w5] exI [of _ "deaths @ evs"] exI [of _ g'] exI [of _ k] exI [of _ ?e]
        exI [of _ "ShipComponent_default\<lparr>sh_name := ship_name (ac_player_name a),
         sh_thrust_power := kShipDefaultThrustPower, sh_drag := kShipDefaultDrag, sh_is_thrusting := True\<rparr>"])
      (simp add: ShipComponent_default_def)
qed

section \<open>Commands\<close>

lemma contents_put:
  assumes "i < length (p_storage (wi_entities w))" "slot_of w i = Some d"
  shows "x \<in> contents (put_entity i x w)" "e \<in> contents w \<Longrightarrow> e \<noteq> d \<Longrightarrow> e \<in> contents (put_entity i x w)"
proof -
  let ?S = "p_storage (wi_entities w)"
  have st: "p_storage (wi_entities (put_entity i x w)) = ?S[i := Some x]" by (simp add: put_entity_def put_slot_def)
  show "x \<in> contents (put_entity i x w)" unfolding st using assms(1) set_update_memI [of i ?S "Some x"] by simp
  assume "e \<in> contents w" "e \<noteq> d"
  then obtain j where j: "j < length ?S" "?S ! j = Some e" by (auto simp: in_set_conv_nth)
  with \<open>e \<noteq> d\<close> assms(2) have "j \<noteq> i" by (auto simp: slot_of_def)
  with j have "?S[i := Some x] ! j = Some e" by simp
  with j show "e \<in> contents (put_entity i x w)" unfolding st by (metis length_list_update mem_Collect_eq nth_mem)
qed

lemma contents_put_eq:
  assumes "pool_inv (wi_entities w)" "i < length (p_storage (wi_entities w))" "slot_of w i = Some d"
  shows "contents (put_entity i x w) = insert x (contents w - {d})"
proof -
  let ?S = "p_storage (wi_entities w)"
  have st: "p_storage (wi_entities (put_entity i x w)) = ?S[i := Some x]" by (simp add: put_entity_def put_slot_def)
  have d: "?S ! i = Some d" using assms(2,3) by (simp add: slot_of_def)
  have "e \<in> insert x (contents w - {d})" if "Some e \<in> set (?S[i := Some x])" for e
  proof -
    from that obtain j where j: "j < length ?S" "?S[i := Some x] ! j = Some e" by (auto simp: in_set_conv_nth)
    show ?thesis
    proof (cases "j = i")
      case False
      then have e: "?S ! j = Some e" using j by simp
      then have "e \<noteq> d" using pool.ids_distinct [OF assms(1) j(1) assms(2), of e d] d False by auto
      with e j(1) show ?thesis by (auto simp: in_set_conv_nth)
    qed (use j in simp)
  qed
  moreover note contents_put [OF assms(2,3), where x = x]
  ultimately show ?thesis unfolding st by blast
qed

text \<open>C29.  What a command does, exactly.  A join is noted once per session and changes nothing else.  For a session
  without a ship a quit and a move do nothing.  Otherwise a quit marks the session's ship destroyed and forgets the session, a
  move turns the ship to the given angle, and a shot also adds one bullet: at the rim of the ship in that
  direction, with speed 500 and damage 25, with a new number and owned by the ship.  No other entity and no other
  session is touched, and nothing else is added or lost.\<close>

theorem processAction_effect:
  assumes "world_inv w" "sessions_alive w" "room_for 1 (wi_entities w)" "processAction a (w, ps) = (w', ps')"
  shows "(case map_of (wi_session_to_ship w) (ac_session_id a) of
      None \<Rightarrow> w' = w
    | Some k \<Rightarrow> \<exists>ship t. ship \<in> contents w \<and> e_id ship = k \<and> e_transform ship = Some t \<and>
        (let turned = ship\<lparr>e_transform := Some (t\<lparr>t_angle := ac_angle a\<rparr>)\<rparr>;
             direction = mkvec (fcos (ac_angle a)) (fsin (ac_angle a));
             bullet = Entity_default\<lparr>e_id := p_next_id (wi_entities w), e_type := EtBullet, e_radius := Fin 2,
               e_transform := Some \<lparr>t_position = vadd (t_position t) (vscale direction (e_radius ship)),
                 t_velocity = vscale direction (Fin 500), t_angle = Fin 0\<rparr>,
               e_combat := Some \<lparr>co_damage = 25, co_owner_id = k\<rparr>\<rparr>
         in case ac_type a of
              AcPlayerQuit \<Rightarrow> contents w' = insert (ship\<lparr>e_isDestroyed := True\<rparr>) (contents w - {ship})
                \<and> map_of (wi_session_to_ship w') = (map_of (wi_session_to_ship w))(ac_session_id a := None)
            | AcMoveAndShoot \<Rightarrow>
                contents w' = (if ac_is_shooting a then {bullet} else {}) \<union> insert turned (contents w - {ship})
                \<and> wi_session_to_ship w' = wi_session_to_ship w
            | _ \<Rightarrow> w' = w))
    \<and> ps' = (if ac_type a = AcPlayerJoin \<and> ac_session_id a \<notin> pj_session_id ` set ps
              then ps @ [\<lparr>pj_session_id = ac_session_id a, pj_player_name = ac_player_name a\<rparr>] else ps)"
proof (rule conjI, goal_cases)
  case 1
  have g: "good (Suc 0) w" using assms(1-3) by (simp add: good_def)
  have w': "w' = (case ac_type a of AcPlayerQuit \<Rightarrow> playerQuit a w | AcMoveAndShoot \<Rightarrow> moveAndShoot a w | _ \<Rightarrow> w)"
    using assms(4) by (auto simp: processAction_def split: ActionType.splits)
  show ?case
  proof (cases "map_of (wi_session_to_ship w) (ac_session_id a)")
    case None
    then show ?thesis by (simp add: w' playerQuit_def moveAndShoot_def split: ActionType.split)
  next
    case (Some k)
    obtain i d t where d: "i < length (p_storage (wi_entities w))" "slot_of w i = Some d" "e_id d = k" "e_transform d = Some t"
      "wi_session_to_ship (moveAndShoot a w) = wi_session_to_ship w"
      "contents (moveAndShoot a w) =
       (if ac_is_shooting a
        then insert (makeBullet (d\<lparr>e_transform := Some (t\<lparr>t_angle := ac_angle a\<rparr>)\<rparr>) (t\<lparr>t_angle := ac_angle a\<rparr>) k
               (Entity_default\<lparr>e_id := p_next_id (wi_entities w)\<rparr>))
        else id) (contents (put_entity i (d\<lparr>e_transform := Some (t\<lparr>t_angle := ac_angle a\<rparr>)\<rparr>) w))"
      by (rule moveAndShoot_ship [OF g Some])
    have inv: "pool_inv (wi_entities w)" using assms(1) by (simp add: world_inv_def)
    have "findByEntityID (wi_entities w) k = Some i"
      using findByEntityID_iff [OF inv] d(1-3) by (auto simp: slot_of_def)
    then have quit: "contents (playerQuit a w) = contents (put_entity i (d\<lparr>e_isDestroyed := True\<rparr>) w)"
      "map_of (wi_session_to_ship (playerQuit a w)) = (map_of (wi_session_to_ship w))(ac_session_id a := None)"
      using Some d(2) by (simp_all add: playerQuit_def put_entity_def delete_conv')
    have "d \<in> contents w" using d(1,2) by (auto simp: slot_of_def in_set_conv_nth)
    with Some d(3-6) quit show ?thesis
      by (auto simp: w' Let_def contents_put_eq [OF inv d(1,2)] makeBullet_def bullet_constants TransformComponent_default_def
          split: ActionType.split intro!: exI [of _ d] exI [of _ t])
  qed
next
  case 2
  show ?case using processAction_snd [of a "(w, ps)"] assms(4) by (auto simp: playerJoin_def intro: rev_image_eqI)
qed

text \<open>A shot turns the ship back to heading zero: whatever direction the player had
  turned to, handling the shot sets the ship's angle to 0, and the bullet starts at the ship's
  rim on the positive x axis with velocity (500, 0), owned by the ship.\<close>

theorem shot_ignores_heading:
  assumes "world_inv w" "sessions_alive w" "room_for 1 (wi_entities w)" "wi_action_queue w = []"
    "map_of (wi_session_to_ship w) sid = Some k" "Some d \<in> set (p_storage (wi_entities w))" "e_id d = k"
    "e_transform d = Some t" "t_position t = fvec x y" "e_radius d = Fin r"
  shows "\<exists>w' b. processInputQueue (world_on_event (ShotMessageEvent sid) w) = (w', [])
    \<and> Some (d\<lparr>e_transform := Some (t\<lparr>t_angle := Fin 0\<rparr>)\<rparr>) \<in> set (p_storage (wi_entities w'))
    \<and> Some b \<in> set (p_storage (wi_entities w')) \<and> e_type b = EtBullet
    \<and> e_transform b = Some \<lparr>t_position = fvec (x + r) y, t_velocity = fvec 500 0, t_angle = Fin 0\<rparr>
    \<and> e_combat b = Some \<lparr>co_damage = 25, co_owner_id = k\<rparr>"
proof -
  let ?a = "ActionEvent_default\<lparr>ac_type := AcMoveAndShoot, ac_session_id := sid, ac_is_shooting := True\<rparr>"
  let ?w = "w\<lparr>wi_action_queue := []\<rparr>"
  have g: "good (Suc 0) ?w" using assms(1-3) by (simp add: good_def world_inv_def sessions_alive_def)
  have m: "map_of (wi_session_to_ship ?w) (ac_session_id ?a) = Some k" using assms(5) by simp
  obtain i d' t' where d: "i < length (p_storage (wi_entities ?w))" "slot_of ?w i = Some d'" "e_id d' = k"
      "e_transform d' = Some t'"
      "contents (moveAndShoot ?a ?w) =
       (if ac_is_shooting ?a
        then insert (makeBullet (d'\<lparr>e_transform := Some (t'\<lparr>t_angle := ac_angle ?a\<rparr>)\<rparr>) (t'\<lparr>t_angle := ac_angle ?a\<rparr>) k
               (Entity_default\<lparr>e_id := p_next_id (wi_entities ?w)\<rparr>))
        else id) (contents (put_entity i (d'\<lparr>e_transform := Some (t'\<lparr>t_angle := ac_angle ?a\<rparr>)\<rparr>) ?w))"
    by (rule moveAndShoot_ship [OF g m])
  have same: "d' = d"
  proof -
    obtain j where j: "j < length (p_storage (wi_entities w))" "p_storage (wi_entities w) ! j = Some d"
      using assms(6) by (auto simp: in_set_conv_nth)
    have "pool_inv (wi_entities w)" using assms(1) by (simp add: world_inv_def)
    from pool.ids_distinct [OF this j(1) _ j(2), of i d'] d(1-3) assms(7) have "j = i" by (simp add: slot_of_def)
    with j d(2) show ?thesis by (simp add: slot_of_def)
  qed
  let ?t = "t\<lparr>t_angle := Fin 0\<rparr>"
  let ?d = "d\<lparr>e_transform := Some ?t\<rparr>"
  let ?b = "makeBullet ?d ?t k (Entity_default\<lparr>e_id := p_next_id (wi_entities w)\<rparr>)"
  have run: "processInputQueue (world_on_event (ShotMessageEvent sid) w) = (moveAndShoot ?a ?w, [])"
    using assms(4) by (simp add: processInputQueue_eq world_on_event_def onShotReceived_def enqueueAction_def
        queue_push_def processAction_def ActionEvent_default_def)
  have angle: "ac_angle ?a = Fin 0" "ac_is_shooting ?a" by (simp_all add: ActionEvent_default_def)
  have "?d \<in> contents (moveAndShoot ?a ?w)" "?b \<in> contents (moveAndShoot ?a ?w)"
    using contents_put(1) [OF d(1,2), of ?d] d(4,5) assms(8) angle unfolding same by auto
  moreover have "e_transform ?b = Some \<lparr>t_position = fvec (x + r) y, t_velocity = fvec 500 0, t_angle = Fin 0\<rparr>"
    using assms(9,10) by (simp add: makeBullet_def kBulletSpeed_def TransformComponent_default_def)
  moreover have "e_type ?b = EtBullet" "e_combat ?b = Some \<lparr>co_damage = 25, co_owner_id = k\<rparr>"
    by (simp_all add: makeBullet_def kBulletDamage_def Let_def)
  ultimately show ?thesis using run by blast
qed

section \<open>Losing a ship\<close>

lemma map_of_live:
  "wf_alist m \<Longrightarrow> map_of (filter (\<lambda>x. snd x \<notin> ids) m) sid = Some k \<longleftrightarrow> map_of m sid = Some k \<and> k \<notin> ids"
  by (auto simp: map_of_filter_wf split: option.split)

text \<open>After the clean-up a number is found exactly if it was found and its entity was not destroyed.\<close>

lemma found_after_recycle:
  assumes "pool_inv p" "findByEntityID (recycleDestroyed p) k = Some i"
  shows "k \<notin> destroyed_ids (p_storage p)"
proof
  assume "k \<in> destroyed_ids (p_storage p)"
  then obtain e where e: "Some e \<in> set (p_storage p)" "e_isDestroyed e" "e_id e = k"
    by (auto simp: destroyed_ids_iff)
  then obtain j where j: "j < length (p_storage p)" "p_storage p ! j = Some e" by (auto simp: in_set_conv_nth)
  from assms(2) pool.lookup_reclaim [OF assms(1)] obtain d where
    d: "findByEntityID p k = Some i" "p_storage p ! i = Some d" "\<not> e_isDestroyed d" by auto
  with findByEntityID_iff [OF assms(1)] have "i < length (p_storage p)" "e_id d = k" by auto
  with pool.ids_distinct [OF assms(1) j(1) _ j(2) d(2)] e d j show False by simp
qed

text \<open>The events of the reaping pass.\<close>

lemma death_events:
  assumes "wf_alist m" "evs = map (\<lambda>x. ShipDestroyedEvent (fst x)) (filter (\<lambda>x. snd x \<in> ids) m)"
  shows "distinct evs" "ev \<in> set evs \<longleftrightarrow> (\<exists>sid k. ev = ShipDestroyedEvent sid \<and> map_of m sid = Some k \<and> k \<in> ids)"
proof -
  have "distinct (map fst (filter (\<lambda>x. snd x \<in> ids) m))" using wf_alist_filter [OF assms(1)] by (simp add: wf_alist_def)
  then have "distinct (map ShipDestroyedEvent (map fst (filter (\<lambda>x. snd x \<in> ids) m)))"
    by (subst distinct_map) (simp add: inj_on_def)
  then show "distinct evs" by (simp add: assms(2) comp_def)
  show "ev \<in> set evs \<longleftrightarrow> (\<exists>sid k. ev = ShipDestroyedEvent sid \<and> map_of m sid = Some k \<and> k \<in> ids)"
    using assms(1) by (force simp: assms(2) wf_alist_def)
qed

text \<open>C22.  The collision pass reports exactly the lost ships: it publishes one
  \<open>ShipDestroyedEvent\<close> for each session that had a ship before and has none after it, none
  twice and nothing else; a session keeps its mapping exactly if its ship is still in the pool,
  and no entity that was destroyed is.\<close>

theorem resolveCollisions_reports:
  assumes "world_inv w" "sessions_alive w" "resolveCollisions w = (w', evs, err)"
  shows "err = None \<and> distinct evs
    \<and> (\<forall>ev. ev \<in> set evs \<longleftrightarrow> (\<exists>sid. ev = ShipDestroyedEvent sid
         \<and> map_of (wi_session_to_ship w) sid \<noteq> None \<and> map_of (wi_session_to_ship w') sid = None))
    \<and> (\<forall>sid k. map_of (wi_session_to_ship w') sid = Some k \<longleftrightarrow>
         map_of (wi_session_to_ship w) sid = Some k \<and> findByEntityID (wi_entities w') k \<noteq> None)
    \<and> (\<forall>e. Some e \<in> set (p_storage (wi_entities w')) \<longrightarrow> \<not> e_isDestroyed e)"
proof -
  have g: "good 0 w" using assms(1,2) unat_bounds(4) by (simp add: good_def room_for_def)
  let ?n = "length (p_storage (wi_entities w))"
  obtain w1 x where c: "collideOuter ?n [0..<?n] w = (w1, x)" by fastforce
  note cg = collisions_good [OF g c]
  let ?ids = "destroyed_ids (p_storage (wi_entities w1))" and ?m = "wi_session_to_ship w"
  have run: "w' = w1\<lparr>wi_session_to_ship := filter (\<lambda>x. snd x \<notin> ?ids) ?m,
        wi_entities := recycleDestroyed (wi_entities w1)\<rparr>"
      "evs = map (\<lambda>x. ShipDestroyedEvent (fst x)) (filter (\<lambda>x. snd x \<in> ?ids) ?m)" "err = None"
    using c cg(2,5) assms(3) by (simp_all add: resolveCollisions_def reapDestroyedShips_def reapSessions_eq)
  have wf: "wf_alist ?m" using assms(1) by (simp add: world_inv_def)
  have g': "good 0 w'" using resolveCollisions_good(1) [OF g assms(3)] .
  have m': "map_of (wi_session_to_ship w') sid = Some k \<longleftrightarrow> map_of ?m sid = Some k \<and> k \<notin> ?ids" for sid k
    using map_of_live [OF wf] by (simp add: run(1))
  have inv: "pool_inv (wi_entities w1)" using cg(3) by (simp add: world_inv_def)
  have found: "map_of (wi_session_to_ship w') sid = Some k \<longleftrightarrow>
      map_of ?m sid = Some k \<and> findByEntityID (wi_entities w') k \<noteq> None" for sid k
    using m' [of sid k] session_ship_found [OF g'] found_after_recycle [OF inv, of k]
    by (auto simp: run(1) simp del: not_None_eq)
  note dead = death_events [OF wf run(2)]
  have evs: "ev \<in> set evs \<longleftrightarrow> (\<exists>sid. ev = ShipDestroyedEvent sid
      \<and> map_of ?m sid \<noteq> None \<and> map_of (wi_session_to_ship w') sid = None)" for ev
    unfolding dead(2) using m' by (metis not_None_eq option.inject)
  have "\<not> e_isDestroyed e" if "Some e \<in> set (p_storage (wi_entities w'))" for e
    using that contents_recycle [of "wi_entities w1"] by (auto simp: run(1))
  with run(3) dead(1) evs found show ?thesis by blast
qed

section \<open>The leaderboard\<close>

text \<open>The living ships of a pool, in storage order, and how a ship is listed.\<close>

definition living_ship :: "Entity \<Rightarrow> bool" where
  "living_ship e \<longleftrightarrow> e_type e = EtShip \<and> \<not> e_isDestroyed e \<and> e_ship e \<noteq> None
     \<and> (\<exists>h. e_health e = Some h \<and> h_current h \<noteq> 0)"

definition living_ships :: "EntityPool \<Rightarrow> Entity list" where
  "living_ships p = [e. Some e \<leftarrow> p_storage p, living_ship e]"

definition board_entry :: "Entity \<Rightarrow> LeaderboardEntry" where
  "board_entry e = \<lparr>le_name = before_char NUL (sh_name (the (e_ship e))), le_score = sh_score (the (e_ship e))\<rparr>"

lemma leaderboardEntries_living: "leaderboardEntries (p_storage p) = map board_entry (living_ships p)"
proof -
  have "leaderboardEntries st = map board_entry [e. Some e \<leftarrow> st, living_ship e]" for st
  proof (induction st)
    case (Cons slot st)
    have "leaderboardEntries (slot # st) = leaderboardEntries [slot] @ leaderboardEntries st"
      by (simp add: leaderboardEntries_def)
    moreover have "leaderboardEntries [slot] = map board_entry [e. Some e \<leftarrow> [slot], living_ship e]"
      by (auto simp: leaderboardEntries_def living_ship_def board_entry_def word_neq_0_conv split: option.split)
    ultimately show ?case using Cons.IH by simp
  qed (simp add: leaderboardEntries_def)
  then show ?thesis by (simp add: living_ships_def)
qed

lemma insort_key_map: "insort_key f (g x) (map g xs) = map g (insort_key (\<lambda>y. f (g y)) x xs)"
  by (induction xs) simp_all

lemma sort_key_map: "sort_key f (map g xs) = map g (sort_key (\<lambda>y. f (g y)) xs)"
  by (induction xs) (simp_all add: insort_key_map)

text \<open>C37.  The leaderboard lists the ten best of the living ships, or all if there are fewer: each
  entry shows the name and the score of a ship that is in the pool, not destroyed and has health left, each such
  ship once; it is sorted by descending score, and no ship that is left out has a higher score than
  one that is listed.\<close>

theorem buildLeaderboard_top:
  "\<exists>listed rest. buildLeaderboard w = map board_entry listed
    \<and> mset (living_ships (wi_entities w)) = mset listed + mset rest
    \<and> length listed = min 10 (length (living_ships (wi_entities w)))
    \<and> sorted_wrt (\<lambda>a b. le_score b \<le> le_score a) (buildLeaderboard w)
    \<and> (\<forall>a\<in>set listed. \<forall>b\<in>set rest. le_score (board_entry b) \<le> le_score (board_entry a))"
proof -
  let ?ships = "living_ships (wi_entities w)" and ?key = "\<lambda>e. - int (unat (le_score e))"
  let ?s = "sort_key (\<lambda>e. ?key (board_entry e)) ?ships"
  have b: "buildLeaderboard w = map board_entry (take 10 ?s)"
    by (simp add: buildLeaderboard_def leaderboardEntries_living kMaxLeaderboardSize_def min_def Let_def
      take_map sort_key_map)
  have "sorted (map (\<lambda>e. ?key (board_entry e)) ?s)" by (rule sorted_sort_key)
  then have "sorted_wrt (\<lambda>a b. le_score (board_entry b) \<le> le_score (board_entry a)) (take 10 ?s @ drop 10 ?s)"
    by (simp add: sorted_wrt_map word_le_def)
  then have s: "sorted_wrt (\<lambda>a b. le_score (board_entry b) \<le> le_score (board_entry a)) (take 10 ?s)"
      "\<forall>a\<in>set (take 10 ?s). \<forall>b\<in>set (drop 10 ?s). le_score (board_entry b) \<le> le_score (board_entry a)"
    unfolding sorted_wrt_append by blast+
  have "mset ?ships = mset (take 10 ?s) + mset (drop 10 ?s)" by (metis append_take_drop_id mset_append mset_sort)
  moreover have "length (take 10 ?s) = min 10 (length ?ships)" by (simp add: min.commute)
  ultimately show ?thesis using s unfolding b
    by (intro exI [of _ "take 10 ?s"] exI [of _ "drop 10 ?s"]) (simp add: sorted_wrt_map)
qed

section \<open>What clients see\<close>

lemma clean_slot_filter: "filter isActive (map clean_slot st) = filter isActive st"
  by (induction st) (auto simp: clean_slot_def isActive_def split: option.split)

lemma snapshots_recycle: "buildEntitySnapshots (recycleDestroyed p) = buildEntitySnapshots p"
  by (simp add: buildEntitySnapshots_def buildEntitySnapshots_loop_eq recycleDestroyed_storage clean_slot_filter)

lemma leaderboard_recycle: "leaderboardEntries (map clean_slot st) = leaderboardEntries st"
proof (induction st)
  case (Cons s st)
  then show ?case
    by (cases s) (auto simp: leaderboardEntries_def clean_slot_def split: option.split)
qed simp

lemma resolveCollisions_events:
  assumes "resolveCollisions w = (w', evs, err)" "ev \<in> set evs"
  shows "\<exists>sid. ev = ShipDestroyedEvent sid"
  using assms
  by (auto simp: resolveCollisions_def reapDestroyedShips_def reapSessions_eq Let_def split: prod.splits option.splits if_splits)

lemma tick_publishes:
  assumes "world_inv w" "sessions_alive w" "rng_ok uniform"
    "room_for (2 * length (wi_action_queue w) + 50) (wi_entities w)"
    "runTickStep uniform fb w g = Some (w', evs, g')"
    "\<forall>e\<in>set (buildEntitySnapshots (wi_entities w')). fb_entity_ok fb e"
    "length (buildEntitySnapshots (wi_entities w')) \<le> 0xFFFFFFFF"
  shows "\<exists>deaths bytes. evs = deaths @ [SendPacketEvent 0 bytes] \<and> (\<forall>ev\<in>set deaths. \<exists>sid. ev = ShipDestroyedEvent sid)
    \<and> Deserialize fb bytes = Inr \<lparr>gs_snapshots = buildEntitySnapshots (wi_entities w'),
        gs_leaderboard = map seen_entry (buildLeaderboard w'), gs_tick_number = ucast (wi_current_tick w)\<rparr>"
proof -
  have "good (2 * length (wi_action_queue w) + 50 + 0) w" using assms by (simp add: good_def)
  then obtain w1 w2 deaths w4 snap w5 evs5 err g5 where
    st: "buildGameSnapshot w4 = (snap, w4\<lparr>wi_snapshot_buffer := buildEntitySnapshots (wi_entities w4)\<rparr>)"
      "broadcastSnapshot fb snap (w4\<lparr>wi_snapshot_buffer := buildEntitySnapshots (wi_entities w4)\<rparr>) = (w5, evs5, err)"
      "runTickStep uniform fb w g = Some (w5, deaths @ evs5, g5)"
      "same_frame (w\<lparr>wi_action_queue := []\<rparr>) w4" "good 0 w4"
      "resolveCollisions (updatePhysics (tick_dt w1) w1) = (w2, deaths, None)"
    by (rule runTickStep_stages [OF _ assms(3), of _ _ g fb]) blast
  let ?w4 = "w4\<lparr>wi_snapshot_buffer := buildEntitySnapshots (wi_entities w4)\<rparr>"
  have w': "w' = w5" "evs = deaths @ evs5" using st(3) assms(5) by simp_all
  have snap: "snap = \<lparr>gs_snapshots = buildEntitySnapshots (wi_entities w4), gs_leaderboard = buildLeaderboard w4,
      gs_tick_number = ucast (wi_current_tick w)\<rparr>"
    using st(1,4) by (simp add: buildGameSnapshot_eq same_frame_def)
  have same: "buildEntitySnapshots (wi_entities w5) = buildEntitySnapshots (wi_entities w4)"
    "buildLeaderboard w5 = buildLeaderboard w4"
    using st(2) snapshots_recycle leaderboard_recycle
    by (auto simp: broadcastSnapshot_def buildLeaderboard_def recycleDestroyed_storage split: sum.splits)
  have g4: "good 0 ?w4" using st(5) by (simp add: good_def world_inv_def sessions_alive_def)
  have "length (gs_leaderboard snap) \<le> kMaxLeaderboardSize"
    by (simp add: snap buildLeaderboard_def Let_def)
  moreover have "length (gs_snapshots snap) \<le> 0xFFFFFFFF" "\<forall>e\<in>set (gs_snapshots snap). fb_entity_ok fb e"
    using assms(6,7) same(1) w'(1) by (simp_all add: snap)
  ultimately obtain bytes where bytes: "Serialize fb snap = Inr bytes"
      "Deserialize fb bytes = Inr (snap\<lparr>gs_leaderboard := map seen_entry (gs_leaderboard snap)\<rparr>)"
    using serialize_parse by blast
  have "evs5 = [SendPacketEvent 0 bytes]" using broadcastSnapshot_good(5) [OF g4 st(2)] bytes(1) by simp
  with bytes(2) w' same resolveCollisions_events [OF st(6)] show ?thesis by (intro exI [of _ deaths] exI [of _ bytes]) (simp add: snap)
qed

text \<open>Every tick ends by broadcasting the world as it is then: if FlatBuffers represents the
  entities faithfully and there are less than 2^32 of them, the last event of the tick is a
  packet for all clients, and parsing it gives exactly the active entities of the world after
  the tick, its leaderboard (names as on the wire) and the number of the tick.\<close>

theorem tick_broadcasts_world:
  assumes "world_inv w" "sessions_alive w" "rng_ok uniform"
    "room_for (2 * length (wi_action_queue w) + 50) (wi_entities w)"
    "runTickStep uniform fb w g = Some (w', evs, g')"
    "\<forall>e\<in>set (buildEntitySnapshots (wi_entities w')). fb_entity_ok fb e"
    "length (buildEntitySnapshots (wi_entities w')) \<le> 0xFFFFFFFF"
  shows "\<exists>pre bytes. evs = pre @ [SendPacketEvent 0 bytes]
    \<and> Deserialize fb bytes = Inr \<lparr>gs_snapshots = buildEntitySnapshots (wi_entities w'),
        gs_leaderboard = map seen_entry (buildLeaderboard w'), gs_tick_number = ucast (wi_current_tick w)\<rparr>"
  using tick_publishes [OF assms] by blast

section \<open>Witnesses\<close>

definition empty_world :: World where
  "empty_world = \<lparr>wi_current_tick = 7, wi_action_queue = [], wi_entities = EntityPool_init,
     wi_snapshot_buffer = [], wi_tick_interval = 16666, wi_width = kDefaultWidth, wi_height = kDefaultHeight,
     wi_state = Running, wi_session_to_ship = []\<rparr>"

lemma empty_world_good: "good 1000 empty_world"
  by (simp add: good_def world_inv_def sessions_alive_def empty_world_def pool_inv_init room_for_def
      EntityPool_init_def entities_ok_def) (simp flip: EntityPool_init_def add: pool_inv_init)

text \<open>A join and the quit of the same session in one tick: the join wins.\<close>

definition join_quit_world :: World where
  "join_quit_world = empty_world\<lparr>wi_action_queue :=
     [ActionEvent_default\<lparr>ac_type := AcPlayerJoin, ac_session_id := 4, ac_player_name := ''Ann''\<rparr>,
      ActionEvent_default\<lparr>ac_type := AcPlayerQuit, ac_session_id := 4\<rparr>]\<rparr>"

lemma join_quit_world_good: "good 1000 join_quit_world"
  using empty_world_good by (simp add: join_quit_world_def good_def world_inv_def sessions_alive_def)

theorem join_gets_ship_witness:
  "\<exists>w' evs g' k. runTickStep low_rng sample_fb join_quit_world () = Some (w', evs, g')
    \<and> map_of (wi_session_to_ship w') 4 = Some k \<and> k \<in> e_id ` {e. Some e \<in> set (p_storage (wi_entities w'))}"
proof -
  let ?a = "ActionEvent_default\<lparr>ac_type := AcPlayerJoin, ac_session_id := 4, ac_player_name := ''Ann''\<rparr>"
  have w: "world_inv join_quit_world" "sessions_alive join_quit_world"
    "room_for (2 * length (wi_action_queue join_quit_world) + 50) (wi_entities join_quit_world)"
    using join_quit_world_good by (simp_all add: good_def room_for_def join_quit_world_def)
  have "wi_action_queue join_quit_world = [] @ ?a # [ActionEvent_default\<lparr>ac_type := AcPlayerQuit, ac_session_id := 4\<rparr>]"
    by (simp add: join_quit_world_def)
  from join_gets_ship [OF w(1,2) low_rng_ok w(3) this] show ?thesis by simp blast
qed

text \<open>A world with one player's ship, and one with a bullet of someone else on top of it.\<close>

definition sample_world :: World where
  "sample_world = spawnShip \<lparr>pj_session_id = 4, pj_player_name = ''Ann''\<rparr> empty_world"

definition sample_player :: Entity where
  "sample_player = makeShip \<lparr>pj_session_id = 4, pj_player_name = ''Ann''\<rparr> \<lparr>c_center = fvec 0 0, c_radius = Fin 1000\<rparr>
     (Entity_default\<lparr>e_id := 1\<rparr>)"

lemma freePosition_empty: "freePosition empty_world = \<lparr>c_center = fvec 0 0, c_radius = Fin 1000\<rparr>"
  by (simp add: freePosition_def collectLiveEntities_def empty_world_def EntityPool_init_def
      largestEmptyCircle_def kDefaultWidth_def kDefaultHeight_def)

lemma sample_world_fields:
  "sample_world = empty_world\<lparr>wi_entities := \<lparr>p_storage = [Some sample_player], p_free = [], p_index = [1 \<mapsto> 0], p_next_id = 2\<rparr>,
     wi_session_to_ship := [(4, 1)]\<rparr>"
  by (simp add: sample_world_def spawnShip_def freePosition_empty [unfolded empty_world_def EntityPool_init_def] acquire_entity_def put_entity_def put_slot_def
      acquire_def empty_world_def EntityPool_init_def slot_of_def sample_player_def makeShip_def Let_def)

lemma sample_world_good: "good 999 sample_world"
  using spawnShip_good [of 999 empty_world] empty_world_good by (simp add: sample_world_def)

theorem processAction_effect_witness:
  "\<exists>w' bullet. fst (processAction (ActionEvent_default\<lparr>ac_type := AcMoveAndShoot, ac_session_id := 4, ac_is_shooting := True\<rparr>)
      (sample_world, [])) = w' \<and> bullet \<in> contents w' \<and> e_combat bullet = Some \<lparr>co_damage = 25, co_owner_id = 1\<rparr>"
proof -
  let ?a = "ActionEvent_default\<lparr>ac_type := AcMoveAndShoot, ac_session_id := 4, ac_is_shooting := True\<rparr>"
  have w: "world_inv sample_world" "sessions_alive sample_world" "room_for 1 (wi_entities sample_world)"
    using sample_world_good by (simp_all add: good_def room_for_def)
  have k: "map_of (wi_session_to_ship sample_world) (ac_session_id ?a) = Some 1" by (simp add: sample_world_fields)
  obtain w' ps' where r: "processAction ?a (sample_world, []) = (w', ps')" by fastforce
  from processAction_effect [OF w r] k show ?thesis unfolding r by (auto simp: Let_def)
qed

theorem buildLeaderboard_top_witness:
  "\<exists>e. buildLeaderboard sample_world = [board_entry e] \<and> living_ship e"
proof -
  have ships: "living_ships (wi_entities sample_world) = [sample_player]"
    by (simp add: living_ships_def living_ship_def sample_world_fields sample_player_def makeShip_def kShipDefaultHealth_def
        Entity_default_def)
  then have "living_ship sample_player" by (auto simp: living_ships_def dest!: arg_cong [where f = set] split: if_splits)
  with buildLeaderboard_top [of sample_world] show ?thesis
    unfolding ships by (auto simp: length_Suc_conv)
qed

theorem shot_ignores_heading_witness:
  "\<exists>b. Some b \<in> set (p_storage (wi_entities (fst (processInputQueue (world_on_event (ShotMessageEvent 4) sample_world)))))
    \<and> e_transform b = Some \<lparr>t_position = fvec 5 0, t_velocity = fvec 500 0, t_angle = Fin 0\<rparr>"
proof -
  have w: "world_inv sample_world" "sessions_alive sample_world" "room_for 1 (wi_entities sample_world)"
    using sample_world_good by (simp_all add: good_def room_for_def)
  have "wi_action_queue sample_world = []" "map_of (wi_session_to_ship sample_world) 4 = Some 1"
    "Some sample_player \<in> set (p_storage (wi_entities sample_world))" "e_id sample_player = 1"
    "e_transform sample_player = Some \<lparr>t_position = fvec 0 0, t_velocity = vzero, t_angle = Fin 0\<rparr>"
    "e_radius sample_player = Fin 5"
    by (simp_all add: sample_world_fields empty_world_def sample_player_def makeShip_def kShipDefaultRadius_def)
  from shot_ignores_heading [OF w this(1-5) _ this(6), of 0 0] show ?thesis by auto
qed

theorem runTickStep_invariant_witness:
  "\<exists>w' evs g'. runTickStep low_rng sample_fb sample_world () = Some (w', evs, g') \<and> world_inv w' \<and> sessions_alive w'"
proof -
  have w: "world_inv sample_world" "sessions_alive sample_world"
    "room_for (2 * length (wi_action_queue sample_world) + 50) (wi_entities sample_world)"
    using sample_world_good by (simp_all add: good_def room_for_def sample_world_fields empty_world_def)
  from runTickStep_invariant [OF w(1,2) low_rng_ok w(3), of sample_fb "()"] show ?thesis by blast
qed

text \<open>The ship is nearly dead and hit by a bullet of another ship.\<close>

definition doomed_player :: Entity where
  "doomed_player = sample_player\<lparr>e_health := Some \<lparr>h_current = 20, h_max = 100\<rparr>\<rparr>"

definition stray_bullet :: Entity where
  "stray_bullet = Entity_default\<lparr>e_id := 2, e_type := EtBullet, e_radius := Fin 2,
     e_transform := Some TransformComponent_default, e_combat := Some \<lparr>co_damage = 25, co_owner_id = 9\<rparr>\<rparr>"

definition doomed_world :: World where
  "doomed_world = empty_world\<lparr>wi_entities := \<lparr>p_storage = [Some doomed_player, Some stray_bullet], p_free = [],
     p_index = [1 \<mapsto> 0, 2 \<mapsto> 1], p_next_id = 3\<rparr>, wi_session_to_ship := [(4, 1)]\<rparr>"

lemma doomed_fields:
  "e_id doomed_player = 1" "e_type doomed_player = EtShip" "\<not> e_isDestroyed doomed_player"
  "e_transform doomed_player = Some \<lparr>t_position = fvec 0 0, t_velocity = vzero, t_angle = Fin 0\<rparr>"
  "e_radius doomed_player = Fin 5" "e_mass doomed_player = Fin (7854 / 100)"
  "e_health doomed_player = Some \<lparr>h_current = 20, h_max = 100\<rparr>" "\<exists>sc. e_ship doomed_player = Some sc"
  "e_id stray_bullet = 2" "e_type stray_bullet = EtBullet" "\<not> e_isDestroyed stray_bullet"
  "e_transform stray_bullet = Some \<lparr>t_position = fvec 0 0, t_velocity = vzero, t_angle = Fin 0\<rparr>"
  "e_radius stray_bullet = Fin 2" "e_mass stray_bullet = Fin 0"
  "e_combat stray_bullet = Some \<lparr>co_damage = 25, co_owner_id = 9\<rparr>"
  by (simp_all add: doomed_player_def sample_player_def makeShip_def ship_constants Entity_default_def stray_bullet_def
      TransformComponent_default_def vzero_def)

lemma doomed_world_inv: "world_inv doomed_world" "sessions_alive doomed_world"
proof -
  have "pool_inv (wi_entities doomed_world)"
    by (auto simp: pool_inv_def doomed_world_def doomed_fields less_Suc_eq nth_Cons split: nat.splits if_splits)
  moreover have "complete_ship doomed_player" using doomed_fields by (auto simp: complete_ship_def)
  ultimately show "world_inv doomed_world" "sessions_alive doomed_world"
    using doomed_fields
    by (auto simp: world_inv_def sessions_alive_def entities_ok_def entity_ok_def has_ship_def has_live_ship_def
        wf_alist_def doomed_world_def)
qed

theorem resolveCollisions_reports_witness:
  "fst (snd (resolveCollisions doomed_world)) = [ShipDestroyedEvent 4]"
proof -
  obtain w' evs err where r: "resolveCollisions doomed_world = (w', evs, err)" using prod_cases3 by blast
  obtain sc where sc: "e_ship doomed_player = Some sc" using doomed_fields by blast
  have m: "map_of (wi_session_to_ship doomed_world) sid \<noteq> None \<longleftrightarrow> sid = 4" for sid by (simp add: doomed_world_def)
  have "evs = [ShipDestroyedEvent 4]"
    using r doomed_fields sc
    by (simp add: resolveCollisions_def doomed_world_def slot_of_def mayCollide_def checkCircleCollision_def
        upt_rec dispatchCollision_def world_BulletShip_def onCollisionBulletShip_def bulletShip_def isValid_def
        isDamageable_def bulletHit_def applyDamage_def isAlive_def put_entity_def put_slot_def Let_def
        reapDestroyedShips_def destroyed_ids_def)
  with r resolveCollisions_reports [OF doomed_world_inv r] show ?thesis by simp
qed

text \<open>A tick of the empty world makes one asteroid of the smallest weight.\<close>

definition first_asteroid :: Entity where
  "first_asteroid = makeAsteroid (Fin 10) (fvec 0 0) (Entity_default\<lparr>e_id := 1\<rparr>)"

definition one_asteroid_world :: World where
  "one_asteroid_world = empty_world\<lparr>wi_entities := \<lparr>p_storage = [Some first_asteroid], p_free = [],
     p_index = [1 \<mapsto> 0], p_next_id = 2\<rparr>, wi_snapshot_buffer := [toEntitySnapshot first_asteroid]\<rparr>"

definition constant_fb :: flatbuffers where
  "constant_fb = \<lparr>fb_build = (\<lambda>w. [0, 0, 0, 0, 69, 83, 78, 80]), fb_has_identifier = (\<lambda>bs. True),
     fb_verify = (\<lambda>bs. True), fb_root = (\<lambda>bs. toWireEntity (toEntitySnapshot first_asteroid))\<rparr>"

lemma first_draw: "drawWeights low_rng (Fin 10) [] () = Some ([Fin 10], ())"
  using drawWeights_step [of 10 low_rng "()" 10 "()" "[]"] drawWeights_stop [of 0 low_rng "[Fin 10]" "()"]
  by (simp add: low_rng_def)

lemma first_update:
  "AsteroidFactory_update low_rng \<lparr>c_center = fvec 0 0, c_radius = Fin 1000\<rparr> EntityPool_init ()
     = Some (\<lparr>p_storage = [Some first_asteroid], p_free = [], p_index = [1 \<mapsto> 0], p_next_id = 2\<rparr>, ())"
proof -
  have "generateAsteroidWeight low_rng (Fin 0) () = Some ([Fin 10], ())"
    using first_draw by (simp add: generateAsteroidWeight_def asteroid_constants low_rng_def)
  moreover have "generatePositions low_rng (Suc 0) \<lparr>c_center = fvec 0 0, c_radius = Fin 1000\<rparr> () = ([fvec 0 0], ())"
    by (simp add: generatePositions_def low_rng_def kPi_def Let_def)
  ultimately show ?thesis
    by (simp add: AsteroidFactory_update_def calculateCurrentWeight_def EntityPool_init_def asteroid_constants
        acquire_def put_slot_def first_asteroid_def Let_def)
qed

lemma first_tick:
  "\<exists>evs. runTickStep low_rng constant_fb empty_world () = Some (one_asteroid_world, evs, ())"
proof -
  have q: "processInputQueue empty_world = (empty_world, [])"
    by (simp add: processInputQueue_eq empty_world_def)
  have p: "updatePhysics dt empty_world = empty_world" for dt
    by (simp add: updatePhysics_def move_pool_def updateMovementAndBounds_def empty_world_def EntityPool_init_def)
  have c: "resolveCollisions empty_world = (empty_world, [], None)"
    by (simp add: resolveCollisions_def reapDestroyedShips_def empty_world_def EntityPool_init_def recycleDestroyed_def)
  have m: "maintainAsteroidPopulation low_rng empty_world () = Some (empty_world\<lparr>wi_entities :=
      \<lparr>p_storage = [Some first_asteroid], p_free = [], p_index = [1 \<mapsto> 0], p_next_id = 2\<rparr>\<rparr>, ())"
    using first_update by (simp add: maintainAsteroidPopulation_def freePosition_empty) (simp add: empty_world_def)
  have alive: "e_isDestroyed first_asteroid = False" "e_type first_asteroid = EtAsteroid" "e_ship first_asteroid = None"
    by (simp_all add: first_asteroid_def makeAsteroid_def Entity_default_def)
  have s: "buildEntitySnapshots \<lparr>p_storage = [Some first_asteroid], p_free = [], p_index = ix, p_next_id = 2\<rparr>
      = [toEntitySnapshot first_asteroid]" for ix
    using alive by (simp add: buildEntitySnapshots_def buildEntitySnapshots_loop_eq isActive_def)
  have r: "recycleDestroyed \<lparr>p_storage = [Some first_asteroid], p_free = [], p_index = ix, p_next_id = 2\<rparr>
      = \<lparr>p_storage = [Some first_asteroid], p_free = [], p_index = ix, p_next_id = 2\<rparr>" for ix
    using alive by (simp add: recycleDestroyed_def recycle_slot_def)
  show ?thesis
    using alive by (simp add: runTickStep_def q p c m spawnShips_def buildGameSnapshot_eq broadcastSnapshot_def s r
        Serialize_def buildLeaderboard_def leaderboardEntries_def SerializeEntity_def constant_fb_def Let_def
        one_asteroid_world_def)
qed

theorem tick_broadcasts_world_witness:
  "\<exists>w' pre bytes g'. runTickStep low_rng constant_fb empty_world () = Some (w', pre @ [SendPacketEvent 0 bytes], g')
    \<and> Deserialize constant_fb bytes = Inr \<lparr>gs_snapshots = [toEntitySnapshot first_asteroid], gs_leaderboard = [],
        gs_tick_number = 7\<rparr>"
proof -
  obtain evs where t: "runTickStep low_rng constant_fb empty_world () = Some (one_asteroid_world, evs, ())"
    using first_tick by blast
  have w: "world_inv empty_world" "sessions_alive empty_world"
    "room_for (2 * length (wi_action_queue empty_world) + 50) (wi_entities empty_world)"
    using empty_world_good by (simp_all add: good_def room_for_def empty_world_def)
  have alive: "e_isDestroyed first_asteroid = False" "e_type first_asteroid = EtAsteroid" "e_ship first_asteroid = None"
    by (simp_all add: first_asteroid_def makeAsteroid_def Entity_default_def)
  have s: "buildEntitySnapshots (wi_entities one_asteroid_world) = [toEntitySnapshot first_asteroid]"
    using alive by (simp add: one_asteroid_world_def buildEntitySnapshots_def buildEntitySnapshots_loop_eq isActive_def)
  have l: "buildLeaderboard one_asteroid_world = []"
    using alive by (simp add: one_asteroid_world_def buildLeaderboard_def leaderboardEntries_def Let_def)
  have ok: "fb_entity_ok constant_fb (toEntitySnapshot first_asteroid)"
    by (simp add: fb_entity_ok_def fb_faithful_def constant_fb_def SerializeEntity_def)
  have "\<exists>pre bytes. evs = pre @ [SendPacketEvent 0 bytes]
    \<and> Deserialize constant_fb bytes = Inr \<lparr>gs_snapshots = [toEntitySnapshot first_asteroid],
        gs_leaderboard = [], gs_tick_number = 7\<rparr>"
    using tick_broadcasts_world [OF w(1,2) low_rng_ok w(3) t] s l ok by (simp add: empty_world_def)
  with t show ?thesis by blast
qed

end
