(* ===== verification/WorldLoop.thy ===== *)
theory WorldLoop
  imports WorldPlayers
begin

text \<open>
  The life cycle of the simulation loop (src/src/server/world_instance.cpp: \<open>start\<close>,
  \<open>stop\<close>, \<open>doStart\<close>, \<open>doStop\<close>, \<open>doTick\<close>, \<open>scheduleNextTick\<close>, \<open>shutdownTickLoop\<close>).
  The strand is the FIFO of handlers posted to it, the timer its deadline and its outstanding
  waits; as Boost.Asio documents, setting the deadline or cancelling completes the outstanding
  waits with \<open>operation_aborted\<close>, and a wait that has completed can no longer be cancelled.
  Time is in microseconds.

  Handlers of the strand exclude each other, but \<open>stop\<close> runs in the thread that calls it, beside
  the handler that is running.  So \<open>stop\<close> and the handlers are divided wherever one can see the other: at
  each access to the state and each call on the timer.  A handler that has begun stays at the head of the strand
  as the rest of it.  An undivided handler or call is the special case in which nothing comes
  between.
\<close>

section \<open>The loop\<close>

datatype wait_error = NoError | OperationAborted | OtherError

text \<open>The handlers, and what remains of those that have begun.\<close>

datatype task =
    DoStart | DoStop | DoTick wait_error
  | StartDeadline | StartWait
  | TickSchedule | TickDeadline | TickWait | TickBody

text \<open>\<open>l_to_cancel\<close> and \<open>l_to_post\<close> are the calls of \<open>stop\<close> that have stored the state and those that
  have cancelled the timer too.\<close>

record 'g Loop =
  l_world :: World
  l_rng :: 'g
  l_strand :: "task list"
  l_waits :: nat
  l_expiry :: int
  l_now :: int
  l_to_cancel :: nat
  l_to_post :: nat
  l_published :: "event list"

definition Loop_init :: "World \<Rightarrow> 'g \<Rightarrow> int \<Rightarrow> 'g Loop" where
  "Loop_init w g now = \<lparr>l_world = w, l_rng = g, l_strand = [], l_waits = 0, l_expiry = 0, l_now = now,
     l_to_cancel = 0, l_to_post = 0, l_published = []\<rparr>"

definition timer_cancel :: "'g Loop \<Rightarrow> 'g Loop" where
  "timer_cancel l = l\<lparr>l_waits := 0, l_strand := l_strand l @ replicate (l_waits l) (DoTick OperationAborted)\<rparr>"

definition expires_at :: "int \<Rightarrow> 'g Loop \<Rightarrow> 'g Loop" where
  "expires_at t l = (timer_cancel l)\<lparr>l_expiry := t\<rparr>"

definition expires_after :: "int \<Rightarrow> 'g Loop \<Rightarrow> 'g Loop" where
  "expires_after d l = expires_at (l_now l + d) l"

definition async_wait :: "'g Loop \<Rightarrow> 'g Loop" where
  "async_wait l = l\<lparr>l_waits := l_waits l + 1\<rparr>"

abbreviation post :: "task \<Rightarrow> 'g Loop \<Rightarrow> 'g Loop" where
  "post t l \<equiv> l\<lparr>l_strand := l_strand l @ [t]\<rparr>"

abbreviation set_state :: "WorldState \<Rightarrow> 'g Loop \<Rightarrow> 'g Loop" where
  "set_state s l \<equiv> l\<lparr>l_world := (l_world l)\<lparr>wi_state := s\<rparr>\<rparr>"

abbreviation state_of :: "'g Loop \<Rightarrow> WorldState" where
  "state_of l \<equiv> wi_state (l_world l)"

abbreviation tick_of :: "'g Loop \<Rightarrow> u64" where
  "tick_of l \<equiv> wi_current_tick (l_world l)"

definition world_start :: "'g Loop \<Rightarrow> 'g Loop" where
  "world_start l = post DoStart l"

text \<open>The three actions of \<open>stop\<close>.\<close>

definition stop_store :: "'g Loop \<Rightarrow> 'g Loop" where
  "stop_store l = (set_state Stopped l)\<lparr>l_to_cancel := l_to_cancel l + 1\<rparr>"

definition stop_cancel :: "'g Loop \<Rightarrow> 'g Loop" where
  "stop_cancel l = (timer_cancel l)\<lparr>l_to_cancel := l_to_cancel l - 1, l_to_post := l_to_post l + 1\<rparr>"

definition stop_post :: "'g Loop \<Rightarrow> 'g Loop" where
  "stop_post l = (post DoStop l)\<lparr>l_to_post := l_to_post l - 1\<rparr>"

definition world_stop :: "'g Loop \<Rightarrow> 'g Loop" where
  "world_stop l = stop_post (stop_cancel (stop_store l))"

lemma world_stop_eq: "world_stop l = post DoStop (timer_cancel (set_state Stopped l))"
  by (simp add: world_stop_def stop_post_def stop_cancel_def stop_store_def timer_cancel_def)

definition shutdownTickLoop :: "'g Loop \<Rightarrow> 'g Loop" where
  "shutdownTickLoop l =
     (let l = timer_cancel l;
          (discarded, q) = queue_drain (wi_action_queue (l_world l))
      in l\<lparr>l_world := (l_world l)\<lparr>wi_action_queue := q\<rparr>\<rparr>)"

definition doStart :: "'g Loop \<Rightarrow> 'g Loop" where
  "doStart l =
     (if state_of l \<noteq> Stopped then l
      else async_wait (expires_after (wi_tick_interval (l_world l)) (set_state Running l)))"

definition doStop :: "'g Loop \<Rightarrow> 'g Loop" where
  "doStop l = shutdownTickLoop l"

definition set_next_deadline :: "'g Loop \<Rightarrow> 'g Loop" where
  "set_next_deadline l =
     (let interval = wi_tick_interval (l_world l);
          next_deadline = l_expiry l + interval
      in if next_deadline < l_now l - interval * kMaxMissedTicks
         then expires_after interval l else expires_at next_deadline l)"

definition scheduleNextTick :: "'g Loop \<Rightarrow> 'g Loop" where
  "scheduleNextTick l = (if state_of l \<noteq> Running then l else async_wait (set_next_deadline l))"

text \<open>The tick itself; the result is \<open>None\<close> if it does not return.\<close>

definition tick_body :: "'g uniform \<Rightarrow> flatbuffers \<Rightarrow> 'g Loop \<Rightarrow> 'g Loop option" where
  "tick_body uniform fb l =
     (case runTickStep uniform fb (l_world l) (l_rng l) of
        None \<Rightarrow> None
      | Some (w, evs, g) \<Rightarrow>
          Some (l\<lparr>l_world := w\<lparr>wi_current_tick := wi_current_tick w + 1\<rparr>, l_rng := g, l_published := l_published l @ evs\<rparr>))"

definition doTick :: "'g uniform \<Rightarrow> flatbuffers \<Rightarrow> wait_error \<Rightarrow> 'g Loop \<Rightarrow> 'g Loop option" where
  "doTick uniform fb err l =
     (case err of
        OperationAborted \<Rightarrow> Some l
      | OtherError \<Rightarrow> Some (shutdownTickLoop (set_state Stopped l))
      | NoError \<Rightarrow>
          if state_of l \<noteq> Running then Some l
          else tick_body uniform fb (scheduleNextTick l))"

text \<open>An undivided handler.\<close>

definition run_task :: "'g uniform \<Rightarrow> flatbuffers \<Rightarrow> task \<Rightarrow> 'g Loop \<Rightarrow> 'g Loop option" where
  "run_task uniform fb t l =
     (case t of DoStart \<Rightarrow> Some (doStart l) | DoStop \<Rightarrow> Some (doStop l) | DoTick err \<Rightarrow> doTick uniform fb err l | _ \<Rightarrow> None)"

text \<open>A piece of a handler, and what remains of it.  \<open>doStop\<close> and the ends of the loop after an error are not
  divided: what they do to the timer and to the queue does not depend on what comes between.\<close>

definition handler_piece :: "'g uniform \<Rightarrow> flatbuffers \<Rightarrow> task \<Rightarrow> 'g Loop \<Rightarrow> ('g Loop \<times> task option) option" where
  "handler_piece uniform fb t l =
     (case t of
        DoStart \<Rightarrow> if state_of l \<noteq> Stopped then Some (l, None) else Some (set_state Running l, Some StartDeadline)
      | StartDeadline \<Rightarrow> Some (expires_after (wi_tick_interval (l_world l)) l, Some StartWait)
      | StartWait \<Rightarrow> Some (async_wait l, None)
      | DoStop \<Rightarrow> Some (doStop l, None)
      | DoTick NoError \<Rightarrow> Some (l, if state_of l \<noteq> Running then None else Some TickSchedule)
      | DoTick err \<Rightarrow> map_option (\<lambda>l. (l, None)) (doTick uniform fb err l)
      | TickSchedule \<Rightarrow> Some (l, Some (if state_of l \<noteq> Running then TickBody else TickDeadline))
      | TickDeadline \<Rightarrow> Some (set_next_deadline l, Some TickWait)
      | TickWait \<Rightarrow> Some (async_wait l, Some TickBody)
      | TickBody \<Rightarrow> map_option (\<lambda>l. (l, None)) (tick_body uniform fb l))"

section \<open>Steps\<close>

datatype loop_label =
    CallStart | CallStop | StopStore | StopCancel | StopPost | Deliver event | Clock | Fire | Fail | Run task | Piece task

definition continue :: "task option \<Rightarrow> 'g Loop \<Rightarrow> 'g Loop" where
  "continue rest l = (case rest of None \<Rightarrow> l | Some t \<Rightarrow> l\<lparr>l_strand := t # l_strand l\<rparr>)"

inductive loop_step :: "'g uniform \<Rightarrow> flatbuffers \<Rightarrow> 'g Loop \<Rightarrow> loop_label \<Rightarrow> 'g Loop \<Rightarrow> bool"
  for uniform :: "'g uniform" and fb :: flatbuffers where
  call_start: "loop_step uniform fb l CallStart (world_start l)"
| call_stop: "loop_step uniform fb l CallStop (world_stop l)"
| stop_stores: "loop_step uniform fb l StopStore (stop_store l)"
| stop_cancels: "0 < l_to_cancel l \<Longrightarrow> loop_step uniform fb l StopCancel (stop_cancel l)"
| stop_posts: "0 < l_to_post l \<Longrightarrow> loop_step uniform fb l StopPost (stop_post l)"
| deliver: "loop_step uniform fb l (Deliver ev) (l\<lparr>l_world := world_on_event ev (l_world l)\<rparr>)"
| clock: "l_now l \<le> now \<Longrightarrow> loop_step uniform fb l Clock (l\<lparr>l_now := now\<rparr>)"
| fire: "l_waits l = Suc n \<Longrightarrow> l_expiry l \<le> l_now l \<Longrightarrow>
    loop_step uniform fb l Fire (l\<lparr>l_waits := n, l_strand := l_strand l @ [DoTick NoError]\<rparr>)"
| fail: "l_waits l = Suc n \<Longrightarrow>
    loop_step uniform fb l Fail (l\<lparr>l_waits := n, l_strand := l_strand l @ [DoTick OtherError]\<rparr>)"
| run: "l_strand l = t # rest \<Longrightarrow> run_task uniform fb t (l\<lparr>l_strand := rest\<rparr>) = Some l' \<Longrightarrow>
    loop_step uniform fb l (Run t) l'"
| piece: "l_strand l = t # rest \<Longrightarrow> handler_piece uniform fb t (l\<lparr>l_strand := rest\<rparr>) = Some (l', remains) \<Longrightarrow>
    loop_step uniform fb l (Piece t) (continue remains l')"

inductive loop_steps :: "'g uniform \<Rightarrow> flatbuffers \<Rightarrow> 'g Loop \<Rightarrow> loop_label list \<Rightarrow> 'g Loop \<Rightarrow> bool"
  for uniform :: "'g uniform" and fb :: flatbuffers where
  finished: "loop_steps uniform fb l [] l"
| more: "loop_step uniform fb l a l' \<Longrightarrow> loop_steps uniform fb l' as l'' \<Longrightarrow> loop_steps uniform fb l (a # as) l''"

inductive_cases loop_stepE: "loop_step uniform fb l a l'"
inductive_simps loop_steps_Nil: "loop_steps uniform fb l [] l'"
inductive_simps loop_steps_Cons: "loop_steps uniform fb l (a # as) l''"

lemmas timer_defs = timer_cancel_def expires_at_def expires_after_def async_wait_def

lemmas loop_defs = timer_defs world_start_def world_stop_eq shutdownTickLoop_def doStart_def doStop_def scheduleNextTick_def
  set_next_deadline_def queue_drain_def drain_loop_eq

lemmas piece_defs = handler_piece_def continue_def

lemma world_on_event_fields:
  "wi_state (world_on_event ev w) = wi_state w" "wi_current_tick (world_on_event ev w) = wi_current_tick w"
  "wi_entities (world_on_event ev w) = wi_entities w" "wi_session_to_ship (world_on_event ev w) = wi_session_to_ship w"
  "wi_tick_interval (world_on_event ev w) = wi_tick_interval w"
  by (simp_all add: world_on_event_def onClientDisconnected_def onPlayerJoin_def onShotReceived_def
      onPlayerMove_def enqueueAction_def split: event.split)

text \<open>A property that every step keeps holds after every run; a relation that every step
  satisfies holds along every run.\<close>

lemma loop_steps_invariant:
  assumes "loop_steps uniform fb l as l'" "P l"
    "\<And>l a l'. loop_step uniform fb l a l' \<Longrightarrow> a \<in> set as \<Longrightarrow> P l \<Longrightarrow> P l' \<and> f l' = f l"
  shows "P l' \<and> f l' = f l"
  using assms
proof (induction rule: loop_steps.induct)
  case (more l a l' as l'')
  have "P l' \<and> f l' = f l" using more.prems(2) [OF more.hyps(1)] more.prems(1) by simp
  moreover have "P l'' \<and> f l'' = f l'" using more.IH more.prems(2) calculation by simp
  ultimately show ?case by simp
qed simp

lemma loop_steps_append:
  "loop_steps uniform fb l as l' \<Longrightarrow> loop_steps uniform fb l' bs l'' \<Longrightarrow> loop_steps uniform fb l (as @ bs) l''"
  by (induction rule: loop_steps.induct) (simp_all add: loop_steps.more)

text \<open>Nothing is lost by the division: an undivided call or handler is its pieces one after the other.\<close>

lemma call_stop_pieces: "loop_steps uniform fb l [StopStore, StopCancel, StopPost] (world_stop l)"
proof -
  have "0 < l_to_cancel (stop_store l)" "0 < l_to_post (stop_cancel (stop_store l))"
    by (simp_all add: stop_store_def stop_cancel_def)
  then show ?thesis unfolding world_stop_def
    by (intro loop_steps.more [OF loop_step.stop_stores] loop_steps.more [OF loop_step.stop_cancels]
        loop_steps.more [OF loop_step.stop_posts] loop_steps.finished)
qed

lemma piece_then:
  assumes "l_strand l = t # rest" "handler_piece uniform fb t (l\<lparr>l_strand := rest\<rparr>) = Some (m, Some t')"
    "loop_steps uniform fb (m\<lparr>l_strand := t' # l_strand m\<rparr>) as l'"
  shows "loop_steps uniform fb l (Piece t # as) l'"
  using loop_steps.more [OF loop_step.piece [OF assms(1,2)]] assms(3) by (simp add: continue_def)

lemma piece_last:
  assumes "l_strand l = t # rest" "handler_piece uniform fb t (l\<lparr>l_strand := rest\<rparr>) = Some (l', None)"
  shows "loop_steps uniform fb l [Piece t] l'"
  using loop_steps.more [OF loop_step.piece [OF assms] loop_steps.finished] by (simp add: continue_def)

lemma tick_pieces:
  assumes "l_strand l = DoTick NoError # rest" "doTick uniform fb NoError (l\<lparr>l_strand := rest\<rparr>) = Some l'" "state_of l = Running"
  shows "loop_steps uniform fb l [Piece (DoTick NoError), Piece TickSchedule, Piece TickDeadline, Piece TickWait, Piece TickBody] l'"
proof -
  define d where "d = set_next_deadline (l\<lparr>l_strand := rest\<rparr>)"
  define m where "m = async_wait d"
  have "tick_body uniform fb m = Some l'"
    using assms(2,3) by (simp add: doTick_def scheduleNextTick_def m_def d_def)
  then have "handler_piece uniform fb TickBody (m\<lparr>l_strand := l_strand m\<rparr>) = Some (l', None)"
    by (simp add: handler_piece_def)
  then have p: "loop_steps uniform fb (m\<lparr>l_strand := TickBody # l_strand m\<rparr>) [Piece TickBody] l'"
    by (intro piece_last [where rest = "l_strand m"]) simp_all
  have p: "loop_steps uniform fb (d\<lparr>l_strand := TickWait # l_strand d\<rparr>) [Piece TickWait, Piece TickBody] l'"
    by (rule piece_then [where rest = "l_strand d", OF _ _ p]) (simp_all add: handler_piece_def m_def)
  have p: "loop_steps uniform fb (l\<lparr>l_strand := TickDeadline # rest\<rparr>) [Piece TickDeadline, Piece TickWait, Piece TickBody] l'"
    by (rule piece_then [where rest = rest, OF _ _ p]) (simp_all add: handler_piece_def d_def)
  have p: "loop_steps uniform fb (l\<lparr>l_strand := TickSchedule # rest\<rparr>)
      [Piece TickSchedule, Piece TickDeadline, Piece TickWait, Piece TickBody] l'"
    by (rule piece_then [where rest = rest and m = "l\<lparr>l_strand := rest\<rparr>" and t' = TickDeadline])
      (use p assms(3) in \<open>simp_all add: handler_piece_def\<close>)
  show ?thesis
    by (rule piece_then [OF assms(1), where m = "l\<lparr>l_strand := rest\<rparr>" and t' = TickSchedule])
      (use p assms(3) in \<open>simp_all add: handler_piece_def\<close>)
qed

lemma start_pieces:
  assumes "l_strand l = DoStart # rest" "state_of l = Stopped"
  shows "loop_steps uniform fb l [Piece DoStart, Piece StartDeadline, Piece StartWait] (doStart (l\<lparr>l_strand := rest\<rparr>))"
proof -
  define m where "m = set_state Running (l\<lparr>l_strand := rest\<rparr>)"
  define d where "d = expires_after (wi_tick_interval (l_world m)) m"
  have m: "l_strand m = rest" "m\<lparr>l_strand := rest\<rparr> = m" by (simp_all add: m_def)
  have "doStart (l\<lparr>l_strand := rest\<rparr>) = async_wait d" using assms(2) by (simp add: doStart_def d_def m_def)
  then have "handler_piece uniform fb StartWait (d\<lparr>l_strand := l_strand d\<rparr>) = Some (doStart (l\<lparr>l_strand := rest\<rparr>), None)"
    by (simp add: handler_piece_def)
  then have p: "loop_steps uniform fb (d\<lparr>l_strand := StartWait # l_strand d\<rparr>) [Piece StartWait] (doStart (l\<lparr>l_strand := rest\<rparr>))"
    by (intro piece_last [where rest = "l_strand d"]) simp_all
  have p: "loop_steps uniform fb (m\<lparr>l_strand := StartDeadline # l_strand m\<rparr>) [Piece StartDeadline, Piece StartWait]
      (doStart (l\<lparr>l_strand := rest\<rparr>))"
    by (rule piece_then [where rest = "l_strand m", OF _ _ p]) (simp_all add: handler_piece_def d_def)
  show ?thesis
    by (rule piece_then [OF assms(1) _ p]) (use assms(2) in \<open>simp add: handler_piece_def m_def\<close>)
qed

lemma handler_pieces:
  assumes "l_strand l = t # rest" "run_task uniform fb t (l\<lparr>l_strand := rest\<rparr>) = Some l'"
  shows "\<exists>ps. loop_steps uniform fb l (map Piece (t # ps)) l'"
proof -
  have one: ?thesis if "handler_piece uniform fb t (l\<lparr>l_strand := rest\<rparr>) = Some (l', None)"
    using piece_last [OF assms(1) that] by (intro exI [of _ "[]"]) simp
  show ?thesis
  proof (cases t)
    case DoStart
    then show ?thesis
    proof (cases "state_of l = Stopped")
      case True
      with start_pieces [of l rest uniform fb] DoStart assms show ?thesis
        by (intro exI [of _ "[StartDeadline, StartWait]"]) (simp add: run_task_def)
    next
      case False
      then show ?thesis using DoStart assms(2) by (intro one) (auto simp: run_task_def doStart_def handler_piece_def)
    qed
  next
    case DoStop
    then show ?thesis using assms(2) by (intro one) (simp add: run_task_def handler_piece_def)
  next
    case (DoTick err)
    show ?thesis
    proof (cases "err = NoError \<and> state_of l = Running")
      case True
      with tick_pieces [of l rest uniform fb l'] DoTick assms show ?thesis
        by (intro exI [of _ "[TickSchedule, TickDeadline, TickWait, TickBody]"]) (simp add: run_task_def)
    next
      case False
      then show ?thesis using DoTick assms(2)
        by (intro one) (cases err; auto simp: run_task_def handler_piece_def doTick_def)
    qed
  qed (use assms(2) in \<open>simp_all add: run_task_def\<close>)
qed

text \<open>A tick leaves the state and the number of the tick alone, whatever the world is like.\<close>

lemma dispatch_state:
  "wi_state (dispatchCollision i j w) = wi_state w" "wi_current_tick (dispatchCollision i j w) = wi_current_tick w"
  by (simp_all add: dispatchCollision_def world_ShipShip_def world_ShipAsteroid_def world_BulletShip_def
      world_BulletAsteroid_def put_entity_def Let_def split: prod.split option.split)

lemma collide_state:
  "wi_state (fst (collideOuter n is w)) = wi_state w \<and> wi_current_tick (fst (collideOuter n is w)) = wi_current_tick w"
proof -
  have inner: "wi_state (fst (collideInner i js w)) = wi_state w \<and> wi_current_tick (fst (collideInner i js w)) = wi_current_tick w"
    for i js w
    by (induction js arbitrary: w) (auto simp: dispatch_state Let_def split: option.split sum.split)
  show ?thesis
  proof (induction "is" arbitrary: w)
    case (Cons i js)
    show ?case using inner [of i "[i + 1..<n]" w] Cons.IH
      by (auto split: option.split prod.split)
  qed simp
qed

lemma resolve_state:
  "wi_state (fst (resolveCollisions w)) = wi_state w \<and> wi_current_tick (fst (resolveCollisions w)) = wi_current_tick w"
  using collide_state [of "length (p_storage (wi_entities w))" "[0..<length (p_storage (wi_entities w))]" w]
  by (auto simp: resolveCollisions_def reapDestroyedShips_def Let_def split: prod.split option.split)

lemma tick_state:
  assumes "runTickStep uniform fb w g = Some (w', evs, g')"
  shows "wi_state w' = wi_state w \<and> wi_current_tick w' = wi_current_tick w"
proof -
  let ?q = "processInputQueue w"
  let ?u = "updatePhysics (tick_dt (fst ?q)) (fst ?q)"
  let ?c = "resolveCollisions ?u"
  have q: "wi_state (fst ?q) = wi_state w \<and> wi_current_tick (fst ?q) = wi_current_tick w"
    using same_frame_queue [of w] by (simp add: same_frame_def)
  have c: "wi_state (fst ?c) = wi_state w \<and> wi_current_tick (fst ?c) = wi_current_tick w"
    using resolve_state [of ?u] q by (simp add: updatePhysics_def)
  show ?thesis
  proof (cases "snd (snd ?c) = None")
    case False
    with assms c show ?thesis by (auto simp: runTickStep_def case_prod_beta Let_def)
  next
    case True
    with assms obtain w3 g3 where m: "maintainAsteroidPopulation uniform (fst ?c) g = Some (w3, g3)"
      by (auto simp: runTickStep_def case_prod_beta Let_def split: option.splits)
    have m3: "wi_state w3 = wi_state w \<and> wi_current_tick w3 = wi_current_tick w"
      using m c by (auto simp: maintainAsteroidPopulation_def split: option.splits)
    have s: "wi_state (spawnShips (snd ?q) w3) = wi_state w \<and> wi_current_tick (spawnShips (snd ?q) w3) = wi_current_tick w"
      using same_frame_spawnShips [of w3 "snd ?q"] m3 by (simp add: same_frame_def)
    show ?thesis using assms True m s
        same_frame_broadcast [of "(spawnShips (snd ?q) w3)\<lparr>wi_snapshot_buffer := b\<rparr>" fb s' for b s']
      by (auto simp: runTickStep_def case_prod_beta Let_def buildGameSnapshot_eq same_frame_def)
  qed
qed

lemma tick_body_fields:
  assumes "tick_body uniform fb l = Some l'"
  shows "state_of l' = state_of l" "tick_of l' = tick_of l + 1" "l_strand l' = l_strand l" "l_waits l' = l_waits l"
    "\<exists>r. runTickStep uniform fb (l_world l) (l_rng l) = Some r \<and> l_published l' = l_published l @ fst (snd r)"
  using assms tick_state [of uniform fb "l_world l" "l_rng l"] by (auto simp: tick_body_def split: option.splits)

section \<open>The timer\<close>

text \<open>A tick to come is a wait under way, or a handler that will run the next tick or arm the timer for it.\<close>

definition carries_tick :: "task \<Rightarrow> bool" where
  "carries_tick t \<longleftrightarrow> t \<in> {DoTick NoError, DoTick OtherError, StartDeadline, StartWait, TickSchedule, TickDeadline, TickWait}"

definition ticks_to_come :: "'g Loop \<Rightarrow> nat" where
  "ticks_to_come l = l_waits l + length (filter carries_tick (l_strand l))"

definition stop_labels :: "loop_label set" where
  "stop_labels = {CallStop, StopStore, StopCancel, StopPost}"

definition one_chain :: "'g Loop \<Rightarrow> bool" where
  "one_chain l \<longleftrightarrow> ticks_to_come l = of_bool (state_of l = Running) \<and> DoStop \<notin> set (l_strand l)"

lemmas chain_defs = one_chain_def ticks_to_come_def carries_tick_def

lemma chain_piece:
  assumes "l_strand l = t # rest" "handler_piece uniform fb t (l\<lparr>l_strand := rest\<rparr>) = Some (m, remains)" "one_chain l"
  shows "one_chain (continue remains m)"
proof (cases t)
  case (DoTick err)
  then show ?thesis using assms
    by (cases err) (auto simp: chain_defs piece_defs doTick_def shutdownTickLoop_def timer_defs queue_drain_def drain_loop_eq
        of_bool_def split: if_splits)
next
  case TickBody
  then show ?thesis using assms tick_body_fields [of uniform fb "l\<lparr>l_strand := rest\<rparr>" m]
    by (auto simp: chain_defs piece_defs)
qed (use assms in \<open>auto simp: chain_defs piece_defs timer_defs set_next_deadline_def Let_def of_bool_def split: if_splits\<close>)

lemma chain_step:
  assumes "loop_step uniform fb l a l'" "a \<notin> stop_labels" "a \<notin> range Run" "one_chain l"
  shows "one_chain l'"
  using assms(1)
proof (cases rule: loop_step.cases)
  case (piece t rest m remains)
  with chain_piece [OF piece(3,4) assms(4)] show ?thesis by simp
next
  case (deliver ev)
  with assms(4) show ?thesis by (simp add: chain_defs world_on_event_fields)
qed (use assms(2-4) in \<open>auto simp: stop_labels_def chain_defs world_start_def\<close>)

text \<open>What every piece keeps, an undivided handler keeps.\<close>

lemma loop_step_by_pieces:
  assumes "loop_step uniform fb l a l'" "P l"
    "\<And>l b l'. loop_step uniform fb l b l' \<Longrightarrow> b \<notin> range Run \<Longrightarrow> b = a \<or> a \<in> range Run \<and> b \<in> range Piece \<Longrightarrow> P l \<Longrightarrow> P l'"
  shows "P l'"
proof (cases "a \<in> range Run")
  case True
  with assms(1) obtain t rest where t: "l_strand l = t # rest" "run_task uniform fb t (l\<lparr>l_strand := rest\<rparr>) = Some l'"
    by (auto elim: loop_stepE)
  from handler_pieces [OF this] obtain ps where "loop_steps uniform fb l (map Piece (t # ps)) l'" by blast
  from loop_steps_invariant [OF this, where P = P and f = "\<lambda>_. ()"] assms(2,3) True show ?thesis by fastforce
qed (use assms in blast)

text \<open>C18.  One chain of ticks: from a stopped world, until \<open>stop\<close> is called, however calls of \<open>start\<close>, the
  timer, its errors, the events of other threads and the pieces of the handlers interleave, there is exactly one tick to
  come while the loop is running and none while it is not.  So calling \<open>start\<close> again does not begin a
  second chain, no tick is forgotten, and the timer never has two waits.\<close>

theorem one_tick_chain:
  assumes "loop_steps uniform fb (Loop_init w g now) as l" "wi_state w = Stopped" "set as \<inter> stop_labels = {}"
  shows "ticks_to_come l = (if state_of l = Running then 1 else 0)"
proof -
  have "one_chain (Loop_init w g now)" using assms(2) by (simp add: chain_defs Loop_init_def)
  moreover have "one_chain l'" if s: "loop_step uniform fb l a l'" "a \<in> set as" "one_chain l" for l a l'
  proof (rule loop_step_by_pieces [where P = one_chain, OF s(1,3)])
    fix l b l' assume "loop_step uniform fb l b l'" "b \<notin> range Run" "b = a \<or> a \<in> range Run \<and> b \<in> range Piece" "one_chain l"
    moreover have "b \<notin> stop_labels" using calculation(3) s(2) assms(3) by (auto simp: stop_labels_def)
    ultimately show "one_chain l'" using chain_step by blast
  qed
  ultimately have "one_chain l \<and> () = ()"
    by (intro loop_steps_invariant [OF assms(1), where P = one_chain and f = "\<lambda>_. ()"]) simp_all
  then show ?thesis by (simp add: one_chain_def)
qed

section \<open>Stopping\<close>

text \<open>What the actions on the timer leave of the loop.\<close>

lemma shutdown_fields:
  "l_strand (shutdownTickLoop l) = l_strand l @ replicate (l_waits l) (DoTick OperationAborted)"
  "l_waits (shutdownTickLoop l) = 0" "state_of (shutdownTickLoop l) = state_of l" "tick_of (shutdownTickLoop l) = tick_of l"
  "l_published (shutdownTickLoop l) = l_published l"
  by (simp_all add: shutdownTickLoop_def timer_defs queue_drain_def drain_loop_eq)

lemma deadline_fields:
  "l_strand (set_next_deadline l) = l_strand l @ replicate (l_waits l) (DoTick OperationAborted)"
  "l_waits (set_next_deadline l) = 0" "l_world (set_next_deadline l) = l_world l" "l_published (set_next_deadline l) = l_published l"
  "l_strand (expires_after d l) = l_strand l @ replicate (l_waits l) (DoTick OperationAborted)"
  "l_waits (expires_after d l) = 0" "l_world (expires_after d l) = l_world l" "l_published (expires_after d l) = l_published l"
  "l_strand (async_wait l) = l_strand l" "l_world (async_wait l) = l_world l" "l_published (async_wait l) = l_published l"
  "l_waits (async_wait l) = Suc (l_waits l)" "l_rng (set_next_deadline l) = l_rng l" "l_rng (async_wait l) = l_rng l"
  by (simp_all add: set_next_deadline_def timer_defs Let_def)





















lemma continue_fields:
  "state_of (continue r m) = state_of m" "tick_of (continue r m) = tick_of m" "l_published (continue r m) = l_published m"
  "l_waits (continue r m) = l_waits m" "set (l_strand (continue r m)) = set_option r \<union> set (l_strand m)"
  by (simp_all add: continue_def split: option.split)










text \<open>The cadence: a tick sets the next deadline one interval after its own, so ticks do
  not drift; only when that is more than one interval in the past it is one interval from now.
  The new deadline is never more than one interval late, never before the old one, and exactly
  one wait is outstanding on it.\<close>

theorem scheduleNextTick_cadence:
  assumes "state_of l = Running" "0 < wi_tick_interval (l_world l)"
  shows "l_expiry (scheduleNextTick l) =
      (if l_now l \<le> l_expiry l + 2 * wi_tick_interval (l_world l) then l_expiry l + wi_tick_interval (l_world l)
       else l_now l + wi_tick_interval (l_world l))
    \<and> l_now l - wi_tick_interval (l_world l) \<le> l_expiry (scheduleNextTick l)
    \<and> l_expiry l < l_expiry (scheduleNextTick l) \<and> l_waits (scheduleNextTick l) = 1"
  using assms by (auto simp: scheduleNextTick_def expires_after_def expires_at_def timer_cancel_def async_wait_def
      kMaxMissedTicks_def set_next_deadline_def Let_def)

text \<open>Running, but with no tick to come.\<close>

definition stuck :: "'g Loop \<Rightarrow> bool" where
  "stuck l \<longleftrightarrow> state_of l = Running \<and> l_waits l = 0 \<and> set (l_strand l) \<subseteq> {DoStart, DoStop, DoTick OperationAborted}"

lemma stuck_step:
  assumes "loop_step uniform fb l a l'" "a \<notin> {CallStop, StopStore}" "stuck l"
  shows "stuck l' \<and> tick_of l' = tick_of l"
  using assms(1)
proof (cases rule: loop_step.cases)
  case (run t rest)
  with assms(3) have "t \<in> {DoStart, DoStop, DoTick OperationAborted}" "set rest \<subseteq> {DoStart, DoStop, DoTick OperationAborted}"
    by (auto simp: stuck_def)
  then show ?thesis using run(3) assms(3)
    by (elim insertE emptyE; simp add: stuck_def run_task_def doStart_def doTick_def doStop_def shutdown_fields; clarsimp simp: shutdown_fields)
next
  case (piece t rest m remains)
  with assms(3) have "t \<in> {DoStart, DoStop, DoTick OperationAborted}" "set rest \<subseteq> {DoStart, DoStop, DoTick OperationAborted}"
    by (auto simp: stuck_def)
  then show ?thesis using piece(2,4) assms(3)
    by (elim insertE emptyE; simp add: stuck_def handler_piece_def continue_fields doTick_def doStop_def shutdown_fields; clarsimp simp: shutdown_fields)
qed (use assms(2,3) in \<open>simp_all add: stuck_def world_start_def stop_cancel_def stop_post_def timer_cancel_def world_on_event_fields\<close>)

text \<open>A stop that overtakes a start leaves the loop stuck: if \<open>stop\<close> is called after
  \<open>start\<close> but before the strand has run \<open>doStart\<close>, the strand first switches to
  Running and then cancels the timer without resetting the state.  From then on no tick is ever
  run and further calls of \<open>start\<close> have no effect, until \<open>stop\<close> is called again.\<close>

theorem stop_overtakes_start:
  assumes "state_of l = Stopped" "l_strand l = []" "l_waits l = 0"
  shows "\<exists>l'. loop_steps uniform fb l [CallStart, CallStop, Run DoStart, Run DoStop, Run (DoTick OperationAborted)] l'
    \<and> state_of l' = Running
    \<and> (\<forall>as l''. loop_steps uniform fb l' as l'' \<longrightarrow> set as \<inter> {CallStop, StopStore} = {} \<longrightarrow> tick_of l'' = tick_of l)"
proof -
  let ?w = "l_world l"
  let ?l1 = "l\<lparr>l_strand := [DoStart, DoStop]\<rparr>"
  let ?l2 = "l\<lparr>l_world := ?w\<lparr>wi_state := Running\<rparr>, l_strand := [DoStop], l_waits := 1,
      l_expiry := l_now l + wi_tick_interval ?w\<rparr>"
  let ?l3 = "?l2\<lparr>l_world := ?w\<lparr>wi_state := Running, wi_action_queue := []\<rparr>, l_strand := [DoTick OperationAborted], l_waits := 0\<rparr>"
  let ?l4 = "?l3\<lparr>l_strand := []\<rparr>"
  have w: "?w\<lparr>wi_state := Stopped\<rparr> = ?w" using assms(1) by (cases ?w) simp
  have l0: "l\<lparr>l_world := ?w, l_strand := s, l_waits := 0\<rparr> = l\<lparr>l_strand := s\<rparr>" for s using assms(3) by (cases l) simp
  have s12: "loop_step uniform fb l CallStart (l\<lparr>l_strand := [DoStart]\<rparr>)"
      "loop_step uniform fb (l\<lparr>l_strand := [DoStart]\<rparr>) CallStop ?l1"
    using loop_step.call_start [of uniform fb l] loop_step.call_stop [of uniform fb "l\<lparr>l_strand := [DoStart]\<rparr>"]
      assms(2,3) w l0 [of "[DoStart, DoStop]"]
    by (simp_all add: loop_defs) (cases l, simp)
  have s3: "loop_step uniform fb ?l1 (Run DoStart) ?l2"
    by (rule loop_step.run [of _ _ "[DoStop]"]) (use assms in \<open>simp_all add: run_task_def loop_defs\<close>)
  have s4: "loop_step uniform fb ?l2 (Run DoStop) ?l3"
    by (rule loop_step.run [of _ _ "[]"]) (simp_all add: run_task_def loop_defs)
  have s5: "loop_step uniform fb ?l3 (Run (DoTick OperationAborted)) ?l4"
    by (rule loop_step.run [of _ _ "[]"]) (simp_all add: run_task_def doTick_def)
  have run: "loop_steps uniform fb l [CallStart, CallStop, Run DoStart, Run DoStop, Run (DoTick OperationAborted)] ?l4"
    by (intro loop_steps.more [OF s12(1)] loop_steps.more [OF s12(2)] loop_steps.more [OF s3] loop_steps.more [OF s4]
        loop_steps.more [OF s5] loop_steps.finished)
  have st: "stuck ?l4" by (simp add: stuck_def)
  have "tick_of l'' = tick_of l" if "loop_steps uniform fb ?l4 as l''" "set as \<inter> {CallStop, StopStore} = {}" for as l''
  proof -
    have "stuck l1 \<and> tick_of l1 = tick_of l0" if "loop_step uniform fb l0 a l1" "a \<in> set as" "stuck l0" for l0 a l1
      by (rule stuck_step [OF that(1) _ that(3)]) (use that(2) \<open>set as \<inter> {CallStop, StopStore} = {}\<close> in auto)
    from loop_steps_invariant [OF that(1), where P = stuck and f = tick_of, OF st this] show ?thesis by simp
  qed
  with run show ?thesis by (intro exI [of _ ?l4]) simp
qed

section \<open>Ticking\<close>

text \<open>Running, idle, with the next tick armed.\<close>

definition armed :: "nat \<Rightarrow> 'g Loop \<Rightarrow> bool" where
  "armed n l \<longleftrightarrow> state_of l = Running \<and> l_strand l = [] \<and> l_waits l = 1
     \<and> good (2 * length (wi_action_queue (l_world l)) + 50 * n) (l_world l)"

lemma good_fields:
  "pool_inv (wi_entities w) \<Longrightarrow> wi_entities w' = wi_entities w \<Longrightarrow> wi_session_to_ship w' = wi_session_to_ship w \<Longrightarrow>
   good n w \<Longrightarrow> good n w'"
  by (simp add: good_def world_inv_def sessions_alive_def)

lemma armed_ticks:
  assumes "armed (Suc n) l" "rng_ok uniform"
  shows "\<exists>l'. loop_steps uniform fb l [Clock, Fire, Run (DoTick NoError)] l' \<and> armed n l'
    \<and> tick_of l' = tick_of l + 1"
proof -
  let ?l1 = "l\<lparr>l_now := max (l_now l) (l_expiry l)\<rparr>"
  let ?l2 = "?l1\<lparr>l_waits := 0, l_strand := [DoTick NoError]\<rparr>"
  let ?l3 = "?l2\<lparr>l_strand := []\<rparr>"
  let ?l4 = "scheduleNextTick ?l3"
  let ?w = "l_world l"
  have run: "state_of l = Running" "l_strand l = []" "l_waits l = 1"
    and g: "good (2 * length (wi_action_queue ?w) + 50 + 50 * n) ?w"
    using assms(1) by (simp_all add: armed_def add.assoc)
  have l4: "l_world ?l4 = ?w" "l_rng ?l4 = l_rng l" "l_strand ?l4 = []" "l_waits ?l4 = 1"
    using run by (simp_all add: scheduleNextTick_def deadline_fields)
  obtain w' evs g' where t: "runTickStep uniform fb ?w (l_rng l) = Some (w', evs, g')" "good (50 * n) w'"
    "same_frame (?w\<lparr>wi_action_queue := []\<rparr>) w'"
    using runTickStep_good [OF g assms(2), of fb "l_rng l"] by blast
  let ?l5 = "?l4\<lparr>l_world := w'\<lparr>wi_current_tick := wi_current_tick w' + 1\<rparr>, l_rng := g',
      l_published := l_published ?l4 @ evs\<rparr>"
  have s1: "loop_step uniform fb l Clock ?l1" by (rule loop_step.clock) simp
  have s2: "loop_step uniform fb ?l1 Fire ?l2"
    using loop_step.fire [of ?l1 0 uniform fb] run by simp
  have "doTick uniform fb NoError ?l3 = Some ?l5"
    using run t(1) l4 by (simp add: doTick_def tick_body_def)
  then have s3: "loop_step uniform fb ?l2 (Run (DoTick NoError)) ?l5"
    by (intro loop_step.run [of _ _ "[]"]) (simp_all add: run_task_def)
  have "loop_steps uniform fb l [Clock, Fire, Run (DoTick NoError)] ?l5"
    by (intro loop_steps.more [OF s1] loop_steps.more [OF s2] loop_steps.more [OF s3] loop_steps.finished)
  moreover have "armed n ?l5" "tick_of ?l5 = tick_of l + 1"
    using t(2,3) run l4 good_fields [of w' "w'\<lparr>wi_current_tick := wi_current_tick w' + 1\<rparr>" "50 * n"]
    by (simp_all add: armed_def same_frame_def good_def world_inv_def)
  ultimately show ?thesis by blast
qed

lemma armed_ticks_n:
  assumes "rng_ok uniform"
  shows "armed n l \<Longrightarrow> \<exists>l'. loop_steps uniform fb l (concat (replicate n [Clock, Fire, Run (DoTick NoError)])) l'
    \<and> armed 0 l' \<and> tick_of l' = tick_of l + of_nat n"
proof (induction n arbitrary: l)
  case 0
  then show ?case by (auto intro: loop_steps.finished)
next
  case (Suc n)
  obtain l1 where l1: "loop_steps uniform fb l [Clock, Fire, Run (DoTick NoError)] l1" "armed n l1" "tick_of l1 = tick_of l + 1"
    using armed_ticks [OF Suc.prems assms] by blast
  obtain l2 where l2: "loop_steps uniform fb l1 (concat (replicate n [Clock, Fire, Run (DoTick NoError)])) l2"
      "armed 0 l2" "tick_of l2 = tick_of l1 + of_nat n"
    using Suc.IH [OF l1(2)] by blast
  from loop_steps_append [OF l1(1) l2(1)] l1(3) l2(2,3) show ?case
    by (intro exI [of _ l2]) (simp add: add.commute add.left_commute)
qed

text \<open>C19.  A started world keeps ticking: from a consistent stopped world, after \<open>start\<close> has
  run, the timer expires and a tick is run over and over, as often as there is room for the
  entities; after each the loop is still running with the next tick armed.  The counter counts
  every tick, also one whose snapshot could not be serialised: \<open>fb\<close> is arbitrary.\<close>

theorem started_world_ticks:
  assumes "world_inv w" "sessions_alive w" "wi_state w = Stopped" "rng_ok uniform"
    "room_for (2 * length (wi_action_queue w) + 50 * n) (wi_entities w)"
  shows "\<exists>l. loop_steps uniform fb (Loop_init w g now)
      ([CallStart, Run DoStart] @ concat (replicate n [Clock, Fire, Run (DoTick NoError)])) l
    \<and> tick_of l = wi_current_tick w + of_nat n \<and> state_of l = Running \<and> l_waits l = 1 \<and> world_inv (l_world l)"
proof -
  let ?l0 = "Loop_init w g now"
  let ?l1 = "?l0\<lparr>l_strand := [DoStart]\<rparr>"
  let ?l2 = "doStart (?l1\<lparr>l_strand := []\<rparr>)"
  have s1: "loop_step uniform fb ?l0 CallStart ?l1"
    using loop_step.call_start [of uniform fb ?l0] by (simp add: world_start_def Loop_init_def)
  have s2: "loop_step uniform fb ?l1 (Run DoStart) ?l2"
    by (rule loop_step.run [of _ _ "[]"]) (simp_all add: run_task_def)
  have start: "loop_steps uniform fb ?l0 [CallStart, Run DoStart] ?l2"
    by (intro loop_steps.more [OF s1] loop_steps.more [OF s2] loop_steps.finished)
  have "armed n ?l2" "tick_of ?l2 = wi_current_tick w"
    using assms by (simp_all add: armed_def doStart_def expires_after_def expires_at_def timer_cancel_def async_wait_def
        Loop_init_def good_def world_inv_def sessions_alive_def)
  from armed_ticks_n [OF assms(4) this(1)] this(2) obtain l where
    l: "loop_steps uniform fb ?l2 (concat (replicate n [Clock, Fire, Run (DoTick NoError)])) l"
      "armed 0 l" "tick_of l = wi_current_tick w + of_nat n" by metis
  from loop_steps_append [OF start l(1)] l(2,3) show ?thesis
    by (intro exI [of _ l]) (simp add: armed_def good_def)
qed

section \<open>Witnesses\<close>

definition idle_world :: World where
  "idle_world = empty_world\<lparr>wi_state := Stopped\<rparr>"

lemma idle_world_good: "good 1000 idle_world"
  using empty_world_good by (simp add: idle_world_def good_def world_inv_def sessions_alive_def)

theorem started_world_ticks_witness:
  "\<exists>l. loop_steps low_rng sample_fb (Loop_init idle_world () 0)
      [CallStart, Run DoStart, Clock, Fire, Run (DoTick NoError), Clock, Fire, Run (DoTick NoError)] l \<and> tick_of l = 9"
proof -
  have "room_for (2 * length (wi_action_queue idle_world) + 50 * 2) (wi_entities idle_world)" "wi_state idle_world = Stopped"
    using idle_world_good by (simp_all add: idle_world_def empty_world_def good_def room_for_def)
  moreover have "world_inv idle_world" "sessions_alive idle_world" using idle_world_good by (simp_all add: good_def)
  ultimately obtain l where "loop_steps low_rng sample_fb (Loop_init idle_world () 0)
      ([CallStart, Run DoStart] @ concat (replicate 2 [Clock, Fire, Run (DoTick NoError)])) l"
      "tick_of l = wi_current_tick idle_world + of_nat 2"
    using started_world_ticks [of idle_world low_rng 2 sample_fb "()" 0] low_rng_ok by blast
  then show ?thesis by (intro exI [of _ l]) (simp add: numeral_2_eq_2 idle_world_def empty_world_def)
qed

theorem scheduleNextTick_cadence_witness:
  "l_expiry (scheduleNextTick ((Loop_init empty_world () 5)\<lparr>l_expiry := 4\<rparr>)) = 4 + 16666"
  using scheduleNextTick_cadence [of "(Loop_init empty_world () 5)\<lparr>l_expiry := 4\<rparr>"]
  by (simp add: Loop_init_def empty_world_def)

theorem stop_overtakes_start_witness:
  "\<exists>l'. loop_steps low_rng sample_fb (Loop_init idle_world () 0)
      [CallStart, CallStop, Run DoStart, Run DoStop, Run (DoTick OperationAborted)] l' \<and> state_of l' = Running"
proof -
  have "state_of (Loop_init idle_world () 0) = Stopped" "l_strand (Loop_init idle_world () 0) = []"
    "l_waits (Loop_init idle_world () 0) = 0" by (simp_all add: Loop_init_def idle_world_def)
  from stop_overtakes_start [OF this, of low_rng sample_fb] show ?thesis by blast
qed

text \<open>Two calls of \<open>start\<close> and a tick that has set the next deadline but has not begun the wait.\<close>

definition arming_loop :: "unit Loop" where
  "arming_loop = (Loop_init empty_world () 16666)\<lparr>l_expiry := 33332, l_strand := [TickWait]\<rparr>"

lemma arming_loop_run:
  "loop_steps low_rng sample_fb (Loop_init idle_world () 0) [CallStart, CallStart, Run DoStart, Piece DoStart, Clock, Fire,
     Piece (DoTick NoError), Piece TickSchedule, Piece TickDeadline] arming_loop"
proof -
  let ?l = "Loop_init empty_world () 0"
  let ?e = "?l\<lparr>l_expiry := 16666\<rparr>"
  let ?n = "?e\<lparr>l_now := 16666\<rparr>"
  have f: "l_expiry ?l = 0" "l_now ?l = 0" "l_world ?l = empty_world" "l_waits ?l = 0" "l_strand ?l = []"
    "wi_state empty_world = Running" "wi_tick_interval empty_world = 16666"
    by (simp_all add: Loop_init_def empty_world_def)
  have arm: "arming_loop = ?n\<lparr>l_expiry := 33332, l_strand := [TickWait]\<rparr>" by (simp add: arming_loop_def Loop_init_def)
  have "loop_steps low_rng sample_fb (?n\<lparr>l_strand := [TickDeadline]\<rparr>) [Piece TickDeadline] arming_loop"
    by (rule piece_then [where rest = "[]" and m = "?n\<lparr>l_expiry := 33332, l_strand := []\<rparr>" and t' = TickWait])
      (simp_all add: handler_piece_def set_next_deadline_def timer_defs kMaxMissedTicks_def f arm loop_steps.finished)
  then have "loop_steps low_rng sample_fb (?n\<lparr>l_strand := [TickSchedule]\<rparr>) [Piece TickSchedule, Piece TickDeadline] arming_loop"
    by - (rule piece_then [where rest = "[]" and m = "?n\<lparr>l_strand := []\<rparr>" and t' = TickDeadline]; simp add: handler_piece_def f)
  then have "loop_steps low_rng sample_fb (?n\<lparr>l_strand := [DoTick NoError]\<rparr>)
      [Piece (DoTick NoError), Piece TickSchedule, Piece TickDeadline] arming_loop"
    by - (rule piece_then [where rest = "[]" and m = "?n\<lparr>l_strand := []\<rparr>" and t' = TickSchedule]; simp add: handler_piece_def f)
  moreover have "loop_step low_rng sample_fb (?n\<lparr>l_waits := 1\<rparr>) Fire (?n\<lparr>l_strand := [DoTick NoError]\<rparr>)"
    using loop_step.fire [of "?n\<lparr>l_waits := 1\<rparr>" 0 low_rng sample_fb] by (simp add: Loop_init_def)
  moreover have "loop_step low_rng sample_fb (?e\<lparr>l_waits := 1\<rparr>) Clock (?n\<lparr>l_waits := 1\<rparr>)"
    using loop_step.clock [of "?e\<lparr>l_waits := 1\<rparr>" 16666 low_rng sample_fb] by (simp add: Loop_init_def)
  moreover have "loop_step low_rng sample_fb (?e\<lparr>l_waits := 1, l_strand := [DoStart]\<rparr>) (Piece DoStart) (?e\<lparr>l_waits := 1\<rparr>)"
    using loop_step.piece [of "?e\<lparr>l_waits := 1, l_strand := [DoStart]\<rparr>" DoStart "[]" low_rng sample_fb "?e\<lparr>l_waits := 1\<rparr>" None]
    by (simp add: piece_defs Loop_init_def empty_world_def)
  moreover have "loop_step low_rng sample_fb ((Loop_init idle_world () 0)\<lparr>l_strand := [DoStart, DoStart]\<rparr>) (Run DoStart)
      (?e\<lparr>l_waits := 1, l_strand := [DoStart]\<rparr>)"
    by (rule loop_step.run [where rest = "[DoStart]"])
      (simp_all add: run_task_def doStart_def timer_defs Loop_init_def idle_world_def empty_world_def)
  moreover have "loop_step low_rng sample_fb (Loop_init idle_world () 0) CallStart ((Loop_init idle_world () 0)\<lparr>l_strand := [DoStart]\<rparr>)"
    "loop_step low_rng sample_fb ((Loop_init idle_world () 0)\<lparr>l_strand := [DoStart]\<rparr>) CallStart
      ((Loop_init idle_world () 0)\<lparr>l_strand := [DoStart, DoStart]\<rparr>)"
    using loop_step.call_start [of low_rng sample_fb "Loop_init idle_world () 0"]
      loop_step.call_start [of low_rng sample_fb "(Loop_init idle_world () 0)\<lparr>l_strand := [DoStart]\<rparr>"]
    by (simp_all add: world_start_def Loop_init_def)
  ultimately show ?thesis by (blast intro: loop_steps.more)
qed

theorem one_tick_chain_witness:
  "ticks_to_come arming_loop = 1 \<and> state_of arming_loop = Running"
proof -
  have r: "state_of arming_loop = Running" by (simp add: arming_loop_def Loop_init_def empty_world_def)
  have "wi_state idle_world = Stopped" by (simp add: idle_world_def)
  from one_tick_chain [OF arming_loop_run this] r show ?thesis by (simp add: stop_labels_def)
qed


end
