(* ===== verification/GameServer.thy ===== *)
theory GameServer
  imports TcpServer WorldLoop
begin

text \<open>
  src/src/server/main.cpp and how the parts of the server interact: the router, the registry of
  the TCP server and the world subscribe to one bus, in the order in which \<open>main\<close> creates them;
  what a session, the acceptor or a tick publishes is dispatched to them synchronously, in the
  order of subscription, and the router publishes in turn.  No handler publishes a message or a
  connection event, so two levels are enough.  A dispatched handler changes the strands, the table and
  the queues of other parts only, so the events of a step are dispatched at its end.
\<close>

section \<open>The parts and the bus\<close>

datatype world_slot = WorldDisconnected | WorldPlayerJoin | WorldShot | WorldPlayerMove

datatype server_slot = RouterSlot router_slot | RegistrySlot registry_slot | WorldSlot world_slot

definition world_setupSubscriptions ::
  "(world_slot \<Rightarrow> 'c) \<Rightarrow> type_ids \<times> 'c EventBus \<Rightarrow> (nat \<times> nat) list \<times> type_ids \<times> 'c EventBus" where
  "world_setupSubscriptions cb st =
     (let (sub_disconnect, st) = subscribe TClientDisconnected (cb WorldDisconnected) st;
          (sub_player_join, st) = subscribe TPlayerJoin (cb WorldPlayerJoin) st;
          (sub_shoot, st) = subscribe TShotMessage (cb WorldShot) st;
          (sub_player_move, st) = subscribe TPlayerMove (cb WorldPlayerMove) st
      in ([sub_disconnect, sub_player_join, sub_shoot, sub_player_move], st))"

definition WorldInstance_create ::
  "(world_slot \<Rightarrow> 'c) \<Rightarrow> (type_ids \<times> 'c EventBus) option \<Rightarrow> scalar \<Rightarrow> scalar \<Rightarrow> scalar
    \<Rightarrow> exn + (World \<times> type_ids \<times> 'c EventBus)" where
  "WorldInstance_create cb event_bus tick_rate_hz world_width world_height =
     and_then (WorldInstance_ctor (event_bus \<noteq> None) tick_rate_hz world_width world_height) (\<lambda>world.
       Inr (world, snd (world_setupSubscriptions cb (the event_bus))))"

record 'g GameServer =
  sv_bus :: "type_ids \<times> server_slot EventBus"
  sv_router :: "unit Router"
  sv_tcp :: TcpServer
  sv_loop :: "'g Loop"

text \<open>The first part of \<open>main\<close>; the pool of threads that runs the strands is not modelled.\<close>

definition server_create :: "'g \<Rightarrow> int \<Rightarrow> exn + 'g GameServer" where
  "server_create rng now =
     (let event_bus = (type_ids_init, EventBus_create)
      in case Router_create RouterSlot (Some event_bus) of
           None \<Rightarrow> Inl (InvalidArgument ''router'')
         | Some (router, event_bus) \<Rightarrow>
             and_then (TcpServer_ctor RegistrySlot (Some event_bus)) (\<lambda>(server, event_bus).
             and_then (WorldInstance_create WorldSlot (Some event_bus) kDefaultTickRateHz kDefaultWidth kDefaultHeight)
               (\<lambda>(world, event_bus). Inr \<lparr>sv_bus = event_bus, sv_router = router, sv_tcp = server,
                  sv_loop = Loop_init world rng now\<rparr>)))"

section \<open>Dispatch\<close>

text \<open>A callback that does not publish: those of the registry and the world, and the two of the
  router that only log.\<close>

definition run_leaf :: "event \<Rightarrow> server_slot \<Rightarrow> 'g GameServer \<Rightarrow> 'g GameServer" where
  "run_leaf ev sl s =
     (case sl of
        RouterSlot _ \<Rightarrow> s
      | RegistrySlot r \<Rightarrow> s\<lparr>sv_tcp := registry_on_event r ev (sv_tcp s)\<rparr>
      | WorldSlot _ \<Rightarrow> s\<lparr>sv_loop := (sv_loop s)\<lparr>l_world := world_on_event ev (l_world (sv_loop s))\<rparr>\<rparr>)"

definition publish_leaf :: "event \<Rightarrow> 'g GameServer \<Rightarrow> 'g GameServer" where
  "publish_leaf ev s =
     (let (callbacks, event_bus) = publish ev (sv_bus s)
      in fold (run_leaf ev) callbacks (s\<lparr>sv_bus := event_bus\<rparr>))"

text \<open>\<open>main\<close> sets no external message handler.\<close>

definition run_action :: "unit router_action \<Rightarrow> 'g GameServer \<Rightarrow> 'g GameServer" where
  "run_action a s = (case a of Publish ev \<Rightarrow> publish_leaf ev s | CallHandler _ _ _ \<Rightarrow> s)"

definition run_callback :: "event \<Rightarrow> server_slot \<Rightarrow> 'g GameServer \<Rightarrow> 'g GameServer" where
  "run_callback ev sl s =
     (case (sl, ev) of
        (RouterSlot OnMessageReceived, NetworkMessageEvent sid payload) \<Rightarrow>
          fold run_action (onMessageReceived (sv_router s) sid payload) s
      | (RouterSlot OnClientConnected, ClientConnectedEvent sid address) \<Rightarrow>
          fold run_action (Router.onClientConnected sid address) s
      | (RouterSlot OnClientDisconnected, ClientDisconnectedEvent sid) \<Rightarrow>
          fold run_action (Router.onClientDisconnected sid) s
      | _ \<Rightarrow> run_leaf ev sl s)"

definition bus_publish :: "event \<Rightarrow> 'g GameServer \<Rightarrow> 'g GameServer" where
  "bus_publish ev s =
     (let (callbacks, event_bus) = publish ev (sv_bus s)
      in fold (run_callback ev) callbacks (s\<lparr>sv_bus := event_bus\<rparr>))"

definition publish_all :: "event list \<Rightarrow> 'g GameServer \<Rightarrow> 'g GameServer" where
  "publish_all evs s = fold bus_publish evs s"

section \<open>Steps\<close>

datatype system_label = Net server_label | Sim loop_label

text \<open>What a step of the network part publishes.\<close>

definition net_events :: "server_label \<Rightarrow> TcpServer \<Rightarrow> TcpServer \<Rightarrow> event list" where
  "net_events a s s' =
     (case a of
        SvAccept result \<Rightarrow> snd (on_accept result s)
      | SvSession r _ \<Rightarrow> drop (length (se_published (ts_heap s ! r))) (se_published (ts_heap s' ! r))
      | _ \<Rightarrow> [])"

inductive system_step ::
  "(u32 \<Rightarrow> byte list) \<Rightarrow> (byte list \<Rightarrow> u32) \<Rightarrow> 'g uniform \<Rightarrow> flatbuffers
    \<Rightarrow> 'g GameServer \<Rightarrow> system_label \<Rightarrow> 'g GameServer \<Rightarrow> bool"
  for store :: "u32 \<Rightarrow> byte list" and load :: "byte list \<Rightarrow> u32" and uniform :: "'g uniform" and fb :: flatbuffers where
  net: "server_step store load (sv_tcp s) a tcp \<Longrightarrow> (\<forall>sl ev. a \<noteq> SvEvent sl ev) \<Longrightarrow>
    system_step store load uniform fb s (Net a) (publish_all (net_events a (sv_tcp s) tcp) (s\<lparr>sv_tcp := tcp\<rparr>))"
| sim: "loop_step uniform fb (sv_loop s) a l \<Longrightarrow> (\<forall>ev. a \<noteq> Deliver ev) \<Longrightarrow>
    system_step store load uniform fb s (Sim a)
      (publish_all (drop (length (l_published (sv_loop s))) (l_published l)) (s\<lparr>sv_loop := l\<rparr>))"

inductive system_run ::
  "(u32 \<Rightarrow> byte list) \<Rightarrow> (byte list \<Rightarrow> u32) \<Rightarrow> 'g uniform \<Rightarrow> flatbuffers \<Rightarrow> 'g \<Rightarrow> int \<Rightarrow> 'g GameServer \<Rightarrow> bool"
  for store :: "u32 \<Rightarrow> byte list" and load :: "byte list \<Rightarrow> u32" and uniform :: "'g uniform" and fb :: flatbuffers
    and rng :: 'g and now :: int where
  sys_created: "server_create rng now = Inr s \<Longrightarrow> system_run store load uniform fb rng now s"
| sys_stepped: "system_run store load uniform fb rng now s \<Longrightarrow> system_step store load uniform fb s a s' \<Longrightarrow>
    system_run store load uniform fb rng now s'"

section \<open>Who is called\<close>

definition wiring :: "event_type \<Rightarrow> server_slot list" where
  "wiring t = (case t of
      TNetworkMessage \<Rightarrow> [RouterSlot OnMessageReceived]
    | TClientConnected \<Rightarrow> [RouterSlot OnClientConnected]
    | TClientDisconnected \<Rightarrow> [RouterSlot OnClientDisconnected, RegistrySlot RegistryRemove, WorldSlot WorldDisconnected]
    | TSendPacket \<Rightarrow> [RegistrySlot RegistrySend]
    | TPlayerJoin \<Rightarrow> [WorldSlot WorldPlayerJoin]
    | TShotMessage \<Rightarrow> [WorldSlot WorldShot]
    | TPlayerMove \<Rightarrow> [WorldSlot WorldPlayerMove]
    | TShipDestroyed \<Rightarrow> [])"

definition wired :: "'g GameServer \<Rightarrow> bool" where
  "wired s \<longleftrightarrow> bus_inv (sv_bus s) \<and> (\<forall>t. subscribers t (sv_bus s) = wiring t) \<and> ro_message_handler (sv_router s) = None"

text \<open>The registrations of the two constructors.\<close>

lemma TcpServer_ctor_correct:
  assumes "bus_inv st" "TcpServer_ctor cb (Some st) = Inr (s, st')"
  shows "bus_inv st'" "subscribers t st' = subscribers t st @
    (case t of TSendPacket \<Rightarrow> [cb RegistrySend] | TClientDisconnected \<Rightarrow> [cb RegistryRemove] | _ \<Rightarrow> [])"
    "s = fresh_server"
proof -
  obtain c1 st1 where s1: "subscribe TSendPacket (cb RegistrySend) st = (c1, st1)" by (metis prod.collapse)
  obtain c2 st2 where s2: "subscribe TClientDisconnected (cb RegistryRemove) st1 = (c2, st2)" by (metis prod.collapse)
  note S1 = subscribe_correct [OF assms(1) s1] note S2 = subscribe_correct [OF S1(1) s2]
  have st': "st' = st2" "s = fresh_server"
    using assms(2) by (auto simp: TcpServer_ctor_def SessionRegistry_ctor_def s1 s2 fresh_server_def)
  show "bus_inv st'" "s = fresh_server" using S2(1) st' by simp_all
  show "subscribers t st' = subscribers t st @
    (case t of TSendPacket \<Rightarrow> [cb RegistrySend] | TClientDisconnected \<Rightarrow> [cb RegistryRemove] | _ \<Rightarrow> [])"
    unfolding st'(1) using S1(2) [of t] S2(2) [of t] by (cases t) simp_all
qed

lemma world_setupSubscriptions_correct:
  assumes "bus_inv st" "world_setupSubscriptions cb st = (conns, st')"
  shows "bus_inv st'" "subscribers t st' = subscribers t st @
    (case t of TClientDisconnected \<Rightarrow> [cb WorldDisconnected] | TPlayerJoin \<Rightarrow> [cb WorldPlayerJoin]
       | TShotMessage \<Rightarrow> [cb WorldShot] | TPlayerMove \<Rightarrow> [cb WorldPlayerMove] | _ \<Rightarrow> [])"
proof -
  obtain c1 st1 where s1: "subscribe TClientDisconnected (cb WorldDisconnected) st = (c1, st1)" by (metis prod.collapse)
  obtain c2 st2 where s2: "subscribe TPlayerJoin (cb WorldPlayerJoin) st1 = (c2, st2)" by (metis prod.collapse)
  obtain c3 st3 where s3: "subscribe TShotMessage (cb WorldShot) st2 = (c3, st3)" by (metis prod.collapse)
  obtain c4 st4 where s4: "subscribe TPlayerMove (cb WorldPlayerMove) st3 = (c4, st4)" by (metis prod.collapse)
  note S1 = subscribe_correct [OF assms(1) s1] note S2 = subscribe_correct [OF S1(1) s2]
  note S3 = subscribe_correct [OF S2(1) s3] note S4 = subscribe_correct [OF S3(1) s4]
  have st': "st' = st4" using assms(2) by (simp add: world_setupSubscriptions_def s1 s2 s3 s4)
  show "bus_inv st'" using S4(1) st' by simp
  show "subscribers t st' = subscribers t st @
    (case t of TClientDisconnected \<Rightarrow> [cb WorldDisconnected] | TPlayerJoin \<Rightarrow> [cb WorldPlayerJoin]
       | TShotMessage \<Rightarrow> [cb WorldShot] | TPlayerMove \<Rightarrow> [cb WorldPlayerMove] | _ \<Rightarrow> [])"
    unfolding st' using S1(2) [of t] S2(2) [of t] S3(2) [of t] S4(2) [of t] by (cases t) simp_all
qed

text \<open>The world \<open>main\<close> creates.\<close>

definition default_world :: World where
  "default_world = \<lparr>wi_current_tick = 0, wi_action_queue = [], wi_entities = EntityPool_init, wi_snapshot_buffer = [],
     wi_tick_interval = 16666, wi_width = Fin 2000, wi_height = Fin 2000, wi_state = Stopped, wi_session_to_ship = []\<rparr>"

lemma default_world: "WorldInstance_ctor True kDefaultTickRateHz kDefaultWidth kDefaultHeight = Inr default_world"
  by (simp add: WorldInstance_ctor_def default_world_def kDefaultTickRateHz_def kDefaultWidth_def kDefaultHeight_def Let_def)

lemma server_create_ok:
  obtains s where "server_create rng now = Inr s" "wired s" "sv_tcp s = fresh_server"
    "sv_loop s = Loop_init default_world rng now"
proof -
  let ?b0 = "(type_ids_init, EventBus_create) :: type_ids \<times> server_slot EventBus"
  have b0: "bus_inv ?b0" "subscribers t ?b0 = []" for t
    using bus_inv_init by (simp_all add: subscribers_def slots_of_def type_ids_init_def)
  obtain c b1 where r: "setupSubscriptions RouterSlot ?b0 = (c, b1)" by (metis prod.collapse)
  note R = setupSubscriptions_correct [OF b0(1) r]
  obtain tcp b2 where t: "TcpServer_ctor RegistrySlot (Some b1) = Inr (tcp, b2)"
    by (auto simp: TcpServer_ctor_def SessionRegistry_ctor_def split_beta)
  note T = TcpServer_ctor_correct [OF R(1) t]
  obtain c' b3 where w: "world_setupSubscriptions WorldSlot b2 = (c', b3)" by (metis prod.collapse)
  note W = world_setupSubscriptions_correct [OF T(1) w]
  let ?s = "\<lparr>sv_bus = b3, sv_router = \<lparr>ro_message_handler = None\<rparr>, sv_tcp = tcp, sv_loop = Loop_init default_world rng now\<rparr>"
  have "server_create rng now = Inr ?s"
    by (simp add: server_create_def Router_create_def r t w WorldInstance_create_def default_world)
  moreover have "subscribers u b3 = wiring u" for u
    using R(2) [of u] T(2) [of u] W(2) [of u] b0(2) [of u] by (cases u) (simp_all add: wiring_def)
  then have "wired ?s" using W(1) by (simp add: wired_def)
  ultimately show ?thesis using that T(3) by simp
qed

section \<open>What a publication does\<close>

text \<open>The effect of an event on the network part; on the world it is \<open>world_on_event\<close>.\<close>

definition tcp_on_event :: "event \<Rightarrow> TcpServer \<Rightarrow> TcpServer" where
  "tcp_on_event ev tcp = (case ev of
      SendPacketEvent _ _ \<Rightarrow> registry_on_event RegistrySend ev tcp
    | ClientDisconnectedEvent _ \<Rightarrow> registry_on_event RegistryRemove ev tcp
    | _ \<Rightarrow> tcp)"

text \<open>The events an event stands for: the router replaces a message by what it publishes.\<close>

definition expand :: "event \<Rightarrow> event list" where
  "expand ev = (case ev of
      NetworkMessageEvent sid payload \<Rightarrow>
        [e. Publish e \<leftarrow> onMessageReceived \<lparr>ro_message_handler = (None :: unit option)\<rparr> sid payload]
    | _ \<Rightarrow> [ev])"

definition applied :: "event list \<Rightarrow> 'g GameServer \<Rightarrow> 'g GameServer \<Rightarrow> bool" where
  "applied evs s s' \<longleftrightarrow> wired s' \<and> sv_tcp s' = fold tcp_on_event evs (sv_tcp s)
     \<and> sv_loop s' = (sv_loop s)\<lparr>l_world := fold world_on_event evs (l_world (sv_loop s))\<rparr>"

lemma applied_Nil: "wired s \<Longrightarrow> applied [] s s"
  by (simp add: applied_def)

lemma applied_append: "applied xs s s' \<Longrightarrow> applied ys s' s'' \<Longrightarrow> applied (xs @ ys) s s''"
  by (simp add: applied_def)

lemma publish_wired:
  assumes "wired s"
  obtains b where "publish ev (sv_bus s) = (wiring (type_of_event ev), b)" "wired (s\<lparr>sv_bus := b\<rparr>)"
proof -
  obtain cbs b where p: "publish ev (sv_bus s) = (cbs, b)" by (metis prod.collapse)
  from assms have "bus_inv (sv_bus s)" by (simp add: wired_def)
  note P = publish_correct [OF this p]
  show ?thesis using that [of b] P p assms by (simp add: wired_def subscribers_def)
qed

lemma publish_leaf_applied:
  assumes "wired s"
  shows "applied [ev] s (publish_leaf ev s)"
proof -
  obtain b where b: "publish ev (sv_bus s) = (wiring (type_of_event ev), b)" "wired (s\<lparr>sv_bus := b\<rparr>)"
    using publish_wired [OF assms] .
  then show ?thesis
    by (cases ev) (simp_all add: publish_leaf_def applied_def wired_def wiring_def run_leaf_def tcp_on_event_def
        world_on_event_def)
qed

lemma publish_leaves_applied: "wired s \<Longrightarrow> applied evs s (fold publish_leaf evs s)"
proof (induction evs arbitrary: s)
  case (Cons ev evs)
  from publish_leaf_applied [OF Cons.prems, of ev] have a: "applied [ev] s (publish_leaf ev s)" .
  then have "wired (publish_leaf ev s)" by (simp add: applied_def)
  from applied_append [OF a Cons.IH [OF this]] show ?case by simp
qed (simp add: applied_Nil)

lemma run_actions_eq: "fold run_action as s = fold publish_leaf [e. Publish e \<leftarrow> as] s"
  by (induction as arbitrary: s) (auto simp: run_action_def split: router_action.split)

lemma bus_publish_applied:
  assumes "wired s"
  shows "applied (expand ev) s (bus_publish ev s)"
proof -
  obtain b where b: "publish ev (sv_bus s) = (wiring (type_of_event ev), b)" "wired (s\<lparr>sv_bus := b\<rparr>)"
    using publish_wired [OF assms] .
  show ?thesis
  proof (cases "\<exists>sid payload. ev = NetworkMessageEvent sid payload")
    case True
    then obtain sid payload where ev: "ev = NetworkMessageEvent sid payload" by blast
    have r: "sv_router s = \<lparr>ro_message_handler = None\<rparr>" using assms by (cases "sv_router s") (simp add: wired_def)
    have "applied (expand ev) (s\<lparr>sv_bus := b\<rparr>) (bus_publish ev s)"
      using publish_leaves_applied [OF b(2), of "expand ev"] b(1)
      by (simp add: bus_publish_def ev wiring_def run_callback_def expand_def run_actions_eq r)
    then show ?thesis by (simp add: applied_def)
  next
    case False
    then show ?thesis using b
      by (cases ev) (simp_all add: bus_publish_def applied_def wired_def wiring_def run_callback_def run_leaf_def
          tcp_on_event_def world_on_event_def expand_def Router.onClientConnected_def Router.onClientDisconnected_def)
  qed
qed

lemma publish_all_applied: "wired s \<Longrightarrow> applied (concat (map expand evs)) s (publish_all evs s)"
proof (induction evs arbitrary: s)
  case (Cons ev evs)
  from bus_publish_applied [OF Cons.prems, of ev] have a: "applied (expand ev) s (bus_publish ev s)" .
  then have "wired (bus_publish ev s)" by (simp add: applied_def)
  from applied_append [OF a Cons.IH [OF this]] show ?case by (simp add: publish_all_def)
qed (simp add: applied_Nil publish_all_def)

section \<open>The parts of a running server\<close>

lemma fold_tcp_on_event_run:
  "server_run store load tr tcp \<Longrightarrow> \<exists>tr'. server_run store load tr' (fold tcp_on_event evs tcp)"
proof (induction evs arbitrary: tr tcp)
  case (Cons ev evs)
  have "\<exists>tr'. server_run store load tr' (tcp_on_event ev tcp)"
    using Cons.prems server_run.sv_stepped [OF Cons.prems server_step.sv_event]
    by (cases ev) (auto simp: tcp_on_event_def)
  with Cons.IH show ?case by auto
qed auto

lemma deliver_run: "loop_steps uniform fb l (map Deliver evs) (l\<lparr>l_world := fold world_on_event evs (l_world l)\<rparr>)"
proof (induction evs arbitrary: l)
  case (Cons ev evs)
  from loop_steps.more [OF loop_step.deliver [of uniform fb l ev] Cons.IH] show ?case by simp
qed (simp add: loop_steps.finished)

lemma system_run_parts:
  assumes "system_run store load uniform fb rng now s"
  shows "wired s \<and> (\<exists>tr. server_run store load tr (sv_tcp s))
    \<and> (\<exists>as. loop_steps uniform fb (Loop_init default_world rng now) as (sv_loop s))"
  using assms
proof (induction rule: system_run.induct)
  case (sys_created s)
  obtain s' where "server_create rng now = Inr s'" "wired s'" "sv_tcp s' = fresh_server"
    "sv_loop s' = Loop_init default_world rng now" by (rule server_create_ok)
  with sys_created fresh_server_run loop_steps.finished show ?case by fastforce
next
  case (sys_stepped s a s')
  from sys_stepped.IH obtain tr as where IH: "wired s" "server_run store load tr (sv_tcp s)"
    "loop_steps uniform fb (Loop_init default_world rng now) as (sv_loop s)" by blast
  from sys_stepped.hyps(2) show ?case
  proof (cases rule: system_step.cases)
    case (net b tcp)
    have "wired (s\<lparr>sv_tcp := tcp\<rparr>)" using IH(1) by (simp add: wired_def)
    from publish_all_applied [OF this] have ap:
      "applied (concat (map expand (net_events b (sv_tcp s) tcp))) (s\<lparr>sv_tcp := tcp\<rparr>) s'" unfolding net(2) .
    from fold_tcp_on_event_run [OF server_run.sv_stepped [OF IH(2) net(3)]]
      loop_steps_append [OF IH(3) deliver_run] ap
    show ?thesis by (simp add: applied_def) blast
  next
    case (sim b l)
    have "wired (s\<lparr>sv_loop := l\<rparr>)" using IH(1) by (simp add: wired_def)
    from publish_all_applied [OF this] have ap:
      "applied (concat (map expand (drop (length (l_published (sv_loop s))) (l_published l)))) (s\<lparr>sv_loop := l\<rparr>) s'"
      unfolding sim(2) .
    have "loop_steps uniform fb (sv_loop s) [b] l" by (rule loop_steps.more [OF sim(3) loop_steps.finished])
    from loop_steps_append [OF loop_steps_append [OF IH(3) this] deliver_run]
      fold_tcp_on_event_run [OF IH(2)] ap
    show ?thesis by (simp add: applied_def) blast
  qed
qed

text \<open>C4.  Composition of the server: in every state the running program can reach, each event
  type still has exactly the subscribers \<open>main\<close> wired, in that order; the network part is a
  reachable state of the TCP server alone, and the simulation is a reachable state of the loop
  alone to which events are delivered.  So what holds of each part holds of the whole: there is
  at most one wait on the timer, and a live session is always registered.\<close>

theorem system_refines_parts:
  assumes "system_run store load uniform fb rng now s"
  shows "(\<forall>t. subscribers t (sv_bus s) = wiring t)
    \<and> (\<exists>tr. server_run store load tr (sv_tcp s))
    \<and> (\<exists>as. loop_steps uniform fb (Loop_init default_world rng now) as (sv_loop s))"
  using system_run_parts [OF assms] by (simp add: wired_def)

section \<open>Joining, leaving and the tick, from end to end\<close>

lemma system_session_step:
  assumes "wired s" "i < length (ts_heap (sv_tcp s))" "session_step store load (ts_heap (sv_tcp s) ! i) a x" "\<not> is_call a"
    "se_published x = se_published (ts_heap (sv_tcp s) ! i) @ evs"
  shows "\<exists>s'. system_step store load uniform fb s (Net (SvSession i a)) s'
    \<and> applied (concat (map expand evs)) (s\<lparr>sv_tcp := (sv_tcp s)\<lparr>ts_heap := (ts_heap (sv_tcp s))[i := x]\<rparr>\<rparr>) s'"
proof -
  let ?tcp = "(sv_tcp s)\<lparr>ts_heap := (ts_heap (sv_tcp s))[i := x]\<rparr>"
  have step: "server_step store load (sv_tcp s) (SvSession i a) ?tcp"
    by (rule server_step.sv_session [OF assms(2,3,4)])
  have evs: "net_events (SvSession i a) (sv_tcp s) ?tcp = evs"
    using assms(2,5) by (simp add: net_events_def)
  have "wired (s\<lparr>sv_tcp := ?tcp\<rparr>)" using assms(1) by (simp add: wired_def)
  from publish_all_applied [OF this, of evs] system_step.net [OF step, of uniform fb] show ?thesis
    unfolding evs by blast
qed

text \<open>A handler of a session runs and what it has published reaches everyone.\<close>

lemma system_session_task:
  assumes "wired s" "server_inv (sv_tcp s)" "i < length (ts_heap (sv_tcp s))" "x = ts_heap (sv_tcp s) ! i"
    "se_strand x = h # rest" "run_session_task store load h (x\<lparr>se_strand := rest\<rparr>) = y"
    "se_published y = se_published x @ evs"
  obtains s' where "system_step store load uniform fb s (Net (SvSession i (SRun h))) s'"
    "applied (concat (map expand evs)) (s\<lparr>sv_tcp := (sv_tcp s)\<lparr>ts_heap := (ts_heap (sv_tcp s))[i := y]\<rparr>\<rparr>) s'"
    "server_inv ((sv_tcp s)\<lparr>ts_heap := (ts_heap (sv_tcp s))[i := y]\<rparr>)"
proof -
  have step: "session_step store load (ts_heap (sv_tcp s) ! i) (SRun h) y"
    using session_step.s_run [OF assms(5), of store load] assms(4,6) by simp
  have "server_inv ((sv_tcp s)\<lparr>ts_heap := (ts_heap (sv_tcp s))[i := y]\<rparr>)"
    by (rule server_inv_heap [OF assms(2)])
      (use session_step_fields [OF step] assms(3) in \<open>auto simp: nth_list_update\<close>)
  with system_session_step [OF assms(1,3) step _ assms(7) [unfolded assms(4)]] that show ?thesis
    by (auto simp: is_call_def)
qed

lemma join_frame_read:
  assumes "u32_wire store load" "frame_ok p" "se_read_buffer x = []"
  shows "run_session_task store load (OnRead (Some (wire store p))) x =
    doRead (x\<lparr>se_read_buffer := [], se_published := se_published x @ [NetworkMessageEvent (se_id x) p]\<rparr>)"
  using stream_codec.dec_enc [OF frames_stream_codec [OF assms(1)] assms(2)] assms(3)
  by (simp add: run_session_task_def on_read_eq)

lemma expand_join:
  "expand (NetworkMessageEvent sid (encode_join \<lparr>jm_playerName = name\<rparr>)) =
     [PlayerJoinEvent sid name, SendPacketEvent sid (to_bytes ''ACCEPT'')]"
  using starts_with_append [of "''JOIN ''" name] by (simp add: expand_def onMessageReceived_def encode_join_def)

text \<open>C2.  Joining, from the wire to the world: when a session's read completes with the frame of
  the join message a client encodes for a name, the world gets exactly one command more, the
  join of that name for that session, and nothing else of it changes; an acceptance is queued
  for sending in that session, if it is registered, and in no other.  Nothing in this asks
  whether the session is still there: a session that was removed joins as well.\<close>

theorem join_end_to_end:
  assumes "u32_wire store load" "wired s" "server_inv (sv_tcp s)" "i < length (ts_heap (sv_tcp s))"
    "frame_ok (encode_join \<lparr>jm_playerName = name\<rparr>)"
    "x = ts_heap (sv_tcp s) ! i" "se_strand x = OnRead (Some (wire store (encode_join \<lparr>jm_playerName = name\<rparr>))) # rest"
    "se_read_buffer x = []"
  shows "\<exists>s'. system_step store load uniform fb s
      (Net (SvSession i (SRun (OnRead (Some (wire store (encode_join \<lparr>jm_playerName = name\<rparr>))))))) s'
    \<and> l_world (sv_loop s') = (l_world (sv_loop s))\<lparr>wi_action_queue := wi_action_queue (l_world (sv_loop s)) @
        [ActionEvent_default\<lparr>ac_type := AcPlayerJoin, ac_session_id := se_id x, ac_player_name := name\<rparr>]\<rparr>
    \<and> se_strand (ts_heap (sv_tcp s') ! i) =
        rest @ (if getSession (se_id x) (ts_registry (sv_tcp s)) = None then [] else [SendTask (to_bytes ''ACCEPT'')])
    \<and> (\<forall>j<length (ts_heap (sv_tcp s)). j \<noteq> i \<longrightarrow> ts_heap (sv_tcp s') ! j = ts_heap (sv_tcp s) ! j)
    \<and> ts_registry (sv_tcp s') = ts_registry (sv_tcp s)"
proof -
  let ?p = "encode_join \<lparr>jm_playerName = name\<rparr>" and ?t = "sv_tcp s"
  define y where "y = run_session_task store load (OnRead (Some (wire store ?p))) (x\<lparr>se_strand := rest\<rparr>)"
  have y: "y = doRead (x\<lparr>se_strand := rest, se_read_buffer := [],
      se_published := se_published x @ [NetworkMessageEvent (se_id x) ?p]\<rparr>)"
    using join_frame_read [OF assms(1,5), of "x\<lparr>se_strand := rest\<rparr>"] assms(8) by (simp add: y_def)
  have fields: "se_published y = se_published x @ [NetworkMessageEvent (se_id x) ?p]" "se_strand y = rest" "se_id y = se_id x"
    by (simp_all add: y doRead_def)
  let ?t1 = "?t\<lparr>ts_heap := (ts_heap ?t)[i := y]\<rparr>"
  obtain s' where s': "system_step store load uniform fb s (Net (SvSession i (SRun (OnRead (Some (wire store ?p)))))) s'"
      "applied [PlayerJoinEvent (se_id x) name, SendPacketEvent (se_id x) (to_bytes ''ACCEPT'')] (s\<lparr>sv_tcp := ?t1\<rparr>) s'"
      "server_inv ?t1"
    using system_session_task [OF assms(2-4,6,7) y_def [symmetric] fields(1)] by (auto simp: expand_join)
  have tcp: "sv_tcp s' = registry_on_event RegistrySend (SendPacketEvent (se_id x) (to_bytes ''ACCEPT'')) ?t1"
    using s'(2) by (simp add: applied_def tcp_on_event_def)
  have "l_world (sv_loop s') = (l_world (sv_loop s))\<lparr>wi_action_queue := wi_action_queue (l_world (sv_loop s)) @
        [ActionEvent_default\<lparr>ac_type := AcPlayerJoin, ac_session_id := se_id x, ac_player_name := name\<rparr>]\<rparr>"
    using s'(2) by (simp add: applied_def world_on_event_def World.onPlayerJoin_def enqueueAction_def queue_push_def)
  moreover note send_to_session [OF s'(3), where i = i and sid = "se_id x" and payload = "to_bytes ''ACCEPT''"]
  ultimately show ?thesis using s'(1) assms(4) fields(2,3)
    by (intro exI [of _ s']) (simp add: tcp session_send_def)
qed

text \<open>C12.  Leaving, from the strand to the world: the handler that closes the socket of a session
  makes the registry forget the session, closes no other, and gives the world exactly one
  command more, the quit of that session.\<close>

theorem leave_end_to_end:
  assumes "wired s" "server_inv (sv_tcp s)" "i < length (ts_heap (sv_tcp s))"
    "x = ts_heap (sv_tcp s) ! i" "se_strand x = CloseTask # rest"
  shows "\<exists>s'. system_step store load uniform fb s (Net (SvSession i (SRun CloseTask))) s'
    \<and> l_world (sv_loop s') = (l_world (sv_loop s))\<lparr>wi_action_queue := wi_action_queue (l_world (sv_loop s)) @
        [ActionEvent_default\<lparr>ac_type := AcPlayerQuit, ac_session_id := se_id x\<rparr>]\<rparr>
    \<and> \<not> se_socket_open (ts_heap (sv_tcp s') ! i)
    \<and> (\<forall>k. getSession k (ts_registry (sv_tcp s')) = (if k = se_id x then None else getSession k (ts_registry (sv_tcp s))))
    \<and> (\<forall>j<length (ts_heap (sv_tcp s)). j \<noteq> i \<longrightarrow> ts_heap (sv_tcp s') ! j = ts_heap (sv_tcp s) ! j)"
proof -
  let ?t = "sv_tcp s"
  let ?y = "on_close (x\<lparr>se_strand := rest\<rparr>)" and ?ev = "ClientDisconnectedEvent (se_id x)"
  let ?t1 = "?t\<lparr>ts_heap := (ts_heap ?t)[i := ?y]\<rparr>"
  have y: "run_session_task store load CloseTask (x\<lparr>se_strand := rest\<rparr>) = ?y" by (simp add: run_session_task_def)
  have fields: "se_published ?y = se_published x @ [?ev]" "\<not> se_socket_open ?y" "se_id ?y = se_id x"
    by (simp_all add: on_close_def close_socket_def)
  obtain s' where s': "system_step store load uniform fb s (Net (SvSession i (SRun CloseTask))) s'"
      "applied [?ev] (s\<lparr>sv_tcp := ?t1\<rparr>) s'" "server_inv ?t1"
    using system_session_task [OF assms(1-5) y fields(1)] by (auto simp: expand_def)
  obtain reg heap where rm: "removeSession (se_id x) (ts_registry ?t1, ts_heap ?t1) = (reg, heap)" by fastforce
  note r = removeSession_eq [OF s'(3) rm]
  have tcp: "sv_tcp s' = ?t1\<lparr>ts_registry := reg, ts_heap := heap\<rparr>"
    using s'(2) rm by (simp add: applied_def tcp_on_event_def registry_on_event_def)
  have self: "map_of (rg_sessions (ts_registry ?t)) (se_id x) = Some k \<Longrightarrow> k = i" for k
    using session_ids(4) [OF assms(2,3)] assms(4) by simp
  have "\<not> se_socket_open (ts_heap (sv_tcp s') ! i)"
    using r(3) [of i] assms(3) fields(2) unfolding tcp by (simp add: session_close_def)
  moreover have "ts_heap (sv_tcp s') ! j = ts_heap ?t ! j" if "j < length (ts_heap ?t)" "j \<noteq> i" for j
    using r(3) [of j] self that unfolding tcp by auto
  moreover have "getSession k (ts_registry (sv_tcp s')) = (if k = se_id x then None else getSession k (ts_registry ?t))" for k
    using r(1) unfolding tcp by (simp add: getSession_def delete_conv')
  moreover have "l_world (sv_loop s') = (l_world (sv_loop s))\<lparr>wi_action_queue := wi_action_queue (l_world (sv_loop s)) @
        [ActionEvent_default\<lparr>ac_type := AcPlayerQuit, ac_session_id := se_id x\<rparr>]\<rparr>"
    using s'(2) by (simp add: applied_def world_on_event_def World.onClientDisconnected_def enqueueAction_def queue_push_def)
  ultimately show ?thesis using s'(1) by blast
qed

text \<open>What a tick does to the network part: the deaths it reports have no subscriber, the
  snapshot goes to every session in the table.\<close>

lemma deaths_ignored:
  assumes "\<forall>ev\<in>set deaths. \<exists>sid. ev = ShipDestroyedEvent sid"
  shows "fold tcp_on_event deaths tcp = tcp" "fold world_on_event deaths w = w" "concat (map expand deaths) = deaths"
  using assms by (induction deaths arbitrary: tcp w) (auto simp: tcp_on_event_def world_on_event_def expand_def)

lemma tick_events_delivered:
  assumes "wired s" "evs = deaths @ [SendPacketEvent 0 bytes]" "\<forall>ev\<in>set deaths. \<exists>sid. ev = ShipDestroyedEvent sid"
  shows "sv_tcp (publish_all evs s) = registry_on_event RegistrySend (SendPacketEvent 0 bytes) (sv_tcp s)"
    "sv_loop (publish_all evs s) = sv_loop s"
proof -
  have ex: "concat (map expand evs) = evs"
    unfolding assms(2) by (simp add: deaths_ignored(3) [OF assms(3)], simp add: expand_def)
  have "fold tcp_on_event evs tcp = registry_on_event RegistrySend (SendPacketEvent 0 bytes) tcp"
    "fold world_on_event evs w = w" for tcp w
    using deaths_ignored(1,2) [OF assms(3)] by (simp_all add: assms(2) tcp_on_event_def world_on_event_def)
  with publish_all_applied [OF assms(1), of evs]
  show "sv_tcp (publish_all evs s) = registry_on_event RegistrySend (SendPacketEvent 0 bytes) (sv_tcp s)"
    "sv_loop (publish_all evs s) = sv_loop s"
    unfolding ex applied_def by simp_all
qed

text \<open>One expiry of the timer of a running loop.\<close>

lemma tick_loop_step:
  assumes "l_strand l = DoTick NoError # rest" "wi_state (l_world l) = Running"
    "runTickStep uniform fb (l_world l) (l_rng l) = Some (w', evs, g')"
  obtains l' where "loop_step uniform fb l (Run (DoTick NoError)) l'"
    "l_world l' = w'\<lparr>wi_current_tick := wi_current_tick w' + 1\<rparr>" "l_waits l' = 1"
    "drop (length (l_published l)) (l_published l') = evs"
proof -
  define l1 where "l1 = scheduleNextTick (l\<lparr>l_strand := rest\<rparr>)"
  have l1: "l_world l1 = l_world l" "l_rng l1 = l_rng l" "l_published l1 = l_published l" "l_waits l1 = 1"
    using assms(2) by (simp_all add: l1_def scheduleNextTick_def deadline_fields)
  let ?l2 = "l1\<lparr>l_world := w'\<lparr>wi_current_tick := wi_current_tick w' + 1\<rparr>, l_rng := g', l_published := l_published l1 @ evs\<rparr>"
  have "loop_step uniform fb l (Run (DoTick NoError)) ?l2"
    by (rule loop_step.run [OF assms(1)])
      (use assms(2,3) l1 in \<open>simp add: run_task_def doTick_def tick_body_def l1_def [symmetric]\<close>)
  then show ?thesis by (rule that) (simp_all add: l1)
qed

lemma set_tick_keeps:
  "good n w \<Longrightarrow> world_inv (w\<lparr>wi_current_tick := t\<rparr>) \<and> sessions_alive (w\<lparr>wi_current_tick := t\<rparr>)"
  "buildLeaderboard (w\<lparr>wi_current_tick := t\<rparr>) = buildLeaderboard w"
  by (simp_all add: good_def world_inv_def sessions_alive_def buildLeaderboard_def)

text \<open>C3.  A tick, from the world to the wire: in a consistent running world the timer's handler
  advances the tick number by one, arms the timer again and queues, in every session in the
  table and in no other, one and the same packet, which a client reads back as the world
  after the tick.\<close>

theorem tick_end_to_end:
  assumes "wired s" "server_inv (sv_tcp s)" "rng_ok uniform" "l_strand (sv_loop s) = DoTick NoError # rest"
    "w = l_world (sv_loop s)" "wi_state w = Running" "world_inv w" "sessions_alive w"
    "room_for (2 * length (wi_action_queue w) + 50) (wi_entities w)"
    "\<forall>w' evs g'. runTickStep uniform fb w (l_rng (sv_loop s)) = Some (w', evs, g') \<longrightarrow>
       (\<forall>e\<in>set (buildEntitySnapshots (wi_entities w')). fb_entity_ok fb e)
       \<and> length (buildEntitySnapshots (wi_entities w')) \<le> 0xFFFFFFFF"
  shows "\<exists>s' bytes. system_step store load uniform fb s (Sim (Run (DoTick NoError))) s'
    \<and> tick_of (sv_loop s') = wi_current_tick w + 1 \<and> l_waits (sv_loop s') = 1
    \<and> world_inv (l_world (sv_loop s')) \<and> sessions_alive (l_world (sv_loop s'))
    \<and> Deserialize fb bytes = Inr \<lparr>gs_snapshots = buildEntitySnapshots (wi_entities (l_world (sv_loop s'))),
        gs_leaderboard = map seen_entry (buildLeaderboard (l_world (sv_loop s'))), gs_tick_number = ucast (wi_current_tick w)\<rparr>
    \<and> (\<forall>i<length (ts_heap (sv_tcp s)). ts_heap (sv_tcp s') ! i =
        (if i \<in> snd ` set (rg_sessions (ts_registry (sv_tcp s))) then session_send bytes (ts_heap (sv_tcp s) ! i)
         else ts_heap (sv_tcp s) ! i))
    \<and> ts_registry (sv_tcp s') = ts_registry (sv_tcp s)"
proof -
  let ?l = "sv_loop s"
  have "good (2 * length (wi_action_queue w) + 50 + 0) w" using assms(7-9) by (simp add: good_def)
  from runTickStep_good [OF this assms(3), of fb "l_rng ?l"] obtain w' evs g' where
    run: "runTickStep uniform fb w (l_rng ?l) = Some (w', evs, g')" "good 0 w'"
      "same_frame (w\<lparr>wi_action_queue := []\<rparr>) w'" by blast
  from tick_publishes [OF assms(7,8,3,9) run(1)] assms(10) run(1) obtain deaths bytes where
    ev: "evs = deaths @ [SendPacketEvent 0 bytes]" "\<forall>ev\<in>set deaths. \<exists>sid. ev = ShipDestroyedEvent sid"
      "Deserialize fb bytes = Inr \<lparr>gs_snapshots = buildEntitySnapshots (wi_entities w'),
        gs_leaderboard = map seen_entry (buildLeaderboard w'), gs_tick_number = ucast (wi_current_tick w)\<rparr>" by blast
  obtain l' where l': "loop_step uniform fb ?l (Run (DoTick NoError)) l'"
    "l_world l' = w'\<lparr>wi_current_tick := wi_current_tick w' + 1\<rparr>" "l_waits l' = 1"
    "drop (length (l_published ?l)) (l_published l') = evs"
    using tick_loop_step [OF assms(4)] assms(5,6) run(1) by blast
  obtain t where t: "system_step store load uniform fb s (Sim (Run (DoTick NoError))) t"
    "t = publish_all evs (s\<lparr>sv_loop := l'\<rparr>)"
    using system_step.sim [OF l'(1), of store load] unfolding l'(4) by blast
  have "wired (s\<lparr>sv_loop := l'\<rparr>)" using assms(1) by (simp add: wired_def)
  note s' = tick_events_delivered [OF this ev(1,2), folded t(2), simplified]
  have "wi_current_tick w' = wi_current_tick w" using run(3) by (simp add: same_frame_def)
  then show ?thesis
    using onSendPacket_heap(2) [OF assms(2), of _ 0 bytes] l'(3) ev(3) t(1) set_tick_keeps(1) [OF run(2)]
    by (intro exI [of _ t] exI [of _ bytes]) (simp add: s' l'(2) registry_on_event_def set_tick_keeps(2))
qed

section \<open>Witnesses\<close>

lemma small_inv_heap:
  assumes "\<And>x. se_id (f x) = se_id x" "\<And>x. se_closed x \<Longrightarrow> se_closed (f x)"
  shows "server_inv (two_sessions\<lparr>ts_heap := [joined 1, f (joined 2)]\<rparr>)"
  by (rule server_inv_heap [OF two_sessions_inv])
    (use assms in \<open>auto simp: two_sessions_def joined_def fresh_session_def less_Suc_eq numeral_2_eq_2\<close>)

lemma wired_sample: obtains s where "wired s" "sv_tcp s = tcp" "sv_loop s = l"
proof -
  obtain s0 :: "'a GameServer" where "wired s0" by (rule server_create_ok)
  then have "wired (s0\<lparr>sv_tcp := tcp, sv_loop := l\<rparr>)" by (simp add: wired_def)
  then show ?thesis by (rule that) simp_all
qed

theorem system_refines_parts_witness:
  "\<exists>s. system_run be_bytes be_value low_rng sample_fb () 0 s
    \<and> subscribers TClientDisconnected (sv_bus s) =
        [RouterSlot OnClientDisconnected, RegistrySlot RegistryRemove, WorldSlot WorldDisconnected]"
proof -
  obtain s where s: "server_create () 0 = Inr s" by (rule server_create_ok)
  have run: "system_run be_bytes be_value low_rng sample_fb () 0 s" by (rule system_run.sys_created [OF s])
  from system_refines_parts [OF run] run show ?thesis by (auto simp: wiring_def)
qed

text \<open>The second session has read a join; it is in the table, or was removed before.\<close>

definition join_frame :: "byte list" where
  "join_frame = wire be_bytes (encode_join \<lparr>jm_playerName = ''Ann''\<rparr>)"

definition joining :: TcpServer where
  "joining = two_sessions\<lparr>ts_heap := [joined 1, (joined 2)\<lparr>se_strand := [OnRead (Some join_frame)]\<rparr>]\<rparr>"

lemma joining_inv: "server_inv joining"
  unfolding joining_def by (rule small_inv_heap [where f = "\<lambda>x. x\<lparr>se_strand := [OnRead (Some join_frame)]\<rparr>"]) simp_all

theorem join_end_to_end_witness:
  "\<exists>(s :: unit GameServer) s'. system_step be_bytes be_value low_rng sample_fb s (Net (SvSession 1 (SRun (OnRead (Some join_frame))))) s'
    \<and> sv_tcp s = joining
    \<and> map ac_player_name (wi_action_queue (l_world (sv_loop s'))) = [''Ann'']
    \<and> map se_strand (ts_heap joining) = [[StartRead], [OnRead (Some join_frame)]]
    \<and> se_strand (ts_heap (sv_tcp s') ! 1) = [SendTask (to_bytes ''ACCEPT'')]"
proof -
  obtain s :: "unit GameServer" where s: "wired s" "sv_tcp s = joining" "sv_loop s = Loop_init default_world () 0"
    by (rule wired_sample)
  let ?x = "(joined 2)\<lparr>se_strand := [OnRead (Some join_frame)]\<rparr>"
  have x: "?x = ts_heap (sv_tcp s) ! 1" "1 < length (ts_heap (sv_tcp s))" "server_inv (sv_tcp s)"
    "se_strand ?x = OnRead (Some (wire be_bytes (encode_join \<lparr>jm_playerName = ''Ann''\<rparr>))) # []" "se_read_buffer ?x = []"
    using joining_inv by (simp_all add: s(2) joining_def two_sessions_def join_frame_def joined_def fresh_session_def)
  have ok: "frame_ok (encode_join \<lparr>jm_playerName = ''Ann''\<rparr>)"
    by (simp add: frame_ok_def encode_join_def kMaxMessageSize_def)
  have reg: "getSession (se_id ?x) (ts_registry (sv_tcp s)) = Some 1"
    by (simp add: s(2) joining_def two_sessions_def joined_def fresh_session_def getSession_def)
  from join_end_to_end [OF be.u32_wire_axioms s(1) x(3,2) ok x(1,4,5), where uniform = low_rng and fb = sample_fb]
  obtain s' where s': "system_step be_bytes be_value low_rng sample_fb s (Net (SvSession 1 (SRun (OnRead (Some join_frame))))) s'"
    "l_world (sv_loop s') = default_world\<lparr>wi_action_queue := [ActionEvent_default\<lparr>ac_type := AcPlayerJoin, ac_session_id := se_id ?x,
       ac_player_name := ''Ann''\<rparr>]\<rparr>"
    "se_strand (ts_heap (sv_tcp s') ! 1) = [SendTask (to_bytes ''ACCEPT'')]"
    unfolding reg by (auto simp: s(3) Loop_init_def default_world_def join_frame_def)
  then show ?thesis
    by (intro exI [of _ s] exI [of _ s'])
      (simp add: s(2) joining_def joined_def fresh_session_def two_sessions_def default_world_def)
qed

definition leaving :: TcpServer where
  "leaving = two_sessions\<lparr>ts_heap := [joined 1, (joined 2)\<lparr>se_closed := True, se_strand := [CloseTask]\<rparr>]\<rparr>"

lemma leaving_inv: "server_inv leaving"
  unfolding leaving_def by (rule small_inv_heap [where f = "\<lambda>x. x\<lparr>se_closed := True, se_strand := [CloseTask]\<rparr>"]) simp_all

theorem leave_end_to_end_witness:
  "\<exists>(s :: unit GameServer) s'. system_step be_bytes be_value low_rng sample_fb s (Net (SvSession 1 (SRun CloseTask))) s'
    \<and> sv_tcp s = leaving
    \<and> map ac_type (wi_action_queue (l_world (sv_loop s'))) = [AcPlayerQuit]
    \<and> getSession 2 (ts_registry (sv_tcp s')) = None \<and> getSession 1 (ts_registry (sv_tcp s')) = Some 0"
proof -
  obtain s :: "unit GameServer" where s: "wired s" "sv_tcp s = leaving" "sv_loop s = Loop_init default_world () 0"
    by (rule wired_sample)
  let ?x = "(joined 2)\<lparr>se_closed := True, se_strand := [CloseTask]\<rparr>"
  have x: "?x = ts_heap (sv_tcp s) ! 1" "1 < length (ts_heap (sv_tcp s))" "server_inv (sv_tcp s)" "se_strand ?x = CloseTask # []"
    using leaving_inv by (simp_all add: s(2) leaving_def two_sessions_def)
  have id: "se_id ?x = 2" by (simp add: joined_def fresh_session_def)
  have reg: "getSession 1 (ts_registry (sv_tcp s)) = Some 0"
    by (simp add: s(2) leaving_def two_sessions_def getSession_def)
  from leave_end_to_end [OF s(1) x(3,2,1,4), of be_bytes be_value low_rng sample_fb] obtain s' where
    s': "system_step be_bytes be_value low_rng sample_fb s (Net (SvSession 1 (SRun CloseTask))) s'"
      "l_world (sv_loop s') = (l_world (sv_loop s))\<lparr>wi_action_queue := wi_action_queue (l_world (sv_loop s)) @
        [ActionEvent_default\<lparr>ac_type := AcPlayerQuit, ac_session_id := 2\<rparr>]\<rparr>"
      "getSession k (ts_registry (sv_tcp s')) = (if k = 2 then None else getSession k (ts_registry (sv_tcp s)))" for k
    unfolding id by blast
  from s'(1,2) s'(3) [of 1] s'(3) [of 2] reg show ?thesis
    by (intro exI [of _ s] exI [of _ s']) (simp add: s Loop_init_def default_world_def)
qed

definition ticking :: "unit Loop" where
  "ticking = (Loop_init empty_world () 0)\<lparr>l_strand := [DoTick NoError]\<rparr>"

theorem tick_end_to_end_witness:
  "\<exists>(s :: unit GameServer) s' bytes. system_step be_bytes be_value low_rng constant_fb s (Sim (Run (DoTick NoError))) s'
    \<and> sv_tcp s = two_sessions \<and> tick_of (sv_loop s') = 8
    \<and> ts_heap (sv_tcp s') ! 0 = session_send bytes (joined 1)
    \<and> (\<exists>g. Deserialize constant_fb bytes = Inr g)"
proof -
  obtain s :: "unit GameServer" where s: "wired s" "sv_tcp s = two_sessions" "sv_loop s = ticking"
    by (rule wired_sample)
  obtain evs where t: "runTickStep low_rng constant_fb empty_world () = Some (one_asteroid_world, evs, ())"
    using first_tick by blast
  have w: "world_inv empty_world" "sessions_alive empty_world"
    "room_for (2 * length (wi_action_queue empty_world) + 50) (wi_entities empty_world)"
    using empty_world_good by (simp_all add: good_def room_for_def empty_world_def)
  have alive: "e_isDestroyed first_asteroid = False" "e_type first_asteroid = EtAsteroid" "e_ship first_asteroid = None"
    by (simp_all add: first_asteroid_def makeAsteroid_def Entity_default_def)
  have b: "buildEntitySnapshots (wi_entities one_asteroid_world) = [toEntitySnapshot first_asteroid]"
    using alive by (simp add: one_asteroid_world_def buildEntitySnapshots_def buildEntitySnapshots_loop_eq isActive_def)
  have ok: "fb_entity_ok constant_fb (toEntitySnapshot first_asteroid)"
    by (simp add: fb_entity_ok_def fb_faithful_def constant_fb_def SerializeEntity_def)
  have snaps: "\<forall>w' evs g'. runTickStep low_rng constant_fb empty_world (l_rng (sv_loop s)) = Some (w', evs, g') \<longrightarrow>
       (\<forall>e\<in>set (buildEntitySnapshots (wi_entities w')). fb_entity_ok constant_fb e)
       \<and> length (buildEntitySnapshots (wi_entities w')) \<le> 0xFFFFFFFF"
    using t b ok by (simp add: unit_eq [of "l_rng (sv_loop s)"])
  have l: "l_strand (sv_loop s) = DoTick NoError # []" "empty_world = l_world (sv_loop s)" "wi_state empty_world = Running"
    "server_inv (sv_tcp s)"
    using two_sessions_inv by (simp_all add: s ticking_def Loop_init_def empty_world_def)
  have two: "0 < length (ts_heap (sv_tcp s))" "0 \<in> snd ` set (rg_sessions (ts_registry (sv_tcp s)))" "ts_heap (sv_tcp s) ! 0 = joined 1"
    "wi_current_tick empty_world + 1 = 8"
    by (simp_all add: s two_sessions_def empty_world_def)
  from tick_end_to_end [OF s(1) l(4) low_rng_ok l(1,2,3) w snaps, of be_bytes be_value] two s(2)
  show ?thesis by (elim exE conjE) (intro exI conjI, assumption, simp_all)
qed

end
