(* ===== verification/NetworkContext.thy ===== *)
theory NetworkContext
  imports Prelude
begin

text \<open>
  src/src/server/network_context.h: the pool of threads that runs the handlers of the server.
  The \<open>io_context\<close> is a service with a state of its own: \<open>handler u threw u'\<close> says that running
  one ready handler takes it from \<open>u\<close> to \<open>u'\<close> and whether an exception left the handler,
  \<open>outside u u'\<close> is what the network, the clock and other threads do to it, and \<open>work u\<close> says that a handler
  is ready or an operation under way.  As Boost.Asio documents, \<open>run\<close> executes handlers until the
  context is stopped or has no work left (the work guard counts as work), which stops it; it
  returns how many it executed, and an exception of a handler leaves it.  A thread is its place in
  \<open>worker_loop\<close> and its stop token.  The bodies under the mutex are atomic steps; \<open>start\<close> holds it
  while it creates the threads, but the threads do not wait for it.
\<close>

section \<open>The context\<close>

datatype State = NotStarted | Started | Stopped | Joined

datatype worker_pc = AtLoop | InRun nat | AfterRun | Exited

record worker =
  wk_pc :: worker_pc
  wk_stop :: bool

record 'u NetworkContext =
  nc_state :: State
  nc_work_guard :: bool
  nc_worker_threads :: "nat list"
  nc_thread_count :: nat
  nc_join_flag :: bool
  nc_to_join :: "nat list"
  nc_io_stopped :: bool
  nc_service :: 'u
  nc_workers :: "worker list"
  nc_starting :: bool
  nc_aborted :: bool

definition NetworkContext_ctor :: "nat \<Rightarrow> 'u \<Rightarrow> 'u NetworkContext" where
  "NetworkContext_ctor thread_count u = \<lparr>nc_state = NotStarted, nc_work_guard = True, nc_worker_threads = [],
     nc_thread_count = max 1 thread_count, nc_join_flag = False, nc_to_join = [], nc_io_stopped = False,
     nc_service = u, nc_workers = [], nc_starting = False, nc_aborted = False\<rparr>"

text \<open>\<open>request_stop\<close> for each thread of a vector.\<close>

definition request_stop :: "nat list \<Rightarrow> worker list \<Rightarrow> worker list" where
  "request_stop threads ws = fold (\<lambda>i ws. ws[i := (ws ! i)\<lparr>wk_stop := True\<rparr>]) threads ws"

text \<open>The thread a call comes from: a thread of the pool, or \<open>None\<close> for any other.\<close>

definition is_worker_thread :: "nat option \<Rightarrow> bool" where
  "is_worker_thread caller \<longleftrightarrow> caller \<noteq> None"

section \<open>Starting\<close>

definition nc_start :: "'u NetworkContext \<Rightarrow> exn + 'u NetworkContext" where
  "nc_start s =
     (case nc_state s of
        Started \<Rightarrow> Inr s
      | Stopped \<Rightarrow> Inl (LogicError ''NetworkContext: start() after stop()'')
      | Joined \<Rightarrow> Inl (LogicError ''NetworkContext: start() after stop()'')
      | NotStarted \<Rightarrow> Inr (s\<lparr>nc_state := Started, nc_starting := True\<rparr>))"

text \<open>One iteration of its loop, and what it does when a thread cannot be created.\<close>

definition nc_spawn :: "'u NetworkContext \<Rightarrow> 'u NetworkContext" where
  "nc_spawn s = s\<lparr>nc_workers := nc_workers s @ [\<lparr>wk_pc = AtLoop, wk_stop = False\<rparr>],
     nc_worker_threads := nc_worker_threads s @ [length (nc_workers s)]\<rparr>"

definition nc_rollback :: "'u NetworkContext \<Rightarrow> 'u NetworkContext" where
  "nc_rollback s = s\<lparr>nc_workers := request_stop (nc_worker_threads s) (nc_workers s), nc_io_stopped := True,
     nc_worker_threads := [], nc_state := Stopped, nc_starting := False\<rparr>"

section \<open>Stopping\<close>

definition nc_stop :: "'u NetworkContext \<Rightarrow> 'u NetworkContext" where
  "nc_stop s =
     (if nc_state s \<noteq> Started then s
      else s\<lparr>nc_state := Stopped, nc_work_guard := False,
             nc_workers := request_stop (nc_worker_threads s) (nc_workers s)\<rparr>)"

definition nc_force_stop :: "'u NetworkContext \<Rightarrow> 'u NetworkContext" where
  "nc_force_stop s =
     (if nc_state s = NotStarted \<or> nc_state s = Joined then s
      else s\<lparr>nc_state := Stopped, nc_io_stopped := True, nc_work_guard := False,
             nc_workers := request_stop (nc_worker_threads s) (nc_workers s)\<rparr>)"

text \<open>The threads in \<open>to_join\<close> are joined when it is destroyed.\<close>

definition join_workers :: "'u NetworkContext \<Rightarrow> 'u NetworkContext" where
  "join_workers s =
     (if nc_join_flag s then s
      else s\<lparr>nc_join_flag := True, nc_to_join := nc_worker_threads s, nc_worker_threads := [], nc_state := Joined\<rparr>)"

definition fatal :: "'u NetworkContext \<Rightarrow> 'u NetworkContext" where
  "fatal s = s\<lparr>nc_aborted := True\<rparr>"

definition nc_wait :: "nat option \<Rightarrow> 'u NetworkContext \<Rightarrow> 'u NetworkContext" where
  "nc_wait caller s =
     (if is_worker_thread caller then fatal s
      else if nc_state s = Started \<or> nc_state s = NotStarted then fatal s
      else join_workers s)"

definition nc_destroy :: "nat option \<Rightarrow> 'u NetworkContext \<Rightarrow> 'u NetworkContext" where
  "nc_destroy caller s = (if is_worker_thread caller then fatal s else join_workers (nc_force_stop s))"

text \<open>A call that joins returns once this holds.\<close>

definition wait_returns :: "'u NetworkContext \<Rightarrow> bool" where
  "wait_returns s \<longleftrightarrow> nc_join_flag s \<and> (\<forall>i\<in>set (nc_to_join s). wk_pc (nc_workers s ! i) = Exited)"

section \<open>The loop of a thread\<close>

definition loop_test :: "worker \<Rightarrow> worker_pc" where
  "loop_test w = (if wk_stop w then Exited else InRun 0)"

definition run_returned :: "nat \<Rightarrow> worker_pc" where
  "run_returned n = (if n = 0 then Exited else AfterRun)"

definition after_iteration :: "bool \<Rightarrow> worker \<Rightarrow> worker_pc" where
  "after_iteration io_stopped w = (if io_stopped \<or> wk_stop w then Exited else AtLoop)"

abbreviation pc_of :: "nat \<Rightarrow> 'u NetworkContext \<Rightarrow> worker_pc" where
  "pc_of i s \<equiv> wk_pc (nc_workers s ! i)"

abbreviation goto :: "nat \<Rightarrow> worker_pc \<Rightarrow> 'u NetworkContext \<Rightarrow> 'u NetworkContext" where
  "goto i pc s \<equiv> s\<lparr>nc_workers := (nc_workers s)[i := (nc_workers s ! i)\<lparr>wk_pc := pc\<rparr>]\<rparr>"

inductive worker_loop ::
  "('u \<Rightarrow> bool \<Rightarrow> 'u \<Rightarrow> bool) \<Rightarrow> ('u \<Rightarrow> bool) \<Rightarrow> nat \<Rightarrow> 'u NetworkContext \<Rightarrow> 'u NetworkContext \<Rightarrow> bool"
  for handler :: "'u \<Rightarrow> bool \<Rightarrow> 'u \<Rightarrow> bool" and work :: "'u \<Rightarrow> bool" and i :: nat where
  w_test: "pc_of i s = AtLoop \<Longrightarrow> worker_loop handler work i s (goto i (loop_test (nc_workers s ! i)) s)"
| w_handler: "pc_of i s = InRun n \<Longrightarrow> \<not> nc_io_stopped s \<Longrightarrow> handler (nc_service s) threw u \<Longrightarrow>
    worker_loop handler work i s (goto i (if threw then AfterRun else InRun (n + 1)) (s\<lparr>nc_service := u\<rparr>))"
| w_no_work: "pc_of i s = InRun n \<Longrightarrow> \<not> nc_io_stopped s \<Longrightarrow> \<not> nc_work_guard s \<Longrightarrow> \<not> work (nc_service s) \<Longrightarrow>
    worker_loop handler work i s (goto i (run_returned n) (s\<lparr>nc_io_stopped := True\<rparr>))"
| w_stopped: "pc_of i s = InRun n \<Longrightarrow> nc_io_stopped s \<Longrightarrow>
    worker_loop handler work i s (goto i (run_returned n) s)"
| w_check: "pc_of i s = AfterRun \<Longrightarrow>
    worker_loop handler work i s (goto i (after_iteration (nc_io_stopped s) (nc_workers s ! i)) s)"

section \<open>Steps\<close>

datatype nc_label =
    NStart | NSpawn | NSpawnFails | NSpawned | NStop | NForceStop | NWait "nat option" | NDestroy "nat option"
  | NWorker nat | NOutside

inductive nc_step ::
  "('u \<Rightarrow> bool \<Rightarrow> 'u \<Rightarrow> bool) \<Rightarrow> ('u \<Rightarrow> 'u \<Rightarrow> bool) \<Rightarrow> ('u \<Rightarrow> bool)
    \<Rightarrow> 'u NetworkContext \<Rightarrow> nc_label \<Rightarrow> 'u NetworkContext \<Rightarrow> bool"
  for handler :: "'u \<Rightarrow> bool \<Rightarrow> 'u \<Rightarrow> bool" and outside :: "'u \<Rightarrow> 'u \<Rightarrow> bool" and work :: "'u \<Rightarrow> bool" where
  n_start: "\<not> nc_aborted s \<Longrightarrow> \<not> nc_starting s \<Longrightarrow> nc_start s = Inr s' \<Longrightarrow> nc_step handler outside work s NStart s'"
| n_spawn: "\<not> nc_aborted s \<Longrightarrow> nc_starting s \<Longrightarrow> length (nc_worker_threads s) < nc_thread_count s \<Longrightarrow>
    nc_step handler outside work s NSpawn (nc_spawn s)"
| n_spawn_fails: "\<not> nc_aborted s \<Longrightarrow> nc_starting s \<Longrightarrow> length (nc_worker_threads s) < nc_thread_count s \<Longrightarrow>
    nc_step handler outside work s NSpawnFails (nc_rollback s)"
| n_spawned: "\<not> nc_aborted s \<Longrightarrow> nc_starting s \<Longrightarrow> length (nc_worker_threads s) = nc_thread_count s \<Longrightarrow>
    nc_step handler outside work s NSpawned (s\<lparr>nc_starting := False\<rparr>)"
| n_stop: "\<not> nc_aborted s \<Longrightarrow> \<not> nc_starting s \<Longrightarrow> nc_step handler outside work s NStop (nc_stop s)"
| n_force_stop: "\<not> nc_aborted s \<Longrightarrow> \<not> nc_starting s \<Longrightarrow> nc_step handler outside work s NForceStop (nc_force_stop s)"
| n_wait: "\<not> nc_aborted s \<Longrightarrow> \<not> nc_starting s \<Longrightarrow> nc_step handler outside work s (NWait caller) (nc_wait caller s)"
| n_destroy: "\<not> nc_aborted s \<Longrightarrow> \<not> nc_starting s \<Longrightarrow>
    nc_step handler outside work s (NDestroy caller) (nc_destroy caller s)"
| n_worker: "\<not> nc_aborted s \<Longrightarrow> i < length (nc_workers s) \<Longrightarrow> worker_loop handler work i s s' \<Longrightarrow>
    nc_step handler outside work s (NWorker i) s'"
| n_outside: "\<not> nc_aborted s \<Longrightarrow> outside (nc_service s) u \<Longrightarrow>
    nc_step handler outside work s NOutside (s\<lparr>nc_service := u\<rparr>)"

inductive nc_steps ::
  "('u \<Rightarrow> bool \<Rightarrow> 'u \<Rightarrow> bool) \<Rightarrow> ('u \<Rightarrow> 'u \<Rightarrow> bool) \<Rightarrow> ('u \<Rightarrow> bool)
    \<Rightarrow> 'u NetworkContext \<Rightarrow> nc_label list \<Rightarrow> 'u NetworkContext \<Rightarrow> bool"
  for handler :: "'u \<Rightarrow> bool \<Rightarrow> 'u \<Rightarrow> bool" and outside :: "'u \<Rightarrow> 'u \<Rightarrow> bool" and work :: "'u \<Rightarrow> bool" where
  nc_refl: "nc_steps handler outside work s [] s"
| nc_trans: "nc_step handler outside work s a s' \<Longrightarrow> nc_steps handler outside work s' as s'' \<Longrightarrow>
    nc_steps handler outside work s (a # as) s''"

inductive_cases worker_loopE: "worker_loop handler work i s s'"
inductive_cases nc_stepE: "nc_step handler outside work s a s'"
inductive_simps nc_steps_Nil: "nc_steps handler outside work s [] s'"
inductive_simps nc_steps_Cons: "nc_steps handler outside work s (a # as) s''"

section \<open>Runs\<close>

text \<open>A property that every step of a run keeps holds at its end.\<close>

lemma nc_steps_invariant:
  assumes "nc_steps handler outside work s as s'" "P s"
    "\<And>s a s'. nc_step handler outside work s a s' \<Longrightarrow> a \<in> set as \<Longrightarrow> P s \<Longrightarrow> P s'"
  shows "P s'"
  using assms
proof (induction rule: nc_steps.induct)
  case (nc_trans s a s' as s'')
  have "P s'" using nc_trans.prems(2) [OF nc_trans.hyps(1)] nc_trans.prems(1) by simp
  then show ?case using nc_trans.IH nc_trans.prems(2) by simp
qed

text \<open>The progress of the life cycle.\<close>

fun rank :: "State \<Rightarrow> nat" where
  "rank NotStarted = 0"
| "rank Started = 1"
| "rank Stopped = 2"
| "rank Joined = 3"

lemma length_request_stop [simp]: "length (request_stop threads ws) = length ws"
  unfolding request_stop_def by (induction threads arbitrary: ws) simp_all

lemma request_stop_pc: "map wk_pc (request_stop threads ws) = map wk_pc ws"
  unfolding request_stop_def
proof (induction threads arbitrary: ws)
  case (Cons i threads)
  have "map wk_pc (ws[i := (ws ! i)\<lparr>wk_stop := True\<rparr>]) = map wk_pc ws"
    by (cases "i < length ws") (simp_all add: map_update list_update_beyond list_update_same_conv)
  with Cons.IH show ?case by simp
qed simp

lemma request_stop_nth:
  "i < length ws \<Longrightarrow> wk_stop (request_stop threads ws ! i) \<longleftrightarrow> wk_stop (ws ! i) \<or> i \<in> set threads"
  unfolding request_stop_def
proof (induction threads arbitrary: ws)
  case (Cons a threads)
  have "wk_stop (ws[a := (ws ! a)\<lparr>wk_stop := True\<rparr>] ! i) \<longleftrightarrow> wk_stop (ws ! i) \<or> i = a"
    using Cons.prems by (cases "i = a") simp_all
  with Cons show ?case by auto
qed simp

lemma pc_request_stop [simp]: "i < length ws \<Longrightarrow> wk_pc (request_stop threads ws ! i) = wk_pc (ws ! i)"
  using arg_cong [OF request_stop_pc [of threads ws], where f = "\<lambda>xs. xs ! i"] by simp

section \<open>The invariant\<close>

text \<open>As long as the context is started no thread has left its loop; once it is stopped every thread
  has been asked to.\<close>

definition nc_ok :: "'u NetworkContext \<Rightarrow> bool" where
  "nc_ok s \<longleftrightarrow>
     (nc_starting s \<longrightarrow> nc_state s = Started)
     \<and> (nc_state s = NotStarted \<longrightarrow> nc_workers s = [])
     \<and> (nc_state s = NotStarted \<or> nc_state s = Started \<longrightarrow> nc_work_guard s \<and> \<not> nc_io_stopped s
          \<and> nc_worker_threads s = [0..<length (nc_workers s)])
     \<and> (nc_state s = Started \<longrightarrow> (\<not> nc_starting s \<longrightarrow> length (nc_workers s) = nc_thread_count s)
          \<and> (\<forall>w\<in>set (nc_workers s). \<not> wk_stop w \<and> wk_pc w \<noteq> Exited))
     \<and> (nc_state s = Stopped \<longrightarrow> nc_worker_threads s = [0..<length (nc_workers s)] \<or> nc_io_stopped s)
     \<and> (nc_state s = Stopped \<or> nc_state s = Joined \<longrightarrow> (\<forall>w\<in>set (nc_workers s). wk_stop w))
     \<and> (nc_state s = Joined \<longrightarrow> nc_to_join s = [0..<length (nc_workers s)] \<or> nc_io_stopped s)
     \<and> (nc_state s = Joined \<longleftrightarrow> nc_join_flag s)
     \<and> length (nc_workers s) \<le> nc_thread_count s"

lemma request_stop_all: "\<forall>w\<in>set (request_stop [0..<length ws] ws). wk_stop w"
  by (simp add: all_set_conv_all_nth request_stop_nth)

lemma request_stop_keeps: "\<forall>w\<in>set ws. wk_stop w \<Longrightarrow> \<forall>w\<in>set (request_stop threads ws). wk_stop w"
  by (simp add: all_set_conv_all_nth request_stop_nth)

lemma nc_ok_ctor: "nc_ok (NetworkContext_ctor n u)"
  by (simp add: nc_ok_def NetworkContext_ctor_def)

lemma nc_ok_start: "nc_ok s \<Longrightarrow> nc_start s = Inr s' \<Longrightarrow> nc_ok s'"
  by (cases "nc_state s") (auto simp: nc_start_def nc_ok_def)

lemma nc_ok_stop: "nc_ok s \<Longrightarrow> \<not> nc_starting s \<Longrightarrow> nc_ok (nc_stop s)"
  using request_stop_all [of "nc_workers s"] by (cases "nc_state s") (simp_all add: nc_stop_def nc_ok_def)

lemma nc_ok_force_stop: "nc_ok s \<Longrightarrow> \<not> nc_starting s \<Longrightarrow> nc_ok (nc_force_stop s)"
  using request_stop_all [of "nc_workers s"] request_stop_keeps [of "nc_workers s" "nc_worker_threads s"]
  by (cases "nc_state s") (simp_all add: nc_force_stop_def nc_ok_def)

lemma nc_ok_join:
  "nc_ok s \<Longrightarrow> \<not> nc_starting s \<Longrightarrow> nc_state s \<noteq> Started \<Longrightarrow> nc_ok (join_workers s)"
  by (cases "nc_state s") (simp_all add: join_workers_def nc_ok_def)

lemma nc_ok_other: "nc_ok (fatal s) = nc_ok s" "nc_ok (s\<lparr>nc_service := u\<rparr>) = nc_ok s"
  by (simp_all add: fatal_def nc_ok_def)

lemma nc_ok_wait: "nc_ok s \<Longrightarrow> \<not> nc_starting s \<Longrightarrow> nc_ok (nc_wait c s)"
  by (simp add: nc_wait_def nc_ok_other nc_ok_join)

lemma force_stop_state: "nc_state (nc_force_stop s) \<noteq> Started" "nc_starting (nc_force_stop s) = nc_starting s"
  by (simp_all add: nc_force_stop_def)

lemma nc_ok_destroy: "nc_ok s \<Longrightarrow> \<not> nc_starting s \<Longrightarrow> nc_ok (nc_destroy c s)"
  by (simp add: nc_destroy_def nc_ok_other nc_ok_join nc_ok_force_stop force_stop_state)

lemmas nc_ok_calls = nc_ok_start nc_ok_stop nc_ok_force_stop nc_ok_wait nc_ok_destroy

lemma nc_ok_start_loop:
  assumes "nc_ok s" "nc_starting s" "length (nc_worker_threads s) < nc_thread_count s"
  shows "nc_ok (nc_spawn s)" "nc_ok (nc_rollback s)"
  using assms request_stop_all [of "nc_workers s"] by (auto simp: nc_spawn_def nc_rollback_def nc_ok_def)

text \<open>What a step of a thread leaves alone.\<close>

lemma worker_loop_frame:
  assumes "worker_loop handler work i s s'"
  shows "nc_state s' = nc_state s" "nc_work_guard s' = nc_work_guard s" "nc_worker_threads s' = nc_worker_threads s"
    "nc_thread_count s' = nc_thread_count s" "nc_join_flag s' = nc_join_flag s" "nc_to_join s' = nc_to_join s"
    "nc_starting s' = nc_starting s" "nc_aborted s' = nc_aborted s" "length (nc_workers s') = length (nc_workers s)"
    "nc_io_stopped s \<Longrightarrow> nc_io_stopped s'" "nc_work_guard s \<Longrightarrow> nc_io_stopped s' = nc_io_stopped s"
    "\<exists>pc. nc_workers s' = (nc_workers s)[i := (nc_workers s ! i)\<lparr>wk_pc := pc\<rparr>]"
  using assms by (cases rule: worker_loop.cases; auto)+

lemma stops_kept:
  "\<forall>w\<in>set ws. wk_stop w \<Longrightarrow> i < length ws \<Longrightarrow> \<forall>w\<in>set (ws[i := (ws ! i)\<lparr>wk_pc := pc\<rparr>]). wk_stop w"
  by (auto dest!: set_update_subset_insert [THEN subsetD])

text \<open>A thread of a started context stays in its loop.\<close>

lemma worker_stays:
  assumes "worker_loop handler work i s s'" "nc_work_guard s" "\<not> nc_io_stopped s" "\<not> wk_stop (nc_workers s ! i)"
  shows "\<exists>pc. nc_workers s' = (nc_workers s)[i := (nc_workers s ! i)\<lparr>wk_pc := pc\<rparr>] \<and> pc \<noteq> Exited"
  using assms by (cases rule: worker_loop.cases) (auto simp: loop_test_def after_iteration_def)

lemma nc_ok_worker:
  assumes "nc_ok s" "worker_loop handler work i s s'" "i < length (nc_workers s)"
  shows "nc_ok s'"
proof -
  note f = worker_loop_frame [OF assms(2)]
  obtain pc where ws: "nc_workers s' = (nc_workers s)[i := (nc_workers s ! i)\<lparr>wk_pc := pc\<rparr>]" using f(12) by blast
  have started: "\<forall>w\<in>set (nc_workers s'). \<not> wk_stop w \<and> wk_pc w \<noteq> Exited" if "nc_state s = Started"
  proof -
    have all: "\<forall>w\<in>set (nc_workers s). \<not> wk_stop w \<and> wk_pc w \<noteq> Exited" "nc_work_guard s" "\<not> nc_io_stopped s"
      using assms(1) that by (simp_all add: nc_ok_def)
    with worker_stays [OF assms(2)] assms(3) show ?thesis
      by (fastforce dest!: set_update_subset_insert [THEN subsetD])
  qed
  have stopped: "(\<forall>w\<in>set (nc_workers s). wk_stop w) \<Longrightarrow> \<forall>w\<in>set (nc_workers s'). wk_stop w"
    unfolding ws using stops_kept [OF _ assms(3)] by blast
  have "nc_workers s \<noteq> []" using assms(3) by auto
  with assms(1) started stopped f(1-11) show ?thesis
    by (cases "nc_state s") (simp_all add: nc_ok_def, blast+)
qed

lemma nc_ok_spawned: "nc_ok s \<Longrightarrow> nc_starting s \<Longrightarrow> length (nc_worker_threads s) = nc_thread_count s \<Longrightarrow>
    nc_ok (s\<lparr>nc_starting := False\<rparr>)"
  by (cases "nc_state s") (simp_all add: nc_ok_def)

lemma nc_step_ok:
  assumes "nc_step handler outside work s a s'" "nc_ok s"
  shows "nc_ok s'"
  using assms(1)
proof (cases rule: nc_step.cases)
  case (n_worker i)
  from nc_ok_worker [OF assms(2) n_worker(4,3)] show ?thesis .
next
  case n_start
  with assms(2) show ?thesis by (blast intro: nc_ok_start)
qed (simp_all add: assms(2) nc_ok_calls nc_ok_start_loop nc_ok_other nc_ok_spawned)

lemma nc_run_ok: "nc_steps handler outside work (NetworkContext_ctor n u) as s \<Longrightarrow> nc_ok s"
  by (erule nc_steps_invariant) (rule nc_ok_ctor, rule nc_step_ok)

section \<open>The life cycle\<close>

lemma calls_rank:
  "rank (nc_state s) \<le> rank (nc_state (nc_stop s))" "rank (nc_state s) \<le> rank (nc_state (nc_force_stop s))"
  "rank (nc_state s) \<le> rank (nc_state (join_workers s))"
  "nc_start s = Inr s' \<Longrightarrow> rank (nc_state s) \<le> rank (nc_state s')"
  by (cases "nc_state s"; auto simp: nc_stop_def nc_force_stop_def join_workers_def nc_start_def)+

lemma calls_workers:
  "length (nc_workers (nc_stop s)) = length (nc_workers s)" "length (nc_workers (nc_force_stop s)) = length (nc_workers s)"
  "nc_workers (join_workers s) = nc_workers s" "nc_start s = Inr s' \<Longrightarrow> nc_workers s' = nc_workers s"
  by (auto simp: nc_stop_def nc_force_stop_def join_workers_def nc_start_def split: State.splits)

text \<open>A context that has been stopped creates no thread and does not start.\<close>

definition past_stop :: "'u NetworkContext \<Rightarrow> bool" where
  "past_stop s \<longleftrightarrow> 2 \<le> rank (nc_state s)"

lemma past_stop_iff: "past_stop s \<longleftrightarrow> nc_state s = Stopped \<or> nc_state s = Joined"
  by (cases "nc_state s") (simp_all add: past_stop_def)

lemma step_forward:
  assumes "nc_step handler outside work s a s'" "nc_ok s"
  shows "rank (nc_state s) \<le> rank (nc_state s') \<and> (past_stop s \<longrightarrow> length (nc_workers s') = length (nc_workers s))"
  using assms(1)
proof (cases rule: nc_step.cases)
  case n_start
  then show ?thesis by (simp add: calls_rank(4) calls_workers(4))
next
  case (n_wait c)
  then show ?thesis using calls_rank(3) [of s] by (auto simp: nc_wait_def fatal_def calls_workers(3))
next
  case (n_destroy c)
  then show ?thesis using order_trans [OF calls_rank(2) calls_rank(3)]
    by (auto simp: nc_destroy_def fatal_def calls_workers)
next
  case n_spawn
  with assms(2) show ?thesis by (simp add: nc_spawn_def past_stop_def nc_ok_def)
next
  case n_spawn_fails
  with assms(2) show ?thesis by (simp add: nc_rollback_def nc_ok_def)
next
  case (n_worker i)
  from worker_loop_frame [OF n_worker(4)] show ?thesis by simp
qed (simp_all add: calls_rank calls_workers)

lemma steps_forward:
  assumes "nc_steps handler outside work s as s'" "nc_ok s"
  shows "nc_ok s' \<and> rank (nc_state s) \<le> rank (nc_state s')
    \<and> (past_stop s \<longrightarrow> length (nc_workers s') = length (nc_workers s))"
  using assms
proof (induction rule: nc_steps.induct)
  case (nc_trans s a s' as s'')
  note f = step_forward [OF nc_trans.hyps(1) nc_trans.prems]
  note ok = nc_step_ok [OF nc_trans.hyps(1) nc_trans.prems]
  from f nc_trans.IH [OF ok] show ?case by (auto simp: past_stop_def)
qed simp

text \<open>C14.  The life cycle is one-way: whatever calls, threads and handlers interleave, the state only goes
  forward through NotStarted, Started, Stopped, Joined; there are never more threads than asked for;
  once stopped, \<open>start\<close> throws and no thread is created; and while the context is started no
  thread has left its loop, whatever exceptions its handlers threw.\<close>

theorem life_cycle_one_way:
  assumes "nc_steps handler outside work (NetworkContext_ctor n u) as s" "nc_steps handler outside work s bs s'"
  shows "rank (nc_state s) \<le> rank (nc_state s') \<and> length (nc_workers s') \<le> nc_thread_count s'
    \<and> (past_stop s \<longrightarrow> (\<exists>e. nc_start s' = Inl (LogicError e)) \<and> length (nc_workers s') = length (nc_workers s))
    \<and> (nc_state s' = Started \<longrightarrow> (\<forall>w\<in>set (nc_workers s'). wk_pc w \<noteq> Exited))"
proof -
  note f = steps_forward [OF assms(2) nc_run_ok [OF assms(1)]]
  have "past_stop s \<Longrightarrow> past_stop s'" using f by (auto simp: past_stop_def)
  then have "past_stop s \<Longrightarrow> \<exists>e. nc_start s' = Inl (LogicError e)" by (auto simp: past_stop_iff nc_start_def)
  with f show ?thesis by (simp add: nc_ok_def)
qed

text \<open>The preconditions of joining: \<open>wait\<close> ends the program exactly when it is called from a thread of the
  pool or before any stop, the destructor only in the former case; a destructor called from elsewhere, even of a
  context that was never started, joins, and unless \<open>wait\<close> came first it has stopped the service.\<close>

theorem joining_aborts_iff:
  assumes "nc_steps handler outside work (NetworkContext_ctor n u) as s" "\<not> nc_aborted s"
  shows "(nc_aborted (nc_wait c s) \<longleftrightarrow> c \<noteq> None \<or> \<not> past_stop s)
    \<and> (nc_aborted (nc_destroy c s) \<longleftrightarrow> c \<noteq> None)
    \<and> (nc_state s \<noteq> Joined \<longrightarrow> nc_state (nc_destroy None s) = Joined
        \<and> (nc_workers s = [] \<or> nc_io_stopped (nc_destroy None s)))
    \<and> (nc_state s = Joined \<longrightarrow> nc_destroy None s = s \<and> nc_wait None s = s)"
proof -
  have ok: "nc_ok s" by (rule nc_run_ok [OF assms(1)])
  have pos: "nc_state s = Stopped \<or> nc_state s = Joined \<or> nc_state s = Started \<or> nc_state s = NotStarted"
    by (cases "nc_state s") simp_all
  have "nc_aborted (nc_wait c s) \<longleftrightarrow> c \<noteq> None \<or> \<not> past_stop s"
    using assms(2) pos by (auto simp: nc_wait_def fatal_def is_worker_thread_def join_workers_def past_stop_iff)
  moreover have "nc_aborted (nc_destroy c s) \<longleftrightarrow> c \<noteq> None"
    using assms(2) by (simp add: nc_destroy_def fatal_def is_worker_thread_def join_workers_def nc_force_stop_def)
  moreover have "nc_state s \<noteq> Joined \<Longrightarrow> nc_state (nc_destroy None s) = Joined
      \<and> (nc_workers s = [] \<or> nc_io_stopped (nc_destroy None s))"
    using ok by (cases "nc_state s")
      (simp_all add: nc_destroy_def is_worker_thread_def join_workers_def nc_force_stop_def nc_ok_def)
  moreover have "nc_state s = Joined \<Longrightarrow> nc_destroy None s = s \<and> nc_wait None s = s"
    using ok by (simp add: nc_destroy_def nc_wait_def is_worker_thread_def join_workers_def nc_force_stop_def nc_ok_def)
  ultimately show ?thesis by blast
qed

section \<open>The end of the threads\<close>

text \<open>How many steps a thread has left once the service is stopped.\<close>

fun left_of :: "worker_pc \<Rightarrow> nat" where
  "left_of AtLoop = 1"
| "left_of (InRun n) = 2"
| "left_of AfterRun = 1"
| "left_of Exited = 0"

definition steps_left :: "worker list \<Rightarrow> nat" where
  "steps_left ws = (\<Sum>w\<leftarrow>ws. left_of (wk_pc w))"

lemma steps_left_update:
  assumes "i < length ws" "left_of pc < left_of (wk_pc (ws ! i))"
  shows "steps_left (ws[i := (ws ! i)\<lparr>wk_pc := pc\<rparr>]) < steps_left ws"
proof -
  have "steps_left (ws[i := x]) + left_of (wk_pc (ws ! i)) = steps_left ws + left_of (wk_pc x)" for x
    using assms(1) unfolding steps_left_def
    by (induction ws arbitrary: i) (auto split: nat.split)
  from this [of "(ws ! i)\<lparr>wk_pc := pc\<rparr>"] assms(2) show ?thesis by simp
qed

lemma steps_left_bound: "steps_left ws \<le> 2 * length ws"
  unfolding steps_left_def
proof (induction ws)
  case (Cons w ws)
  have "left_of (wk_pc w) \<le> 2" by (cases "wk_pc w") simp_all
  with Cons show ?case by simp
qed simp

text \<open>Every thread has been asked to stop and none can run a handler any more.\<close>

definition winding_down :: "'u NetworkContext \<Rightarrow> bool" where
  "winding_down s \<longleftrightarrow> (\<forall>w\<in>set (nc_workers s). wk_stop w)
     \<and> (nc_io_stopped s \<or> (\<forall>w\<in>set (nc_workers s). wk_pc w = AtLoop \<or> wk_pc w = Exited))"

lemma winding_down_step:
  assumes "worker_loop handler work i s s'" "i < length (nc_workers s)" "winding_down s"
  shows "winding_down s' \<and> nc_service s' = nc_service s \<and> steps_left (nc_workers s') < steps_left (nc_workers s)"
proof -
  have w: "nc_workers s ! i \<in> set (nc_workers s)" using assms(2) by simp
  then have stop: "wk_stop (nc_workers s ! i)" using assms(3) by (simp add: winding_down_def)
  have "\<exists>pc. s' = goto i pc s \<and> left_of pc < left_of (pc_of i s) \<and> (\<not> nc_io_stopped s \<longrightarrow> pc = Exited)"
    using assms(1,3) w stop
    by (cases rule: worker_loop.cases)
      (auto simp: winding_down_def loop_test_def run_returned_def after_iteration_def split: if_splits)
  then obtain pc where pc: "s' = goto i pc s" "left_of pc < left_of (pc_of i s)" "\<not> nc_io_stopped s \<longrightarrow> pc = Exited" by blast
  have "winding_down s'"
    using assms(3) pc(3) stop unfolding winding_down_def pc(1)
    by (auto dest!: set_update_subset_insert [THEN subsetD])
  with steps_left_update [OF assms(2) pc(2)] show ?thesis by (simp add: pc(1))
qed

lemma winding_down_run:
  assumes "nc_steps handler outside work s bs s'" "set bs \<subseteq> range NWorker" "winding_down s"
  shows "winding_down s' \<and> nc_service s' = nc_service s \<and> length bs + steps_left (nc_workers s') \<le> steps_left (nc_workers s)
    \<and> nc_aborted s' = nc_aborted s"
  using assms
proof (induction rule: nc_steps.induct)
  case (nc_trans s a s' as s'')
  obtain i where a: "a = NWorker i" using nc_trans.prems(1) by auto
  have i: "i < length (nc_workers s)" "worker_loop handler work i s s'"
    using nc_trans.hyps(1) unfolding a by (auto elim: nc_stepE)
  from winding_down_step [OF i(2,1) nc_trans.prems(2)] nc_trans worker_loop_frame(8) [OF i(2)] show ?case by auto
qed simp

lemma winding_down_progress:
  assumes "winding_down s" "i < length (nc_workers s)" "pc_of i s \<noteq> Exited" "\<not> nc_aborted s"
  shows "\<exists>s'. nc_step handler outside work s (NWorker i) s'"
proof -
  have w: "nc_workers s ! i \<in> set (nc_workers s)" using assms(2) by simp
  have "\<exists>s'. worker_loop handler work i s s'"
  proof (cases "pc_of i s")
    case (InRun n)
    with assms(1) w have "nc_io_stopped s" by (auto simp: winding_down_def)
    with InRun worker_loop.w_stopped show ?thesis by blast
  qed (use assms(3) worker_loop.w_test worker_loop.w_check in blast)+
  with nc_step.n_worker [OF assms(4,2)] show ?thesis by blast
qed

text \<open>C15.  A forced stop ends: when \<open>force_stop\<close> or the destructor is called on a context that was started, or
  \<open>start\<close> fails to create a thread, then from that moment the threads execute no further handler, wherever in
  their loop each of them is, and take at most two steps each; and as long as one has not left its loop
  it can take one.  So joining them returns.\<close>

theorem forced_stop_ends:
  assumes "nc_steps handler outside work (NetworkContext_ctor n u) as s" "nc_state s = Started \<or> nc_state s = Stopped"
    "nc_step handler outside work s a s1" "a \<in> {NForceStop, NSpawnFails} \<union> range NDestroy" "\<not> nc_aborted s1"
    "nc_steps handler outside work s1 bs s'" "set bs \<subseteq> range NWorker"
  shows "nc_service s' = nc_service s \<and> length bs \<le> 2 * nc_thread_count s
    \<and> (\<forall>i<length (nc_workers s'). pc_of i s' = Exited \<or> (\<exists>s''. nc_step handler outside work s' (NWorker i) s''))"
proof -
  have ok: "nc_ok s1" by (rule nc_step_ok [OF assms(3) nc_run_ok [OF assms(1)]])
  have s1: "nc_io_stopped s1" "nc_service s1 = nc_service s" "nc_thread_count s1 = nc_thread_count s"
    "nc_state s1 = Stopped \<or> nc_state s1 = Joined"
    using assms(2-5) by (auto elim!: nc_stepE simp: nc_force_stop_def nc_rollback_def nc_destroy_def join_workers_def fatal_def
        split: if_splits)
  with ok have "winding_down s1" by (auto simp: winding_down_def nc_ok_def)
  note r = winding_down_run [OF assms(6,7) this]
  have "length (nc_workers s1) \<le> nc_thread_count s1" using ok by (simp add: nc_ok_def)
  with r steps_left_bound [of "nc_workers s1"] s1(3) have "length bs \<le> 2 * nc_thread_count s" by simp
  with r s1(2) winding_down_progress assms(5) show ?thesis by metis
qed

section \<open>Graceful stops\<close>

text \<open>A stop that comes before the threads have entered the service.\<close>

text \<open>A stop right after the start loses the queue: if no thread has begun its loop when \<open>stop\<close> is called, each
  leaves at its first test, and none of the handlers posted is ever run, although \<open>stop\<close> promises that the
  context finishes its queue.\<close>

theorem early_stop_runs_nothing:
  assumes "nc_steps handler outside work (NetworkContext_ctor n u) as s" "nc_state s = Started" "\<not> nc_aborted s"
    "\<forall>w\<in>set (nc_workers s). wk_pc w = AtLoop" "nc_steps handler outside work (nc_stop s) bs s'" "set bs \<subseteq> range NWorker"
  shows "nc_service s' = nc_service s \<and> length bs \<le> length (nc_workers s)
    \<and> (\<forall>i<length (nc_workers s'). pc_of i s' = Exited \<or> (\<exists>s''. nc_step handler outside work s' (NWorker i) s''))"
proof -
  let ?t = "nc_stop s"
  have t: "nc_workers ?t = request_stop [0..<length (nc_workers s)] (nc_workers s)" "nc_service ?t = nc_service s"
    "nc_aborted ?t = nc_aborted s"
    using nc_run_ok [OF assms(1)] assms(2) by (simp_all add: nc_stop_def nc_ok_def)
  have pcs: "map wk_pc (nc_workers ?t) = map wk_pc (nc_workers s)" by (simp add: t request_stop_pc)
  then have loop: "\<forall>w\<in>set (nc_workers ?t). wk_pc w = AtLoop"
    using assms(4) by (metis (mono_tags, lifting) image_iff list.set_map)
  then have "winding_down ?t" using request_stop_all [of "nc_workers s"] by (simp add: winding_down_def t(1))
  note r = winding_down_run [OF assms(5,6) this]
  have "map (\<lambda>w. left_of (wk_pc w)) (nc_workers ?t) = map (\<lambda>w. 1) (nc_workers ?t)" using loop by simp
  then have "steps_left (nc_workers ?t) = (\<Sum>w\<leftarrow>nc_workers ?t. 1)" unfolding steps_left_def by (rule arg_cong)
  then have "steps_left (nc_workers ?t) = length (nc_workers s)" by (simp add: t(1) sum_list_triv)
  with r winding_down_progress assms(3) t show ?thesis by fastforce
qed

text \<open>A thread inside the service stays there until the service runs out of work, if no handler throws.\<close>

lemma runner_kept:
  assumes "worker_loop handler work j s s'" "pc_of i s = InRun n" "\<not> nc_io_stopped s" "i < length (nc_workers s)"
    "\<And>u. \<not> handler (nc_service s) True u"
  shows "(\<exists>m. pc_of i s' = InRun m) \<and> \<not> nc_io_stopped s'
      \<and> (nc_service s' = nc_service s \<or> handler (nc_service s) False (nc_service s'))
    \<or> nc_io_stopped s' \<and> \<not> work (nc_service s) \<and> nc_service s' = nc_service s"
  using assms(1)
proof (cases rule: worker_loop.cases)
  case (w_handler m threw u)
  with assms(5) have "\<not> threw" by (cases threw) auto
  with w_handler assms(2-4) show ?thesis by (cases "i = j") auto
qed (use assms(2-4) in \<open>(cases "i = j"; auto)+\<close>)

text \<open>C16.  A graceful stop finishes the work: if a thread is inside the service when \<open>stop\<close> is called and no
  handler throws, then when all threads have left nothing is left to do.\<close>

theorem graceful_stop_drains:
  assumes "nc_steps handler outside work (NetworkContext_ctor k u) as s"
    "nc_state s = Started" "i < length (nc_workers s)" "pc_of i s = InRun n"
    "\<And>u v. \<not> handler u True v" "\<And>u v. outside u v \<Longrightarrow> \<not> work u \<Longrightarrow> \<not> work v"
    "nc_steps handler outside work (nc_stop s) bs s'" "set bs \<subseteq> insert NOutside (range NWorker)"
    "\<forall>w\<in>set (nc_workers s'). wk_pc w = Exited"
  shows "\<not> work (nc_service s')"
proof -
  have "\<not> nc_io_stopped s" using nc_run_ok [OF assms(1)] assms(2) by (simp add: nc_ok_def)
  let ?P = "\<lambda>s. i < length (nc_workers s) \<and>
    ((\<exists>m. pc_of i s = InRun m) \<and> \<not> nc_io_stopped s \<or> nc_io_stopped s \<and> \<not> work (nc_service s))"
  have "?P s'"
  proof (rule nc_steps_invariant [OF assms(7), where P = ?P])
    show "?P (nc_stop s)" using \<open>\<not> nc_io_stopped s\<close> assms(2-4) by (simp add: nc_stop_def)
    fix t a t' assume step: "nc_step handler outside work t a t'" "a \<in> set bs" "?P t"
    from step(1) show "?P t'"
    proof (cases rule: nc_step.cases)
      case (n_worker j)
      show ?thesis
      proof (cases "nc_io_stopped t")
        case True
        with n_worker(4) step(3) show ?thesis by (cases rule: worker_loop.cases) auto
      next
        case False
        with step(3) obtain m where "pc_of i t = InRun m" "i < length (nc_workers t)" by blast
        from runner_kept [OF n_worker(4) this(1) False this(2) assms(5)] this(2) worker_loop_frame(9) [OF n_worker(4)]
        show ?thesis by auto
      qed
    qed (use step(2,3) assms(6,8) in auto)
  qed
  moreover have "i < length (nc_workers s') \<Longrightarrow> pc_of i s' = Exited" using assms(9) by simp
  ultimately show ?thesis by auto
qed

text \<open>A thread held inside the service by work that never ends; joining does not return.\<close>

definition pinned :: "('u \<Rightarrow> bool) \<Rightarrow> nat \<Rightarrow> 'u NetworkContext \<Rightarrow> bool" where
  "pinned P i s \<longleftrightarrow> nc_ok s \<and> \<not> nc_starting s \<and> i < length (nc_workers s) \<and> (\<exists>m. pc_of i s = InRun m)
     \<and> \<not> nc_io_stopped s \<and> P (nc_service s)"

lemma pinned_calls:
  assumes "pinned P i s"
  shows "pinned P i (nc_stop s)" "pinned P i (nc_wait None s)" "\<not> wait_returns s"
proof -
  have ok: "nc_ok (nc_stop s)" "nc_ok (nc_wait None s)"
    using assms nc_ok_calls(2,4) by (auto simp: pinned_def)
  show "pinned P i (nc_stop s)" using ok(1) assms by (simp add: pinned_def nc_stop_def)
  show "pinned P i (nc_wait None s)"
    using ok(2) assms by (simp add: pinned_def nc_wait_def is_worker_thread_def fatal_def join_workers_def)
  have "nc_state s = Joined \<longrightarrow> nc_to_join s = [0..<length (nc_workers s)] \<or> nc_io_stopped s"
    "nc_state s = Joined \<longleftrightarrow> nc_join_flag s" "\<not> nc_io_stopped s" "i < length (nc_workers s)" "pc_of i s \<noteq> Exited"
    using assms unfolding pinned_def nc_ok_def by (elim conjE exE, simp)+
  then show "\<not> wait_returns s" by (auto simp: wait_returns_def)
qed

lemma pinned_step:
  assumes "nc_step handler outside work s a s'" "a \<in> {NOutside, NSpawn, NSpawned} \<union> range NWorker" "pinned P i s"
    "\<And>u. P u \<Longrightarrow> work u" "\<And>u threw v. P u \<Longrightarrow> handler u threw v \<Longrightarrow> \<not> threw \<and> P v"
    "\<And>u v. P u \<Longrightarrow> outside u v \<Longrightarrow> P v"
  shows "pinned P i s'"
proof -
  obtain m where m: "pc_of i s = InRun m" using assms(3) by (auto simp: pinned_def)
  have ok: "nc_ok s'" using nc_step_ok [OF assms(1)] assms(3) by (simp add: pinned_def)
  from assms(1) show ?thesis
  proof (cases rule: nc_step.cases)
    case (n_worker j)
    note f = worker_loop_frame [OF n_worker(4)]
    have "\<not> handler (nc_service s) True v" for v using assms(3,5) by (auto simp: pinned_def)
    from runner_kept [OF n_worker(4) m _ _ this] assms(3-5) ok f(7,9) show ?thesis by (auto simp: pinned_def)
  next
    case (n_outside u)
    with ok assms(3,6) show ?thesis by (auto simp: pinned_def)
  qed (use assms(2,3) in \<open>auto simp: pinned_def\<close>)
qed

section \<open>Witnesses\<close>

text \<open>A service with a number of handlers that return, and a pool of one thread.\<close>

definition counting :: "nat \<Rightarrow> bool \<Rightarrow> nat \<Rightarrow> bool" where
  "counting u threw v \<longleftrightarrow> 0 < u \<and> \<not> threw \<and> v = u - 1"

definition quiet :: "nat \<Rightarrow> nat \<Rightarrow> bool" where
  "quiet u v \<longleftrightarrow> False"

definition busy :: "nat \<Rightarrow> bool" where
  "busy u \<longleftrightarrow> 0 < u"

definition pool :: "State \<Rightarrow> worker_pc \<Rightarrow> bool \<Rightarrow> 'u \<Rightarrow> 'u NetworkContext" where
  "pool st pc io_stopped u = \<lparr>nc_state = st, nc_work_guard = (st = Started), nc_worker_threads = [0], nc_thread_count = 1,
     nc_join_flag = False, nc_to_join = [], nc_io_stopped = io_stopped, nc_service = u,
     nc_workers = [\<lparr>wk_pc = pc, wk_stop = (st \<noteq> Started)\<rparr>], nc_starting = False, nc_aborted = False\<rparr>"

lemma pool_calls:
  "nc_stop (pool Started pc b u) = pool Stopped pc b u" "nc_force_stop (pool Started pc b u) = pool Stopped pc True u"
  "nc_aborted (pool st pc b u) = False" "nc_starting (pool st pc b u) = False" "nc_workers (pool st pc b u) =
    [\<lparr>wk_pc = pc, wk_stop = (st \<noteq> Started)\<rparr>]" "nc_state (pool st pc b u) = st" "nc_service (pool st pc b u) = u"
  "nc_io_stopped (pool st pc b u) = b"
  by (simp_all add: pool_def nc_stop_def nc_force_stop_def request_stop_def)

lemma pool_step:
  "worker_loop handler work 0 (pool st pc b u) (pool st pc' b' u') \<Longrightarrow>
    nc_step handler outside work (pool st pc b u) (NWorker 0) (pool st pc' b' u')"
  by (rule nc_step.n_worker) (simp_all add: pool_calls)

lemma pool_test: "worker_loop handler work 0 (pool st AtLoop b u) (pool st (if st = Started then InRun 0 else Exited) b u)"
  using worker_loop.w_test [where i = 0 and s = "pool st AtLoop b u" and handler = handler and work = work]
  by (cases "st = Started") (simp_all add: pool_def loop_test_def)

lemma pool_handler:
  "handler u False v \<Longrightarrow> worker_loop handler work 0 (pool st (InRun n) False u) (pool st (InRun (Suc n)) False v)"
  using worker_loop.w_handler [where i = 0 and s = "pool st (InRun n) False u" and handler = handler and work = work
      and n = n and threw = False and u = v]
  by (simp add: pool_def)

lemma pool_no_work: "worker_loop counting busy 0 (pool Stopped (InRun n) False 0) (pool Stopped (run_returned n) True 0)"
  using worker_loop.w_no_work [where i = 0 and s = "pool Stopped (InRun n) False 0" and handler = counting and work = busy and n = n] by (simp add: pool_def busy_def)

lemma pool_stopped: "worker_loop counting busy 0 (pool st (InRun n) True u) (pool st (run_returned n) True u)"
  using worker_loop.w_stopped [where i = 0 and s = "pool st (InRun n) True u" and handler = counting and work = busy and n = n] by (simp add: pool_def)

lemma pool_check: "worker_loop counting busy 0 (pool st AfterRun True u) (pool st Exited True u)"
  using worker_loop.w_check [where i = 0 and s = "pool st AfterRun True u" and handler = counting and work = busy] by (simp add: pool_def after_iteration_def)

text \<open>The context while it creates its thread.\<close>

definition starting_pool :: "'u \<Rightarrow> 'u NetworkContext" where
  "starting_pool u = (NetworkContext_ctor 1 u)\<lparr>nc_state := Started, nc_starting := True\<rparr>"

lemma pool_start:
  "nc_start (NetworkContext_ctor 1 u) = Inr (starting_pool u)"
  "nc_step handler outside work (starting_pool u) NSpawn (nc_spawn (starting_pool u))"
  "nc_step handler outside work (nc_spawn (starting_pool u)) NSpawned (pool Started AtLoop False u)"
proof -
  show "nc_start (NetworkContext_ctor 1 u) = Inr (starting_pool u)"
    by (simp add: nc_start_def starting_pool_def NetworkContext_ctor_def)
  show "nc_step handler outside work (starting_pool u) NSpawn (nc_spawn (starting_pool u))"
    by (rule nc_step.n_spawn) (simp_all add: NetworkContext_ctor_def starting_pool_def)
  have "nc_step handler outside work (nc_spawn (starting_pool u)) NSpawned (nc_spawn (starting_pool u)\<lparr>nc_starting := False\<rparr>)"
    by (rule nc_step.n_spawned) (simp_all add: NetworkContext_ctor_def nc_spawn_def starting_pool_def)
  then show "nc_step handler outside work (nc_spawn (starting_pool u)) NSpawned (pool Started AtLoop False u)"
    by (simp add: NetworkContext_ctor_def nc_spawn_def pool_def starting_pool_def)
qed

lemma pool_run: "nc_steps handler outside work (NetworkContext_ctor 1 u) [NStart, NSpawn, NSpawned] (pool Started AtLoop False u)"
proof -
  have "nc_step handler outside work (NetworkContext_ctor 1 u) NStart (starting_pool u)"
    by (rule nc_step.n_start [OF _ _ pool_start(1)]) (simp_all add: NetworkContext_ctor_def)
  with pool_start(2,3) [of handler outside work u] show ?thesis by (simp add: nc_steps_Cons nc_steps_Nil) blast
qed

lemma nc_steps_append:
  "nc_steps handler outside work s as t \<Longrightarrow> nc_steps handler outside work t bs v \<Longrightarrow> nc_steps handler outside work s (as @ bs) v"
  by (induction rule: nc_steps.induct) (auto intro: nc_steps.nc_trans)

lemma pool_more: "nc_step counting quiet busy (pool st pc b u) a t \<Longrightarrow>
    nc_steps counting quiet busy (NetworkContext_ctor 1 v) as (pool st pc b u) \<Longrightarrow>
    nc_steps counting quiet busy (NetworkContext_ctor 1 v) (as @ [a]) t"
  by (rule nc_steps_append) (auto simp: nc_steps_Cons nc_steps_Nil)

lemma entered_run: "\<exists>as. nc_steps counting quiet busy (NetworkContext_ctor 1 u) as (pool Started (InRun 0) False u)"
  using pool_more [OF pool_step [OF pool_test [where st = Started]] pool_run] by auto

lemma stopped_run: "\<exists>as. nc_steps counting quiet busy (NetworkContext_ctor 1 u) as (pool Stopped AtLoop False u)"
  using pool_more [OF nc_step.n_stop pool_run] by (auto simp: pool_calls)

theorem life_cycle_one_way_witness: "\<exists>e. nc_start (pool Stopped AtLoop False (1::nat)) = Inl (LogicError e)"
proof -
  obtain as where "nc_steps counting quiet busy (NetworkContext_ctor 1 (1::nat)) as (pool Stopped AtLoop False 1)"
    using stopped_run by blast
  from life_cycle_one_way [OF this nc_steps.nc_refl] show ?thesis by (simp add: past_stop_def pool_calls)
qed

theorem joining_aborts_iff_witness:
  "nc_aborted (nc_wait None (pool Started AtLoop False (1::nat))) \<and> \<not> nc_aborted (nc_destroy None (pool Started AtLoop False (1::nat)))"
proof -
  have "\<not> nc_aborted (pool Started AtLoop False (1::nat))" by (simp add: pool_calls)
  from joining_aborts_iff [OF pool_run this, of None] show ?thesis by (simp add: past_stop_def pool_calls)
qed

text \<open>A thread inside the service, with a handler ready, is stopped before it runs it.\<close>

theorem forced_stop_ends_witness:
  "\<exists>s. nc_steps counting quiet busy (nc_force_stop (pool Started (InRun 0) False (1::nat))) [NWorker 0] s
    \<and> nc_service s = 1 \<and> pc_of 0 s = Exited"
proof -
  obtain as where run: "nc_steps counting quiet busy (NetworkContext_ctor 1 (1::nat)) as (pool Started (InRun 0) False 1)"
    using entered_run by blast
  have stop: "nc_step counting quiet busy (pool Started (InRun 0) False 1) NForceStop (pool Stopped (InRun 0) True (1::nat))"
    using nc_step.n_force_stop [of "pool Started (InRun 0) False (1::nat)" counting quiet busy] by (simp add: pool_calls)
  have "worker_loop counting busy 0 (pool Stopped (InRun 0) True (1::nat)) (pool Stopped Exited True 1)"
    using worker_loop.w_stopped [where i = 0 and s = "pool Stopped (InRun 0) True (1::nat)" and n = 0 and handler = counting and work = busy]
    by (simp add: pool_def run_returned_def)
  then have step: "nc_steps counting quiet busy (pool Stopped (InRun 0) True (1::nat)) [NWorker 0] (pool Stopped Exited True 1)"
    using pool_step by (auto simp: nc_steps_Cons nc_steps_Nil)
  from forced_stop_ends [OF run _ stop _ _ step] have "nc_service (pool Stopped Exited True (1::nat)) = 1"
    by (simp add: pool_calls)
  with step show ?thesis by (intro exI [of _ "pool Stopped Exited True 1"]) (simp add: pool_calls)
qed

theorem early_stop_runs_nothing_witness: "nc_service (pool Stopped Exited False (1::nat)) = 1"
proof -
  have "nc_steps counting quiet busy (nc_stop (pool Started AtLoop False 1)) [NWorker 0] (pool Stopped Exited False 1)"
    using pool_step [OF pool_test [where st = Stopped]] by (auto simp: nc_steps_Cons nc_steps_Nil pool_calls)
  from early_stop_runs_nothing [OF pool_run _ _ _ this] show ?thesis by (simp add: pool_calls)
qed

theorem graceful_stop_drains_witness: "\<not> busy (nc_service (pool Stopped Exited True 0))"
proof -
  obtain as where run: "nc_steps counting quiet busy (NetworkContext_ctor 1 (1::nat)) as (pool Started (InRun 0) False 1)"
    using entered_run by blast
  have "nc_steps counting quiet busy (nc_stop (pool Started (InRun 0) False 1)) [NWorker 0, NWorker 0, NWorker 0]
      (pool Stopped Exited True 0)"
    using pool_step [OF pool_handler [of counting 1 0 busy Stopped 0]] pool_step [OF pool_no_work [of 1]] pool_step [OF pool_check [of Stopped 0]]
    by (simp add: nc_steps_Cons nc_steps_Nil pool_calls run_returned_def counting_def) blast
  from graceful_stop_drains [OF run _ _ _ _ _ this, of 0 0] show ?thesis
    by (simp add: pool_calls counting_def quiet_def)
qed

end
