(* ===== verification/ServerMain.thy ===== *)
theory ServerMain
  imports GameServer NetworkContext
begin

text \<open>
  src/src/server/main.cpp: the program of the server.  Its objects are those of GameServer, run by
  the threads of a network context; its main thread executes the statements of \<open>main\<close> one after the other while
  the threads, the network and the clock go on.  The wait for the console is over whenever the next
  statement is executed.
\<close>

section \<open>The handlers the context runs\<close>

definition is_handler :: "system_label \<Rightarrow> bool" where
  "is_handler a = (case a of
      Net (SvAccept _) \<Rightarrow> True
    | Net (SvSession _ (SRun _)) \<Rightarrow> True
    | Sim (Run _) \<Rightarrow> True
    | _ \<Rightarrow> False)"

text \<open>The calls only \<open>main\<close> makes.\<close>

definition is_main_label :: "system_label \<Rightarrow> bool" where
  "is_main_label a \<longleftrightarrow> a \<in> {Net SvStart, Net SvStop, Sim CallStart, Sim CallStop}"

text \<open>The pieces of \<open>stop\<close> and of the handlers.  \<open>main\<close> calls \<open>stop\<close> when the threads of the context have left it, so it
  comes between no two pieces of a handler, and the program runs them undivided.\<close>

definition is_piece :: "system_label \<Rightarrow> bool" where
  "is_piece a \<longleftrightarrow> a \<in> {Sim StopStore, Sim StopCancel, Sim StopPost} \<union> range (\<lambda>t. Sim (Piece t))"

text \<open>No handler lets an exception out.\<close>

definition server_handler ::
  "(u32 \<Rightarrow> byte list) \<Rightarrow> (byte list \<Rightarrow> u32) \<Rightarrow> 'g uniform \<Rightarrow> flatbuffers
    \<Rightarrow> 'g GameServer \<Rightarrow> bool \<Rightarrow> 'g GameServer \<Rightarrow> bool" where
  "server_handler store load uniform fb s threw s' \<longleftrightarrow>
     \<not> threw \<and> (\<exists>a. is_handler a \<and> system_step store load uniform fb s a s')"

text \<open>The network and the clock; a wait on a \<open>steady_timer\<close> ends by expiring or being cancelled, as
  Boost.Asio documents.\<close>

definition server_outside ::
  "(u32 \<Rightarrow> byte list) \<Rightarrow> (byte list \<Rightarrow> u32) \<Rightarrow> 'g uniform \<Rightarrow> flatbuffers
    \<Rightarrow> 'g GameServer \<Rightarrow> 'g GameServer \<Rightarrow> bool" where
  "server_outside store load uniform fb s s' \<longleftrightarrow>
     (\<exists>a. \<not> is_handler a \<and> \<not> is_main_label a \<and> \<not> is_piece a \<and> a \<noteq> Sim Fail \<and> system_step store load uniform fb s a s')"

definition session_work :: "Session \<Rightarrow> bool" where
  "session_work x \<longleftrightarrow> se_strand x \<noteq> [] \<or> se_reading x \<or> se_writing x \<noteq> None"

definition server_work :: "'g GameServer \<Rightarrow> bool" where
  "server_work s \<longleftrightarrow> l_strand (sv_loop s) \<noteq> [] \<or> 0 < l_waits (sv_loop s) \<or> 0 < ts_accepting (sv_tcp s)
     \<or> list_ex session_work (ts_heap (sv_tcp s))"

section \<open>The statements of main\<close>

datatype main_call = NcStart | ServerStart | WorldStart | ServerStop | NcStop | NcWait | NcWaitReturns | WorldStop

definition main_body :: "main_call list" where
  "main_body = [NcStart, ServerStart, WorldStart, ServerStop, NcStop, NcWait, NcWaitReturns, WorldStop]"

record 'g Program =
  pg_context :: "'g GameServer NetworkContext"
  pg_rest :: "main_call list"

definition on_service :: "('u \<Rightarrow> 'u) \<Rightarrow> 'u NetworkContext \<Rightarrow> 'u NetworkContext" where
  "on_service f c = c\<lparr>nc_service := f (nc_service c)\<rparr>"

text \<open>A statement; \<open>None\<close> if it cannot be executed yet.\<close>

definition exec_call :: "main_call \<Rightarrow> 'g GameServer NetworkContext \<Rightarrow> 'g GameServer NetworkContext option" where
  "exec_call c nc =
     (if nc_aborted nc \<or> nc_starting nc then None
      else case c of
        NcStart \<Rightarrow> (case nc_start nc of Inl e \<Rightarrow> None | Inr nc \<Rightarrow> Some nc)
      | ServerStart \<Rightarrow> Some (on_service (\<lambda>s. s\<lparr>sv_tcp := server_start (sv_tcp s)\<rparr>) nc)
      | WorldStart \<Rightarrow> Some (on_service (\<lambda>s. s\<lparr>sv_loop := world_start (sv_loop s)\<rparr>) nc)
      | ServerStop \<Rightarrow> Some (on_service (\<lambda>s. s\<lparr>sv_tcp := server_stop (sv_tcp s)\<rparr>) nc)
      | NcStop \<Rightarrow> Some (nc_stop nc)
      | NcWait \<Rightarrow> Some (nc_wait None nc)
      | NcWaitReturns \<Rightarrow> (if wait_returns nc then Some nc else None)
      | WorldStop \<Rightarrow> Some (on_service (\<lambda>s. s\<lparr>sv_loop := world_stop (sv_loop s)\<rparr>) nc))"

text \<open>A step of the program: of its main thread, or of anything else.  If a thread cannot be created, \<open>start\<close>
  throws and \<open>main\<close> returns.\<close>

inductive program_step ::
  "(u32 \<Rightarrow> byte list) \<Rightarrow> (byte list \<Rightarrow> u32) \<Rightarrow> 'g uniform \<Rightarrow> flatbuffers \<Rightarrow> 'g Program \<Rightarrow> 'g Program \<Rightarrow> bool"
  for store :: "u32 \<Rightarrow> byte list" and load :: "byte list \<Rightarrow> u32" and uniform :: "'g uniform" and fb :: flatbuffers where
  p_main: "pg_rest p = c # rest \<Longrightarrow> exec_call c (pg_context p) = Some nc \<Longrightarrow>
    program_step store load uniform fb p (p\<lparr>pg_context := nc, pg_rest := rest\<rparr>)"
| p_other: "nc_step (server_handler store load uniform fb) (server_outside store load uniform fb) server_work
      (pg_context p) a nc \<Longrightarrow> a \<in> {NSpawn, NSpawned, NOutside} \<union> range NWorker \<Longrightarrow>
    program_step store load uniform fb p (p\<lparr>pg_context := nc\<rparr>)"
| p_start_fails: "nc_step (server_handler store load uniform fb) (server_outside store load uniform fb) server_work
      (pg_context p) NSpawnFails nc \<Longrightarrow>
    program_step store load uniform fb p (p\<lparr>pg_context := nc, pg_rest := []\<rparr>)"

inductive program_run ::
  "(u32 \<Rightarrow> byte list) \<Rightarrow> (byte list \<Rightarrow> u32) \<Rightarrow> 'g uniform \<Rightarrow> flatbuffers \<Rightarrow> 'g \<Rightarrow> int \<Rightarrow> nat \<Rightarrow> 'g Program \<Rightarrow> bool"
  for store :: "u32 \<Rightarrow> byte list" and load :: "byte list \<Rightarrow> u32" and uniform :: "'g uniform" and fb :: flatbuffers
    and rng :: 'g and now :: int and threads :: nat where
  p_created: "server_create rng now = Inr s \<Longrightarrow>
    program_run store load uniform fb rng now threads \<lparr>pg_context = NetworkContext_ctor threads s, pg_rest = main_body\<rparr>"
| p_stepped: "program_run store load uniform fb rng now threads p \<Longrightarrow> program_step store load uniform fb p p' \<Longrightarrow>
    program_run store load uniform fb rng now threads p'"

section \<open>The composition\<close>

text \<open>Every run of the program is a run of the context and a run of the server.\<close>

lemma service_step:
  assumes "nc_step (server_handler store load uniform fb) (server_outside store load uniform fb) server_work nc a nc'"
    "a \<in> {NSpawn, NSpawned, NSpawnFails, NOutside} \<union> range NWorker"
  shows "nc_service nc' = nc_service nc \<or> (\<exists>b. system_step store load uniform fb (nc_service nc) b (nc_service nc'))"
  using assms(1)
proof (cases rule: nc_step.cases)
  case (n_worker i)
  from n_worker(4) show ?thesis by (cases rule: worker_loop.cases) (auto simp: server_handler_def)
next
  case (n_outside u)
  then show ?thesis by (auto simp: server_outside_def)
qed (use assms(2) in \<open>auto simp: nc_spawn_def nc_rollback_def\<close>)

lemma main_service:
  assumes "exec_call c nc = Some nc'"
  shows "nc_service nc' = nc_service nc \<or> (\<exists>b. system_step store load uniform fb (nc_service nc) b (nc_service nc'))"
proof -
  let ?s = "nc_service nc"
  have "\<exists>b. system_step store load uniform fb ?s b (?s\<lparr>sv_tcp := server_start (sv_tcp ?s)\<rparr>)"
    using system_step.net [where s = ?s and store = store and load = load and uniform = uniform and fb = fb, OF server_step.sv_start] by (auto simp: net_events_def publish_all_def)
  moreover have "\<exists>b. system_step store load uniform fb ?s b (?s\<lparr>sv_tcp := server_stop (sv_tcp ?s)\<rparr>)"
    using system_step.net [where s = ?s and store = store and load = load and uniform = uniform and fb = fb, OF server_step.sv_stop] by (auto simp: net_events_def publish_all_def)
  moreover have "\<exists>b. system_step store load uniform fb ?s b (?s\<lparr>sv_loop := world_start (sv_loop ?s)\<rparr>)"
    using system_step.sim [where s = ?s and store = store and load = load and uniform = uniform and fb = fb, OF loop_step.call_start] by (auto simp: publish_all_def world_start_def)
  moreover have "\<exists>b. system_step store load uniform fb ?s b (?s\<lparr>sv_loop := world_stop (sv_loop ?s)\<rparr>)"
    using system_step.sim [where s = ?s and store = store and load = load and uniform = uniform and fb = fb, OF loop_step.call_stop]
    by (auto simp: publish_all_def world_stop_eq timer_cancel_def)
  ultimately show ?thesis using assms
    by (auto simp: exec_call_def on_service_def nc_start_def nc_stop_def nc_wait_def fatal_def join_workers_def
        split: if_splits main_call.splits sum.splits State.splits)
qed

lemma program_run_service:
  "program_run store load uniform fb rng now threads p \<Longrightarrow> system_run store load uniform fb rng now (nc_service (pg_context p))"
proof (induction rule: program_run.induct)
  case (p_created s)
  then show ?case by (simp add: NetworkContext_ctor_def system_run.sys_created)
next
  case (p_stepped p p')
  have "nc_service (pg_context p') = nc_service (pg_context p)
    \<or> (\<exists>b. system_step store load uniform fb (nc_service (pg_context p)) b (nc_service (pg_context p')))"
    using p_stepped.hyps(2)
  proof (cases rule: program_step.cases)
    case (p_main c rest nc)
    with main_service [OF p_main(3)] show ?thesis by simp
  next
    case (p_other a nc)
    with service_step [OF p_other(2)] show ?thesis by auto
  next
    case (p_start_fails nc)
    with service_step [OF p_start_fails(2)] show ?thesis by auto
  qed
  with p_stepped.IH system_run.sys_stepped show ?case by metis
qed

lemma main_context_ok:
  assumes "exec_call c nc = Some nc'" "nc_ok nc"
  shows "nc_ok nc'"
  using assms nc_ok_calls(1,2,4)
  by (auto simp: exec_call_def on_service_def nc_ok_other split: if_splits main_call.splits sum.splits)

lemma program_run_ok: "program_run store load uniform fb rng now threads p \<Longrightarrow> nc_ok (pg_context p)"
proof (induction rule: program_run.induct)
  case (p_stepped p p')
  from p_stepped.hyps(2) show ?case
  proof (cases rule: program_step.cases)
    case (p_main c rest nc)
    with main_context_ok [OF p_main(3) p_stepped.IH] show ?thesis by simp
  next
    case (p_other a nc)
    with nc_step_ok [OF p_other(2) p_stepped.IH] show ?thesis by simp
  next
    case (p_start_fails nc)
    with nc_step_ok [OF p_start_fails(2) p_stepped.IH] show ?thesis by simp
  qed
qed (simp add: nc_ok_ctor)

text \<open>The program runs the server: whatever its threads and its main thread do, the objects
  of \<open>main\<close> are in a reachable state of the server, wired as \<open>main\<close> does it, and while the context is started
  no thread has left it.  So what is shown of the registry, the sessions and the loop holds of the program.\<close>

theorem program_refines_server:
  assumes "program_run store load uniform fb rng now threads p"
  shows "system_run store load uniform fb rng now (nc_service (pg_context p)) \<and> wired (nc_service (pg_context p))
    \<and> (nc_state (pg_context p) = Started \<longrightarrow> (\<forall>w\<in>set (nc_workers (pg_context p)). wk_pc w \<noteq> Exited))"
proof -
  note run = program_run_service [OF assms]
  have "nc_state (pg_context p) = Started \<Longrightarrow> \<forall>w\<in>set (nc_workers (pg_context p)). wk_pc w \<noteq> Exited"
    using program_run_ok [OF assms] by (simp add: nc_ok_def)
  with run system_run_parts [OF run] show ?thesis by simp
qed

section \<open>The phases of main\<close>

definition phase_ok :: "'g Program \<Rightarrow> bool" where
  "phase_ok p \<longleftrightarrow> (let rest = pg_rest p; st = nc_state (pg_context p); starting = nc_starting (pg_context p) in
     rest = main_body \<and> st = NotStarted \<and> \<not> starting
     \<or> rest = drop 1 main_body \<and> st = Started
     \<or> rest \<in> {drop 2 main_body, drop 3 main_body, drop 4 main_body} \<and> st = Started \<and> \<not> starting
     \<or> rest = drop 5 main_body \<and> st = NetworkContext.Stopped \<and> \<not> starting
     \<or> rest \<in> {drop 6 main_body, drop 7 main_body} \<and> st = Joined \<and> \<not> starting
     \<or> rest = [])"

lemma other_frame:
  assumes "nc_step handler outside work s a s'" "a \<in> {NSpawn, NSpawned, NOutside} \<union> range NWorker"
  shows "nc_state s' = nc_state s \<and> (nc_starting s' \<longrightarrow> nc_starting s)"
  using assms(1)
proof (cases rule: nc_step.cases)
  case (n_worker i)
  from worker_loop_frame [OF n_worker(4)] show ?thesis by simp
qed (use assms(2) in \<open>auto simp: nc_spawn_def\<close>)

lemma phase_cases:
  assumes "phase_ok p" "pg_rest p = c # rest"
  shows "rest = drop 1 main_body \<and> c = NcStart \<and> nc_state (pg_context p) = NotStarted
    \<or> rest = drop 2 main_body \<and> c = ServerStart \<and> nc_state (pg_context p) = Started
    \<or> rest = drop 3 main_body \<and> c = WorldStart \<and> nc_state (pg_context p) = Started
    \<or> rest = drop 4 main_body \<and> c = ServerStop \<and> nc_state (pg_context p) = Started
    \<or> rest = drop 5 main_body \<and> c = NcStop \<and> nc_state (pg_context p) = Started
    \<or> rest = drop 6 main_body \<and> c = NcWait \<and> nc_state (pg_context p) = NetworkContext.Stopped
    \<or> rest = drop 7 main_body \<and> c = NcWaitReturns \<and> nc_state (pg_context p) = Joined
    \<or> rest = [] \<and> c = WorldStop \<and> nc_state (pg_context p) = Joined"
  using assms unfolding phase_ok_def Let_def main_body_def by simp (elim disjE conjE; simp)

lemma main_phase:
  assumes "phase_ok p" "pg_rest p = c # rest" "exec_call c (pg_context p) = Some nc" "nc_ok (pg_context p)"
  shows "phase_ok (p\<lparr>pg_context := nc, pg_rest := rest\<rparr>)"
proof -
  have "\<not> nc_starting (pg_context p)" using assms(3) by (auto simp: exec_call_def split: if_splits)
  moreover have "nc_join_flag (pg_context p) \<longleftrightarrow> nc_state (pg_context p) = Joined" using assms(4) by (simp add: nc_ok_def)
  moreover note phase_cases [OF assms(1,2)] assms(3)
  ultimately show ?thesis
    unfolding phase_ok_def Let_def
    by (elim disjE conjE)
      (simp_all add: exec_call_def on_service_def nc_start_def nc_stop_def nc_wait_def is_worker_thread_def
        join_workers_def split: if_splits, (erule subst, simp)+)
qed

lemma program_run_phase: "program_run store load uniform fb rng now threads p \<Longrightarrow> phase_ok p"
proof (induction rule: program_run.induct)
  case (p_created s)
  then show ?case by (simp add: phase_ok_def NetworkContext_ctor_def)
next
  case (p_stepped p p')
  from p_stepped.hyps(2) show ?case
  proof (cases rule: program_step.cases)
    case (p_main c rest nc)
    with main_phase [OF p_stepped.IH p_main(2,3) program_run_ok [OF p_stepped.hyps(1)]] show ?thesis by simp
  next
    case (p_other a nc)
    from other_frame [OF p_other(2,3)] p_stepped.IH show ?thesis
      unfolding p_other(1) phase_ok_def Let_def by auto
  qed (simp add: phase_ok_def)
qed

section \<open>The simulation does not end by itself\<close>

text \<open>Running, wired, with a tick armed or on its way and nothing that ends the loop.\<close>

definition loop_ticking :: "'g Loop \<Rightarrow> bool" where
  "loop_ticking l \<longleftrightarrow> state_of l = Running \<and> DoStop \<notin> set (l_strand l) \<and> DoTick OtherError \<notin> set (l_strand l)
     \<and> (0 < l_waits l \<or> DoTick NoError \<in> set (l_strand l))"

definition simulating :: "'g GameServer \<Rightarrow> bool" where
  "simulating s \<longleftrightarrow> wired s \<and> loop_ticking (sv_loop s)"

lemma loop_ticking_world: "wi_state w = wi_state (l_world l) \<Longrightarrow> loop_ticking (l\<lparr>l_world := w\<rparr>) = loop_ticking l"
  by (simp add: loop_ticking_def)

lemma fold_event_state: "wi_state (fold world_on_event evs w) = wi_state w"
  by (induction evs arbitrary: w) (simp_all add: world_on_event_fields)

lemma tick_keeps_ticking:
  assumes "loop_ticking l" "doTick uniform fb NoError (l\<lparr>l_strand := rest\<rparr>) = Some l'" "l_strand l = DoTick NoError # rest"
  shows "loop_ticking l'"
proof -
  let ?l = "scheduleNextTick (l\<lparr>l_strand := rest\<rparr>)"
  have run: "state_of l = Running" using assms(1) by (simp add: loop_ticking_def)
  have sched: "l_waits ?l = 1" "l_world ?l = l_world l" "set (l_strand ?l) \<subseteq> set rest \<union> {DoTick OperationAborted}"
    using run by (auto simp: scheduleNextTick_def deadline_fields)
  from assms(2) run obtain w evs g where t: "runTickStep uniform fb (l_world ?l) (l_rng ?l) = Some (w, evs, g)"
    "l' = ?l\<lparr>l_world := w\<lparr>wi_current_tick := wi_current_tick w + 1\<rparr>, l_rng := g, l_published := l_published ?l @ evs\<rparr>"
    by (auto simp: doTick_def tick_body_def split: option.splits)
  have "wi_state w = Running" using tick_state [OF t(1)] sched(2) run by simp
  then show ?thesis using assms(1,3) sched by (auto simp: loop_ticking_def t(2))
qed

lemma loop_step_ticking:
  assumes "loop_step uniform fb l a l'" "\<not> is_main_label (Sim a)" "\<not> is_piece (Sim a)" "a \<noteq> Fail" "loop_ticking l"
  shows "loop_ticking l'"
  using assms(1)
proof (cases rule: loop_step.cases)
  case (deliver ev)
  with assms(5) show ?thesis by (simp add: loop_ticking_world world_on_event_fields)
next
  case (run t rest)
  show ?thesis
  proof (cases "t = DoTick NoError")
    case True
    with tick_keeps_ticking [OF assms(5)] run show ?thesis by (simp add: run_task_def)
  next
    case False
    with run assms(5) show ?thesis
      by (cases t) (auto simp: loop_ticking_def run_task_def doStart_def doTick_def timer_defs split: wait_error.splits)
  qed
qed (use assms(2-5) in \<open>auto simp: loop_ticking_def is_main_label_def is_piece_def\<close>)

lemma system_step_ticking:
  assumes "system_step store load uniform fb s a s'" "\<not> is_main_label a" "\<not> is_piece a" "a \<noteq> Sim Fail" "simulating s"
  shows "simulating s'"
  using assms(1)
proof (cases rule: system_step.cases)
  case (net b tcp)
  have "wired (s\<lparr>sv_tcp := tcp\<rparr>)" using assms(5) by (simp add: simulating_def wired_def)
  from publish_all_applied [OF this, of "net_events b (sv_tcp s) tcp"] assms(5)
  show ?thesis unfolding net(2) simulating_def applied_def by (simp add: loop_ticking_world fold_event_state)
next
  case (sim b l)
  have "wired (s\<lparr>sv_loop := l\<rparr>)" using assms(5) by (simp add: simulating_def wired_def)
  moreover have "loop_ticking l"
    using loop_step_ticking [OF sim(3)] assms(2-5) sim(1) by (simp add: simulating_def)
  ultimately show ?thesis
    using publish_all_applied [of "s\<lparr>sv_loop := l\<rparr>" "drop (length (l_published (sv_loop s))) (l_published l)"]
    unfolding sim(2) simulating_def applied_def by (simp add: loop_ticking_world fold_event_state)
qed

lemma simulating_work: "simulating s \<Longrightarrow> server_work s"
  by (auto simp: simulating_def loop_ticking_def server_work_def)

lemma pinned_other:
  assumes "nc_step (server_handler store load uniform fb) (server_outside store load uniform fb) server_work nc a nc'"
    "a \<in> {NSpawn, NSpawned, NOutside} \<union> range NWorker" "pinned simulating i nc"
  shows "pinned simulating i nc'"
proof (rule pinned_step [OF assms(1) _ assms(3)])
  show "a \<in> {NOutside, NSpawn, NSpawned} \<union> range NWorker" using assms(2) by blast
  show "simulating u \<Longrightarrow> server_work u" for u by (rule simulating_work)
  show "simulating u \<Longrightarrow> server_handler store load uniform fb u threw v \<Longrightarrow> \<not> threw \<and> simulating v" for u threw v
    using system_step_ticking by (fastforce simp: server_handler_def is_handler_def is_main_label_def is_piece_def)
  show "simulating u \<Longrightarrow> server_outside store load uniform fb u v \<Longrightarrow> simulating v" for u v
    using system_step_ticking by (auto simp: server_outside_def)
qed

text \<open>C17.  The shutdown of the program hangs: \<open>main\<close> stops the context and waits for its threads before it stops the
  world, but a running world re-arms its timer at every tick, so the context never runs out of work.  If
  the console is read while the simulation ticks and a thread is at work, then whatever happens next \<open>wait\<close>
  does not return, \<open>world->stop\<close> is never called and the program does not end.\<close>

theorem main_shutdown_hangs:
  assumes "program_run store load uniform fb rng now threads p" "pg_rest p = drop 4 main_body"
    "i < length (nc_workers (pg_context p))" "pc_of i (pg_context p) = InRun n" "simulating (nc_service (pg_context p))"
    "(program_step store load uniform fb)\<^sup>*\<^sup>* p p'"
  shows "WorldStop \<in> set (pg_rest p') \<and> simulating (nc_service (pg_context p')) \<and> \<not> wait_returns (pg_context p')"
proof -
  have ok: "nc_ok (pg_context p)" "phase_ok p"
    using program_run_ok [OF assms(1)] program_run_phase [OF assms(1)] by blast+
  then have "nc_state (pg_context p) = Started" "\<not> nc_starting (pg_context p)"
    using assms(2) by (simp_all add: phase_ok_def main_body_def)
  with ok assms(3-5) have "pinned simulating i (pg_context p)" by (simp add: pinned_def nc_ok_def)
  with assms(2) have init: "pinned simulating i (pg_context p) \<and> pg_rest p \<in> {drop 4 main_body, drop 5 main_body, drop 6 main_body}"
    by simp
  from assms(6) have "pinned simulating i (pg_context p') \<and> pg_rest p' \<in> {drop 4 main_body, drop 5 main_body, drop 6 main_body}"
  proof (induction rule: rtranclp_induct)
    case (step q q')
    from step(2) show ?case
    proof (cases rule: program_step.cases)
      case (p_main c rest nc)
      with step.IH pinned_calls [of simulating i "pg_context q"] show ?thesis
        by (auto simp: main_body_def exec_call_def split: if_splits)
    next
      case (p_other a nc)
      with pinned_other [OF p_other(2,3)] step.IH show ?thesis by simp
    next
      case (p_start_fails nc)
      then have "nc_starting (pg_context q)" by (auto elim: nc_stepE)
      with step.IH show ?thesis by (simp add: pinned_def)
    qed
  qed (rule init)
  with pinned_calls(3) show ?thesis by (auto simp: main_body_def pinned_def)
qed

section \<open>Witnesses\<close>

text \<open>The program with one thread, at a statement of \<open>main\<close>.\<close>

definition program_at :: "nat \<Rightarrow> 'g GameServer NetworkContext \<Rightarrow> 'g Program" where
  "program_at k nc = \<lparr>pg_context = nc, pg_rest = drop k main_body\<rparr>"

lemma program_main:
  assumes "k < length main_body" "exec_call (main_body ! k) nc = Some nc'"
  shows "program_step store load uniform fb (program_at k nc) (program_at (Suc k) nc')"
  using program_step.p_main [where p = "program_at k nc" and c = "main_body ! k" and rest = "drop (Suc k) main_body"
      and nc = nc' and store = store and load = load and uniform = uniform and fb = fb] assms
  by (simp add: program_at_def Cons_nth_drop_Suc)

lemma program_other:
  assumes "nc_step (server_handler store load uniform fb) (server_outside store load uniform fb) server_work nc a nc'"
    "a \<in> {NSpawn, NSpawned, NOutside} \<union> range NWorker"
  shows "program_step store load uniform fb (program_at k nc) (program_at k nc')"
  using program_step.p_other [where p = "program_at k nc" and a = a and nc = nc'
      and store = store and load = load and uniform = uniform and fb = fb] assms
  by (simp add: program_at_def)

lemma pool_service:
  "exec_call ServerStart (pool Started pc False s) = Some (pool Started pc False (s\<lparr>sv_tcp := server_start (sv_tcp s)\<rparr>))"
  "exec_call WorldStart (pool Started pc False s) = Some (pool Started pc False (s\<lparr>sv_loop := world_start (sv_loop s)\<rparr>))"
  "exec_call ServerStop (pool Started pc False s) = Some (pool Started pc False (s\<lparr>sv_tcp := server_stop (sv_tcp s)\<rparr>))"
  "exec_call NcStop (pool Started pc False s) = Some (pool NetworkContext.Stopped pc False s)"
  "exec_call NcWait (pool NetworkContext.Stopped pc False s) = Some (nc_wait None (pool NetworkContext.Stopped pc False s))"
  by (simp_all add: exec_call_def pool_calls) (simp_all add: pool_def on_service_def)

text \<open>A server whose world has started.\<close>

lemma first_handler:
  assumes "wired s" "sv_loop s = world_start (Loop_init default_world rng now)"
  shows "\<exists>s'. server_handler store load uniform fb s False s' \<and> simulating s'"
proof -
  let ?l = "doStart ((sv_loop s)\<lparr>l_strand := []\<rparr>)"
  have l: "loop_step uniform fb (sv_loop s) (Run DoStart) ?l" "l_published ?l = l_published (sv_loop s)" "loop_ticking ?l"
    using loop_step.run [of "sv_loop s" DoStart "[]" uniform fb ?l]
    by (simp_all add: assms(2) world_start_def Loop_init_def run_task_def loop_ticking_def doStart_def default_world_def
        expires_after_def expires_at_def timer_cancel_def async_wait_def)
  from system_step.sim [OF l(1), of store load] l(2)
  have "system_step store load uniform fb s (Sim (Run DoStart)) (s\<lparr>sv_loop := ?l\<rparr>)" by (simp add: publish_all_def)
  moreover have "is_handler (Sim (Run DoStart))" by (simp add: is_handler_def)
  moreover have "simulating (s\<lparr>sv_loop := ?l\<rparr>)" using assms(1) l(3) by (simp add: simulating_def wired_def)
  ultimately show ?thesis unfolding server_handler_def by blast
qed

lemma simulating_program:
  "\<exists>s. simulating s \<and> program_run store load uniform fb rng now 1 (program_at 4 (pool Started (InRun 1) False s))"
proof -
  obtain s where s: "server_create rng now = Inr s" "wired s" "sv_loop s = Loop_init default_world rng now"
    by (rule server_create_ok)
  let ?s1 = "s\<lparr>sv_tcp := server_start (sv_tcp s)\<rparr>"
  let ?s2 = "?s1\<lparr>sv_loop := world_start (sv_loop s)\<rparr>"
  have "wired ?s2" "sv_loop ?s2 = world_start (Loop_init default_world rng now)" using s(2,3) by (simp_all add: wired_def)
  from first_handler [OF this] obtain s3 where s3: "server_handler store load uniform fb ?s2 False s3" "simulating s3" by blast
  let ?s4 = "s3\<lparr>sv_tcp := server_stop (sv_tcp s3)\<rparr>"
  note calls = main_body_def pool_service
  note main = program_main [where store = store and load = load and uniform = uniform and fb = fb]
  note other = program_other [where store = store and load = load and uniform = uniform and fb = fb]
  note run = program_run.p_stepped
  have r0: "program_run store load uniform fb rng now 1 (program_at 0 (NetworkContext_ctor 1 s))"
    using program_run.p_created [OF s(1)] by (simp add: program_at_def)
  have "exec_call NcStart (NetworkContext_ctor 1 s) = Some (starting_pool s)"
    using pool_start(1) [of s] by (simp add: exec_call_def NetworkContext_ctor_def)
  then have "program_run store load uniform fb rng now 1 (program_at 1 (starting_pool s))"
    using run [OF r0 main [of 0]] by (simp add: main_body_def)
  from run [OF run [OF this other [OF pool_start(2)]] other [OF pool_start(3)]]
  have "program_run store load uniform fb rng now 1 (program_at 1 (pool Started AtLoop False s))" by simp
  from run [OF this main [of 1]] have "program_run store load uniform fb rng now 1 (program_at 2 (pool Started AtLoop False ?s1))"
    by (simp add: calls numeral_2_eq_2)
  from run [OF this main [of 2]] have "program_run store load uniform fb rng now 1 (program_at 3 (pool Started AtLoop False ?s2))"
    by (simp add: calls numeral_3_eq_3)
  from run [OF this other [OF pool_step [OF pool_test]]]
  have "program_run store load uniform fb rng now 1 (program_at 3 (pool Started (InRun 0) False ?s2))" by simp
  from run [OF this other [OF pool_step [OF pool_handler [of "server_handler store load uniform fb", OF s3(1)]]]]
  have "program_run store load uniform fb rng now 1 (program_at 3 (pool Started (InRun 1) False s3))" by simp
  from run [OF this main [of 3]] have "program_run store load uniform fb rng now 1 (program_at 4 (pool Started (InRun 1) False ?s4))"
    by (simp add: calls)
  moreover have "simulating ?s4" using s3(2) by (simp add: simulating_def wired_def)
  ultimately show ?thesis by blast
qed

theorem program_refines_server_witness:
  "\<exists>s :: unit GameServer. system_run be_bytes be_value low_rng constant_fb () 0 s \<and> simulating s"
proof -
  obtain s where s: "simulating s"
    "program_run be_bytes be_value low_rng constant_fb () 0 1 (program_at 4 (pool Started (InRun 1) False s))"
    using simulating_program [of be_bytes be_value low_rng constant_fb "()" 0] by blast
  from program_refines_server [OF s(2)] s(1) show ?thesis by (auto simp: program_at_def pool_calls)
qed

theorem main_shutdown_hangs_witness:
  "\<exists>p :: unit Program. WorldStop \<in> set (pg_rest p) \<and> pg_rest p = drop 6 main_body \<and> \<not> wait_returns (pg_context p)"
proof -
  obtain s where s: "simulating s"
    "program_run be_bytes be_value low_rng constant_fb () 0 1 (program_at 4 (pool Started (InRun 1) False s))"
    using simulating_program [of be_bytes be_value low_rng constant_fb "()" 0] by blast
  let ?p = "program_at 4 (pool Started (InRun 1) False s)"
  let ?q = "program_at 6 (nc_wait None (pool NetworkContext.Stopped (InRun 1) False s))"
  have "(program_step be_bytes be_value low_rng constant_fb)\<^sup>*\<^sup>* ?p ?q"
    using program_main [of 4 "pool Started (InRun 1) False s"] program_main [of 5 "pool NetworkContext.Stopped (InRun 1) False s"]
    by (simp add: main_body_def pool_service) (meson converse_rtranclp_into_rtranclp rtranclp.rtrancl_refl)
  from main_shutdown_hangs [OF s(2) _ _ _ _ this, of 0 1] s(1)
  have "WorldStop \<in> set (pg_rest ?q) \<and> \<not> wait_returns (pg_context ?q)" by (simp add: program_at_def pool_calls)
  then show ?thesis by (intro exI [of _ ?q]) (simp add: program_at_def)
qed

end
