(* ===== verification/TcpClient.thy ===== *)
theory TcpClient
  imports FrameCodec
begin

text \<open>
  src/src/client/tcp_client.h and tcp_client.cpp: the connection of a client.  The strand is the
  FIFO of handlers posted to it; the operations under way (resolving, connecting, reading,
  writing) are lists of what their handlers captured.  A completed operation posts its handler;
  cancelling or closing completes the operations of the resolver or the socket with an error.
  A frame is shared by pointer and compared by pointer, so it carries a number.  A connect
  callback is named by a number; what the client reports to its callbacks is recorded in order.
  The message callback may return, call \<open>disconnect\<close> or throw: that is a parameter.
  Handlers are atomic steps; what the network and other threads do is a step relation.
\<close>

section \<open>The client\<close>

type_synonym frame_ref = "nat \<times> byte list"

datatype client_task =
    ConnectTask nat
  | Resolved u64 bool
  | Opened u64 bool
  | SendTask frame_ref
  | DisconnectTask
  | ReadDone u64 "byte list option"
  | WriteDone u64 frame_ref bool

datatype client_event = OnConnect nat bool | OnMessage "byte list" | OnDisconnect

datatype cb_effect = CbReturns | CbDisconnects | CbThrows

record TcpClient =
  tc_strand :: "client_task list"
  tc_resolver :: bool
  tc_is_connected :: bool
  tc_disconnect_requested :: bool
  tc_disconnect_generation :: u64
  tc_is_connecting :: bool
  tc_active_connect_generation :: u64
  tc_pending_connect_callback :: "nat option"
  tc_read_buffer :: "byte list"
  tc_write_queue :: "frame_ref list"
  tc_is_writing :: bool
  tc_message_cb :: bool
  tc_disconnect_cb :: bool
  tc_resolving :: "u64 list"
  tc_opening :: "u64 list"
  tc_reading :: "u64 list"
  tc_writing :: "(u64 \<times> frame_ref) list"
  tc_next_frame :: nat
  tc_events :: "client_event list"

definition READ_BLOCK_SIZE :: nat where "READ_BLOCK_SIZE = 4096"

definition TcpClient_ctor :: TcpClient where
  "TcpClient_ctor = \<lparr>tc_strand = [], tc_resolver = False, tc_is_connected = False, tc_disconnect_requested = False,
     tc_disconnect_generation = 0, tc_is_connecting = False, tc_active_connect_generation = 0,
     tc_pending_connect_callback = None, tc_read_buffer = [], tc_write_queue = [], tc_is_writing = False,
     tc_message_cb = False, tc_disconnect_cb = False, tc_resolving = [], tc_opening = [], tc_reading = [],
     tc_writing = [], tc_next_frame = 0, tc_events = []\<rparr>"

definition setMessageCallback :: "TcpClient \<Rightarrow> TcpClient" where
  "setMessageCallback t = t\<lparr>tc_message_cb := True\<rparr>"

definition setDisconnectCallback :: "TcpClient \<Rightarrow> TcpClient" where
  "setDisconnectCallback t = t\<lparr>tc_disconnect_cb := True\<rparr>"

definition isConnected :: "TcpClient \<Rightarrow> bool" where
  "isConnected t = tc_is_connected t"

abbreviation tc_post :: "client_task \<Rightarrow> TcpClient \<Rightarrow> TcpClient" where
  "tc_post h t \<equiv> t\<lparr>tc_strand := tc_strand t @ [h]\<rparr>"

section \<open>Calls\<close>

definition client_connect :: "nat \<Rightarrow> TcpClient \<Rightarrow> TcpClient" where
  "client_connect on_connect t = tc_post (ConnectTask on_connect) t"

definition client_send :: "(u32 \<Rightarrow> byte list) \<Rightarrow> byte list \<Rightarrow> TcpClient \<Rightarrow> TcpClient" where
  "client_send store data t =
     (if kMaxMessageSize < length data then t
      else case frame_encode store data of
        Inl e \<Rightarrow> t
      | Inr frame \<Rightarrow> tc_post (SendTask (tc_next_frame t, frame_bytes frame)) (t\<lparr>tc_next_frame := tc_next_frame t + 1\<rparr>))"

definition client_disconnect :: "TcpClient \<Rightarrow> TcpClient" where
  "client_disconnect t = tc_post DisconnectTask (t\<lparr>tc_disconnect_requested := True\<rparr>)"

section \<open>Handlers\<close>

text \<open>What a handler does with an exception that reaches it, apart from the line it logs.\<close>

definition logAndDisconnect :: "TcpClient \<Rightarrow> TcpClient" where
  "logAndDisconnect t = client_disconnect t"

declare logAndDisconnect_def [simp]

definition invokeConnectCallback :: "nat option \<Rightarrow> bool \<Rightarrow> TcpClient \<Rightarrow> TcpClient" where
  "invokeConnectCallback callback status t =
     (case callback of None \<Rightarrow> t | Some cb \<Rightarrow> t\<lparr>tc_events := tc_events t @ [OnConnect cb status]\<rparr>)"

text \<open>The pending callback is moved out when it is called.\<close>

definition call_pending :: "bool \<Rightarrow> TcpClient \<Rightarrow> TcpClient" where
  "call_pending status t =
     invokeConnectCallback (tc_pending_connect_callback t) status (t\<lparr>tc_pending_connect_callback := None\<rparr>)"

definition isValidGeneration :: "u64 \<Rightarrow> TcpClient \<Rightarrow> bool" where
  "isValidGeneration g t \<longleftrightarrow> g = tc_active_connect_generation t \<and> g = tc_disconnect_generation t"

definition failConnect :: "TcpClient \<Rightarrow> TcpClient" where
  "failConnect t = call_pending False (t\<lparr>tc_is_connecting := False, tc_is_connected := False\<rparr>)"

definition doRead :: "TcpClient \<Rightarrow> TcpClient" where
  "doRead t =
     (if \<not> tc_is_connected t \<or> tc_disconnect_requested t then t
      else t\<lparr>tc_reading := tc_reading t @ [tc_active_connect_generation t]\<rparr>)"

definition doWrite :: "TcpClient \<Rightarrow> TcpClient" where
  "doWrite t =
     (if \<not> tc_is_connected t \<or> tc_disconnect_requested t then t\<lparr>tc_is_writing := False\<rparr>
      else case tc_write_queue t of
        [] \<Rightarrow> t\<lparr>tc_is_writing := False\<rparr>
      | frame # rest \<Rightarrow>
          t\<lparr>tc_is_writing := True, tc_writing := tc_writing t @ [(tc_active_connect_generation t, frame)]\<rparr>)"

definition on_connect_task :: "nat \<Rightarrow> TcpClient \<Rightarrow> TcpClient" where
  "on_connect_task connect_cb t =
     (let generation = tc_disconnect_generation t
      in if tc_is_connected t \<or> tc_is_connecting t then invokeConnectCallback (Some connect_cb) False t
         else t\<lparr>tc_disconnect_requested := False, tc_is_connecting := True,
                tc_active_connect_generation := generation, tc_pending_connect_callback := Some connect_cb,
                tc_resolver := True, tc_resolving := tc_resolving t @ [generation]\<rparr>)"

definition on_resolved :: "u64 \<Rightarrow> bool \<Rightarrow> TcpClient \<Rightarrow> TcpClient" where
  "on_resolved generation ok t =
     (if \<not> isValidGeneration generation t \<or> \<not> tc_is_connecting t then t
      else
        let t = t\<lparr>tc_resolver := False\<rparr>
        in if tc_disconnect_requested t then call_pending False (t\<lparr>tc_is_connecting := False\<rparr>)
           else if \<not> ok then call_pending False (t\<lparr>tc_is_connecting := False\<rparr>)
           else t\<lparr>tc_opening := tc_opening t @ [generation]\<rparr>)"

definition on_connected :: "u64 \<Rightarrow> bool \<Rightarrow> TcpClient \<Rightarrow> TcpClient" where
  "on_connected generation ok t =
     (if \<not> isValidGeneration generation t \<or> \<not> tc_is_connecting t then t
      else if tc_disconnect_requested t then failConnect t
      else
        let callback = tc_pending_connect_callback t;
            t = t\<lparr>tc_is_connecting := False, tc_pending_connect_callback := None\<rparr>
        in if \<not> ok then invokeConnectCallback callback False (t\<lparr>tc_is_connected := False\<rparr>)
           else doRead (invokeConnectCallback callback True (t\<lparr>tc_is_connected := True\<rparr>)))"

definition on_send :: "frame_ref \<Rightarrow> TcpClient \<Rightarrow> TcpClient" where
  "on_send frame t =
     (if \<not> tc_is_connected t \<or> tc_disconnect_requested t then t
      else
        let t = t\<lparr>tc_write_queue := tc_write_queue t @ [frame]\<rparr>
        in if \<not> tc_is_writing t then doWrite t else t)"

text \<open>\<open>resolver_->cancel\<close>, \<open>socket_.cancel\<close> and \<open>socket_.close\<close>.\<close>

definition cancel_resolver :: "TcpClient \<Rightarrow> TcpClient" where
  "cancel_resolver t = t\<lparr>tc_resolving := [], tc_strand := tc_strand t @ map (\<lambda>g. Resolved g False) (tc_resolving t)\<rparr>"

definition close_socket :: "TcpClient \<Rightarrow> TcpClient" where
  "close_socket t = t\<lparr>tc_opening := [], tc_reading := [], tc_writing := [],
     tc_strand := tc_strand t @ map (\<lambda>g. Opened g False) (tc_opening t)
       @ map (\<lambda>g. ReadDone g None) (tc_reading t) @ map (\<lambda>(g, f). WriteDone g f False) (tc_writing t)\<rparr>"

definition on_disconnect_task :: "TcpClient \<Rightarrow> TcpClient" where
  "on_disconnect_task t =
     (let was_connected = tc_is_connected t;
          was_connecting = tc_is_connecting t;
          has_pending_writes = (tc_write_queue t \<noteq> []);
          t = t\<lparr>tc_disconnect_generation := tc_disconnect_generation t + 1, tc_is_connected := False\<rparr>
      in if \<not> was_connected \<and> \<not> was_connecting \<and> \<not> has_pending_writes \<and> \<not> tc_disconnect_requested t then t
         else
           let t = t\<lparr>tc_is_connecting := False\<rparr>;
               t = (if tc_resolver t then (cancel_resolver t)\<lparr>tc_resolver := False\<rparr> else t);
               t = (close_socket t)\<lparr>tc_read_buffer := [], tc_write_queue := [], tc_is_writing := False\<rparr>;
               connect_callback = tc_pending_connect_callback t;
               t = t\<lparr>tc_pending_connect_callback := None\<rparr>;
               t = (if was_connecting \<and> connect_callback \<noteq> None
                    then invokeConnectCallback connect_callback False t else t)
           in if was_connected \<and> tc_disconnect_cb t then t\<lparr>tc_events := tc_events t @ [OnDisconnect]\<rparr> else t)"

text \<open>The callback given to \<open>decode\<close>: its state is the client and \<open>stop_dispatch\<close>.\<close>

definition dispatch_frame :: "(byte list \<Rightarrow> cb_effect) \<Rightarrow> (TcpClient \<times> bool) frame_handler" where
  "dispatch_frame message_cb payload st =
     (case st of (t, stop_dispatch) \<Rightarrow>
        if stop_dispatch \<or> tc_disconnect_requested t then ((t, True), None)
        else if tc_message_cb t
        then
          let t = t\<lparr>tc_events := tc_events t @ [OnMessage payload]\<rparr>
          in case message_cb payload of
               CbThrows \<Rightarrow> ((t, stop_dispatch), Some (RuntimeError ''message callback''))
             | CbDisconnects \<Rightarrow>
                 let t = client_disconnect t in ((t, if tc_disconnect_requested t then True else stop_dispatch), None)
             | CbReturns \<Rightarrow> ((t, if tc_disconnect_requested t then True else stop_dispatch), None)
        else ((t, stop_dispatch), None))"

definition on_read ::
  "(byte list \<Rightarrow> u32) \<Rightarrow> (byte list \<Rightarrow> cb_effect) \<Rightarrow> u64 \<Rightarrow> byte list option \<Rightarrow> TcpClient \<Rightarrow> TcpClient" where
  "on_read load message_cb generation result t =
     (if \<not> isValidGeneration generation t \<or> \<not> tc_is_connected t \<or> tc_disconnect_requested t then t
      else case result of
        None \<Rightarrow> client_disconnect t
      | Some bytes \<Rightarrow>
          let (decoded_frames, rest, (t, stop_dispatch), err) =
                frame_decode load (dispatch_frame message_cb) (tc_read_buffer t @ bytes) (t, False);
              t = t\<lparr>tc_read_buffer := rest\<rparr>
          in if err \<noteq> None then logAndDisconnect t
             else if \<not> tc_is_connected t \<or> tc_disconnect_requested t then t
             else doRead t)"

definition on_written :: "u64 \<Rightarrow> frame_ref \<Rightarrow> bool \<Rightarrow> TcpClient \<Rightarrow> TcpClient" where
  "on_written generation frame ok t =
     (if generation \<noteq> tc_active_connect_generation t \<or> generation \<noteq> tc_disconnect_generation t \<or> \<not> tc_is_connected t
      then t
      else if \<not> ok then client_disconnect t
      else
        let t = (if tc_write_queue t \<noteq> [] \<and> fst (hd (tc_write_queue t)) = fst frame
                 then t\<lparr>tc_write_queue := tl (tc_write_queue t)\<rparr> else t)
        in if tc_write_queue t \<noteq> [] \<and> tc_is_connected t then doWrite t else t\<lparr>tc_is_writing := False\<rparr>)"

definition run_client_task ::
  "(byte list \<Rightarrow> u32) \<Rightarrow> (byte list \<Rightarrow> cb_effect) \<Rightarrow> client_task \<Rightarrow> TcpClient \<Rightarrow> TcpClient" where
  "run_client_task load message_cb h t =
     (case h of
        ConnectTask cb \<Rightarrow> on_connect_task cb t
      | Resolved g ok \<Rightarrow> on_resolved g ok t
      | Opened g ok \<Rightarrow> on_connected g ok t
      | SendTask frame \<Rightarrow> on_send frame t
      | DisconnectTask \<Rightarrow> on_disconnect_task t
      | ReadDone g result \<Rightarrow> on_read load message_cb g result t
      | WriteDone g frame ok \<Rightarrow> on_written g frame ok t)"

section \<open>Steps\<close>

datatype client_label =
    CConnect nat | CSend "byte list" | CDisconnect | CResolve bool | COpen bool | CRead "byte list option"
  | CWrite bool | CRun client_task

inductive client_step ::
  "(u32 \<Rightarrow> byte list) \<Rightarrow> (byte list \<Rightarrow> u32) \<Rightarrow> (byte list \<Rightarrow> cb_effect) \<Rightarrow> TcpClient \<Rightarrow> client_label \<Rightarrow> TcpClient \<Rightarrow> bool"
  for store :: "u32 \<Rightarrow> byte list" and load :: "byte list \<Rightarrow> u32" and message_cb :: "byte list \<Rightarrow> cb_effect" where
  c_connect: "client_step store load message_cb t (CConnect cb) (client_connect cb t)"
| c_send: "client_step store load message_cb t (CSend data) (client_send store data t)"
| c_disconnect: "client_step store load message_cb t CDisconnect (client_disconnect t)"
| c_resolve: "tc_resolving t = gs @ g # gs' \<Longrightarrow>
    client_step store load message_cb t (CResolve ok) (tc_post (Resolved g ok) (t\<lparr>tc_resolving := gs @ gs'\<rparr>))"
| c_open: "tc_opening t = gs @ g # gs' \<Longrightarrow>
    client_step store load message_cb t (COpen ok) (tc_post (Opened g ok) (t\<lparr>tc_opening := gs @ gs'\<rparr>))"
| c_read: "tc_reading t = gs @ g # gs' \<Longrightarrow>
    (case result of Some bytes \<Rightarrow> bytes \<noteq> [] \<and> length bytes \<le> READ_BLOCK_SIZE | None \<Rightarrow> True) \<Longrightarrow>
    client_step store load message_cb t (CRead result) (tc_post (ReadDone g result) (t\<lparr>tc_reading := gs @ gs'\<rparr>))"
| c_write: "tc_writing t = ws @ (g, f) # ws' \<Longrightarrow>
    client_step store load message_cb t (CWrite ok) (tc_post (WriteDone g f ok) (t\<lparr>tc_writing := ws @ ws'\<rparr>))"
| c_run: "tc_strand t = h # rest \<Longrightarrow>
    client_step store load message_cb t (CRun h) (run_client_task load message_cb h (t\<lparr>tc_strand := rest\<rparr>))"

text \<open>A run of a client whose two callbacks were set before anything else.\<close>

inductive client_run ::
  "(u32 \<Rightarrow> byte list) \<Rightarrow> (byte list \<Rightarrow> u32) \<Rightarrow> (byte list \<Rightarrow> cb_effect) \<Rightarrow> client_label list \<Rightarrow> TcpClient \<Rightarrow> bool"
  for store :: "u32 \<Rightarrow> byte list" and load :: "byte list \<Rightarrow> u32" and message_cb :: "byte list \<Rightarrow> cb_effect" where
  c_created: "client_run store load message_cb [] (setDisconnectCallback (setMessageCallback TcpClient_ctor))"
| c_stepped: "client_run store load message_cb tr t \<Longrightarrow> client_step store load message_cb t a t' \<Longrightarrow>
    client_run store load message_cb (tr @ [a]) t'"

section \<open>What is on its way\<close>

definition resolving_or_opening :: "TcpClient \<Rightarrow> bool" where
  "resolving_or_opening t \<longleftrightarrow> (let g = tc_active_connect_generation t in
     g \<in> set (tc_resolving t) \<or> g \<in> set (tc_opening t)
     \<or> (\<exists>ok. Resolved g ok \<in> set (tc_strand t) \<or> Opened g ok \<in> set (tc_strand t)))"

definition read_on_its_way :: "TcpClient \<Rightarrow> bool" where
  "read_on_its_way t \<longleftrightarrow> (let g = tc_active_connect_generation t in
     g \<in> set (tc_reading t) \<or> (\<exists>r. ReadDone g r \<in> set (tc_strand t)))"

definition write_on_its_way :: "TcpClient \<Rightarrow> bool" where
  "write_on_its_way t \<longleftrightarrow> (let g = tc_active_connect_generation t in
     (\<exists>f. (g, f) \<in> set (tc_writing t)) \<or> (\<exists>f ok. WriteDone g f ok \<in> set (tc_strand t)))"

definition client_ok :: "TcpClient \<Rightarrow> bool" where
  "client_ok t \<longleftrightarrow>
     (tc_pending_connect_callback t \<noteq> None \<longleftrightarrow> tc_is_connecting t)
     \<and> (tc_is_connecting t \<longrightarrow> \<not> tc_is_connected t \<and> resolving_or_opening t)
     \<and> (tc_is_connecting t \<or> tc_is_connected t \<longrightarrow> tc_active_connect_generation t = tc_disconnect_generation t)
     \<and> ((tc_is_connected t \<or> tc_is_connecting t) \<and> tc_disconnect_requested t \<longrightarrow> DisconnectTask \<in> set (tc_strand t))
     \<and> (tc_is_connected t \<and> \<not> tc_disconnect_requested t \<longrightarrow> read_on_its_way t)
     \<and> (tc_is_connected t \<and> \<not> tc_disconnect_requested t \<and> tc_is_writing t \<longrightarrow> write_on_its_way t)
     \<and> (tc_is_connected t \<and> \<not> tc_disconnect_requested t \<and> tc_write_queue t \<noteq> [] \<longrightarrow> tc_is_writing t)
     \<and> (\<not> tc_is_connected t \<longrightarrow> tc_write_queue t = [] \<and> \<not> tc_is_writing t)
     \<and> tc_message_cb t \<and> tc_disconnect_cb t"

lemmas on_its_way = resolving_or_opening_def read_on_its_way_def write_on_its_way_def Let_def

lemmas client_defs = client_connect_def client_disconnect_def call_pending_def invokeConnectCallback_def
  failConnect_def doRead_def doWrite_def cancel_resolver_def close_socket_def isValidGeneration_def

text \<open>What decoding does to the client.\<close>

fun client_calls :: "(byte list \<Rightarrow> cb_effect) \<Rightarrow> byte list list \<Rightarrow> byte list list \<times> cb_effect" where
  "client_calls message_cb [] = ([], CbReturns)"
| "client_calls message_cb (p # ps) =
     (if message_cb p = CbReturns then (p # fst (client_calls message_cb ps), snd (client_calls message_cb ps))
      else ([p], message_cb p))"

lemma dispatch_frame_cases:
  "stop \<or> tc_disconnect_requested t \<Longrightarrow> dispatch_frame message_cb p (t, stop) = ((t, True), None)"
  "\<not> tc_disconnect_requested t \<Longrightarrow> tc_message_cb t \<Longrightarrow> message_cb p = CbReturns \<Longrightarrow>
    dispatch_frame message_cb p (t, False) = ((t\<lparr>tc_events := tc_events t @ [OnMessage p]\<rparr>, False), None)"
  "\<not> tc_disconnect_requested t \<Longrightarrow> tc_message_cb t \<Longrightarrow> message_cb p = CbDisconnects \<Longrightarrow>
    dispatch_frame message_cb p (t, False) = ((client_disconnect (t\<lparr>tc_events := tc_events t @ [OnMessage p]\<rparr>), True), None)"
  "\<not> tc_disconnect_requested t \<Longrightarrow> tc_message_cb t \<Longrightarrow> message_cb p = CbThrows \<Longrightarrow>
    dispatch_frame message_cb p (t, False) =
      ((t\<lparr>tc_events := tc_events t @ [OnMessage p]\<rparr>, False), Some (RuntimeError ''message callback''))"
  by (simp_all add: dispatch_frame_def client_disconnect_def)

lemma deliver_stopped:
  "tc_disconnect_requested t \<Longrightarrow> \<exists>n stop'. deliver (dispatch_frame message_cb) ps (t, stop) = (n, (t, stop'), None)"
proof (induction ps arbitrary: stop)
  case (Cons p ps)
  from Cons.IH [OF Cons.prems, of True] obtain n stop' where
    "deliver (dispatch_frame message_cb) ps (t, True) = (n, (t, stop'), None)" by blast
  then show ?case using Cons.prems by (simp add: dispatch_frame_cases)
qed simp

lemma deliver_dispatch:
  assumes "tc_message_cb t" "\<not> tc_disconnect_requested t"
    "client_calls message_cb ps = (called, eff)" "t1 = t\<lparr>tc_events := tc_events t @ map OnMessage called\<rparr>"
  shows "\<exists>n stop err. deliver (dispatch_frame message_cb) ps (t, False) =
      (n, (if eff = CbDisconnects then client_disconnect t1 else t1, stop), err) \<and> (err = None \<longleftrightarrow> eff \<noteq> CbThrows)"
  using assms
proof (induction ps arbitrary: t called t1)
  case (Cons p ps)
  let ?t = "t\<lparr>tc_events := tc_events t @ [OnMessage p]\<rparr>"
  show ?case
  proof (cases "message_cb p")
    case CbReturns
    obtain called' where c: "client_calls message_cb ps = (called', eff)" "called = p # called'"
      using Cons.prems(3) CbReturns by (cases "client_calls message_cb ps") simp
    have t1: "t1 = ?t\<lparr>tc_events := tc_events ?t @ map OnMessage called'\<rparr>" using Cons.prems(4) c(2) by simp
    have pr: "tc_message_cb ?t" "\<not> tc_disconnect_requested ?t" using Cons.prems by simp_all
    from Cons.IH [OF pr c(1) t1] obtain n stop err where
      "deliver (dispatch_frame message_cb) ps (?t, False) =
        (n, (if eff = CbDisconnects then client_disconnect t1 else t1, stop), err)" "err = None \<longleftrightarrow> eff \<noteq> CbThrows" by blast
    then show ?thesis using CbReturns Cons.prems(1,2) by (cases err) (simp_all add: dispatch_frame_cases)
  next
    case CbDisconnects
    have "tc_disconnect_requested (client_disconnect ?t)" by (simp add: client_disconnect_def)
    from deliver_stopped [OF this, of message_cb ps True] obtain n stop' where
      "deliver (dispatch_frame message_cb) ps (client_disconnect ?t, True) = (n, (client_disconnect ?t, stop'), None)" by blast
    then show ?thesis using CbDisconnects Cons.prems by (auto simp: dispatch_frame_cases)
  next
    case CbThrows
    then show ?thesis using Cons.prems by (auto simp: dispatch_frame_cases)
  qed
qed auto

text \<open>What a completed read does to a live connection.\<close>

lemma on_read_live:
  assumes "isValidGeneration g t" "tc_is_connected t" "\<not> tc_disconnect_requested t" "tc_message_cb t"
    "client_calls message_cb (fst (frames load (tc_read_buffer t @ bytes))) = (called, eff)"
  shows "\<exists>rest. on_read load message_cb g (Some bytes) t =
      (let t1 = t\<lparr>tc_events := tc_events t @ map OnMessage called, tc_read_buffer := rest\<rparr>
       in if eff = CbReturns then doRead t1 else client_disconnect t1)
    \<and> (eff \<noteq> CbThrows \<longrightarrow> rest = snd (frames load (tc_read_buffer t @ bytes)))"
proof -
  let ?b = "tc_read_buffer t @ bytes"
  obtain ps rest where u: "unframe load ?b = (ps, rest)" by fastforce
  let ?t1 = "t\<lparr>tc_events := tc_events t @ map OnMessage called\<rparr>"
  have called: "client_calls message_cb ps = (called, eff)" using assms(5) u by (simp add: frames_unframe)
  from deliver_dispatch [OF assms(4,3) called refl] obtain n stop err where
    d: "deliver (dispatch_frame message_cb) ps (t, False) =
      (n, (if eff = CbDisconnects then client_disconnect ?t1 else ?t1, stop), err)" "err = None \<longleftrightarrow> eff \<noteq> CbThrows" by blast
  from frame_decode_deliver [OF u d(1)] obtain left where
    f: "frame_decode load (dispatch_frame message_cb) ?b (t, False) =
      (n, left, (if eff = CbDisconnects then client_disconnect ?t1 else ?t1, stop), err)" "err = None \<longrightarrow> left = rest" by blast
  show ?thesis
    using f d(2) assms(1-3) u
    by (intro exI [of _ left], cases eff) (auto simp: on_read_def Let_def client_disconnect_def frames_unframe)
qed

text \<open>Taking a handler from the strand.\<close>

definition is_opening_task :: "client_task \<Rightarrow> bool" where
  "is_opening_task h = (case h of Resolved _ _ \<Rightarrow> True | Opened _ _ \<Rightarrow> True | _ \<Rightarrow> False)"

definition is_read_task :: "client_task \<Rightarrow> bool" where
  "is_read_task h = (case h of ReadDone _ _ \<Rightarrow> True | _ \<Rightarrow> False)"

definition is_write_task :: "client_task \<Rightarrow> bool" where
  "is_write_task h = (case h of WriteDone _ _ _ \<Rightarrow> True | _ \<Rightarrow> False)"

lemmas task_kind = is_opening_task_def is_read_task_def is_write_task_def

lemma pop_on_its_way:
  assumes "tc_strand t = h # rest"
  shows "\<not> is_opening_task h \<Longrightarrow> resolving_or_opening (t\<lparr>tc_strand := rest\<rparr>) = resolving_or_opening t"
    "\<not> is_read_task h \<Longrightarrow> read_on_its_way (t\<lparr>tc_strand := rest\<rparr>) = read_on_its_way t"
    "\<not> is_write_task h \<Longrightarrow> write_on_its_way (t\<lparr>tc_strand := rest\<rparr>) = write_on_its_way t"
  using assms by (auto simp: on_its_way task_kind)

text \<open>A handler of a generation that is not current is not the one being waited for.\<close>

lemma pop_stale:
  assumes "tc_strand t = h # rest"
  shows "h = Resolved g ok \<or> h = Opened g ok \<Longrightarrow> g \<noteq> tc_active_connect_generation t \<Longrightarrow>
      resolving_or_opening (t\<lparr>tc_strand := rest\<rparr>) = resolving_or_opening t"
    "h = ReadDone g r \<Longrightarrow> g \<noteq> tc_active_connect_generation t \<Longrightarrow>
      read_on_its_way (t\<lparr>tc_strand := rest\<rparr>) = read_on_its_way t"
    "h = WriteDone g f ok \<Longrightarrow> g \<noteq> tc_active_connect_generation t \<Longrightarrow>
      write_on_its_way (t\<lparr>tc_strand := rest\<rparr>) = write_on_its_way t"
  using assms by (auto simp: on_its_way)

text \<open>The predicates read a few fields only.\<close>

lemma on_its_way_cong:
  "resolving_or_opening (t\<lparr>tc_events := e\<rparr>) = resolving_or_opening t" "read_on_its_way (t\<lparr>tc_events := e\<rparr>) = read_on_its_way t"
  "write_on_its_way (t\<lparr>tc_events := e\<rparr>) = write_on_its_way t"
  "read_on_its_way (t\<lparr>tc_write_queue := q\<rparr>) = read_on_its_way t" "write_on_its_way (t\<lparr>tc_write_queue := q\<rparr>) = write_on_its_way t"
  "read_on_its_way (t\<lparr>tc_is_writing := b\<rparr>) = read_on_its_way t" "write_on_its_way (t\<lparr>tc_is_writing := b\<rparr>) = write_on_its_way t"
  "read_on_its_way (t\<lparr>tc_writing := w\<rparr>) = read_on_its_way t" "write_on_its_way (t\<lparr>tc_reading := r\<rparr>) = write_on_its_way t"
  "read_on_its_way (t\<lparr>tc_is_connected := b\<rparr>) = read_on_its_way t" "write_on_its_way (t\<lparr>tc_is_connected := b\<rparr>) = write_on_its_way t"
  "write_on_its_way (t\<lparr>tc_read_buffer := x\<rparr>) = write_on_its_way t" "resolving_or_opening (t\<lparr>tc_resolver := b\<rparr>) = resolving_or_opening t"
  "read_on_its_way (t\<lparr>tc_read_buffer := x\<rparr>) = read_on_its_way t"
  "resolving_or_opening (t\<lparr>tc_next_frame := n\<rparr>) = resolving_or_opening t"
  "read_on_its_way (t\<lparr>tc_next_frame := n\<rparr>) = read_on_its_way t" "write_on_its_way (t\<lparr>tc_next_frame := n\<rparr>) = write_on_its_way t"
  by (simp_all add: on_its_way)

lemma on_its_way_new:
  "g = tc_active_connect_generation t \<Longrightarrow> resolving_or_opening (t\<lparr>tc_opening := os @ [g]\<rparr>)"
  "g = tc_active_connect_generation t \<Longrightarrow> read_on_its_way (t\<lparr>tc_reading := rs @ [g]\<rparr>)"
  "g = tc_active_connect_generation t \<Longrightarrow> write_on_its_way (t\<lparr>tc_writing := ws @ [(g, f)]\<rparr>)"
  by (cases f; auto simp: on_its_way)+

lemma pop_ok:
  assumes "client_ok t" "tc_strand t = h # rest" "h \<noteq> DisconnectTask"
    "tc_is_connecting t \<Longrightarrow> resolving_or_opening (t\<lparr>tc_strand := rest\<rparr>)"
    "tc_is_connected t \<Longrightarrow> \<not> tc_disconnect_requested t \<Longrightarrow> read_on_its_way t \<Longrightarrow> read_on_its_way (t\<lparr>tc_strand := rest\<rparr>)"
    "tc_is_connected t \<Longrightarrow> \<not> tc_disconnect_requested t \<Longrightarrow> write_on_its_way t \<Longrightarrow> write_on_its_way (t\<lparr>tc_strand := rest\<rparr>)"
  shows "client_ok (t\<lparr>tc_strand := rest\<rparr>)"
  using assms by (simp add: client_ok_def)

lemma valid_pop [simp]: "isValidGeneration g (t\<lparr>tc_strand := rest\<rparr>) = isValidGeneration g t"
  by (simp add: isValidGeneration_def)

text \<open>A handler taken from the strand keeps the invariant.\<close>

lemma connect_task_ok:
  assumes "client_ok t" "tc_strand t = ConnectTask cb # rest"
  shows "client_ok (on_connect_task cb (t\<lparr>tc_strand := rest\<rparr>))"
proof (cases "tc_is_connected t \<or> tc_is_connecting t")
  case True
  then show ?thesis using assms pop_on_its_way [OF assms(2)]
    by (simp add: on_connect_task_def invokeConnectCallback_def client_ok_def on_its_way_cong task_kind)
next
  case False
  then show ?thesis using assms
    by (simp add: on_connect_task_def client_ok_def Let_def) (simp add: resolving_or_opening_def)
qed

lemma resolved_ok:
  assumes "client_ok t" "tc_strand t = Resolved g ok # rest"
  shows "client_ok (on_resolved g ok (t\<lparr>tc_strand := rest\<rparr>))"
proof (cases "isValidGeneration g t \<and> tc_is_connecting t")
  case False
  have "tc_is_connecting t \<Longrightarrow> g \<noteq> tc_active_connect_generation t"
    using False assms(1) by (simp add: client_ok_def isValidGeneration_def)
  then have "tc_is_connecting t \<Longrightarrow> resolving_or_opening (t\<lparr>tc_strand := rest\<rparr>)"
    using pop_stale(1) [OF assms(2), of g ok] assms(1) by (simp add: client_ok_def)
  then have "client_ok (t\<lparr>tc_strand := rest\<rparr>)"
    by (intro pop_ok [OF assms]) (use pop_on_its_way [OF assms(2)] in \<open>simp_all add: task_kind\<close>)
  moreover have "on_resolved g ok (t\<lparr>tc_strand := rest\<rparr>) = t\<lparr>tc_strand := rest\<rparr>" using False by (simp add: on_resolved_def)
  ultimately show ?thesis by simp
next
  case True
  then have live: "g = tc_active_connect_generation t" "tc_is_connecting t" "isValidGeneration g (t\<lparr>tc_strand := rest\<rparr>)"
    by (auto simp: isValidGeneration_def)
  obtain cb where cb: "tc_pending_connect_callback t = Some cb" using live(2) assms(1) by (auto simp: client_ok_def)
  show ?thesis
  proof (cases "tc_disconnect_requested t \<or> \<not> ok")
    case True
    then have "on_resolved g ok (t\<lparr>tc_strand := rest\<rparr>) =
        call_pending False (t\<lparr>tc_strand := rest, tc_resolver := False, tc_is_connecting := False\<rparr>)"
      using live by (auto simp: on_resolved_def Let_def)
    then show ?thesis using live(2) cb assms(1)
      by (simp add: call_pending_def invokeConnectCallback_def client_ok_def)
  next
    case False
    let ?t = "t\<lparr>tc_strand := rest, tc_resolver := False\<rparr>"
    have "on_resolved g ok (t\<lparr>tc_strand := rest\<rparr>) = ?t\<lparr>tc_opening := tc_opening t @ [tc_active_connect_generation ?t]\<rparr>"
      using False live by (simp add: on_resolved_def)
    moreover have "resolving_or_opening (?t\<lparr>tc_opening := tc_opening t @ [tc_active_connect_generation ?t]\<rparr>)"
      by (rule on_its_way_new(1)) simp
    ultimately show ?thesis using live(2) assms False by (simp add: client_ok_def)
  qed
qed

lemma connected_ok:
  assumes "client_ok t" "tc_strand t = Opened g ok # rest"
  shows "client_ok (on_connected g ok (t\<lparr>tc_strand := rest\<rparr>))"
proof (cases "isValidGeneration g t \<and> tc_is_connecting t")
  case False
  have "tc_is_connecting t \<Longrightarrow> g \<noteq> tc_active_connect_generation t"
    using False assms(1) by (simp add: client_ok_def isValidGeneration_def)
  then have "tc_is_connecting t \<Longrightarrow> resolving_or_opening (t\<lparr>tc_strand := rest\<rparr>)"
    using pop_stale(1) [OF assms(2), of g ok] assms(1) by (simp add: client_ok_def)
  then have "client_ok (t\<lparr>tc_strand := rest\<rparr>)"
    by (intro pop_ok [OF assms]) (use pop_on_its_way [OF assms(2)] in \<open>simp_all add: task_kind\<close>)
  moreover have "on_connected g ok (t\<lparr>tc_strand := rest\<rparr>) = t\<lparr>tc_strand := rest\<rparr>" using False by (simp add: on_connected_def)
  ultimately show ?thesis by simp
next
  case True
  then have live: "tc_is_connecting t" "isValidGeneration g (t\<lparr>tc_strand := rest\<rparr>)" "g = tc_disconnect_generation t"
    by (auto simp: isValidGeneration_def)
  obtain cb where cb: "tc_pending_connect_callback t = Some cb" using live(1) assms(1) by (auto simp: client_ok_def)
  show ?thesis
  proof (cases "tc_disconnect_requested t \<or> \<not> ok")
    case True
    then have "on_connected g ok (t\<lparr>tc_strand := rest\<rparr>) = t\<lparr>tc_strand := rest, tc_is_connecting := False,
        tc_is_connected := False, tc_pending_connect_callback := None, tc_events := tc_events t @ [OnConnect cb False]\<rparr>"
      using live(1,2) cb by (cases "tc_disconnect_requested t")
        (simp_all add: on_connected_def failConnect_def call_pending_def invokeConnectCallback_def)
    then show ?thesis using live(1) assms(1) by (simp add: client_ok_def)
  next
    case False
    let ?t = "t\<lparr>tc_strand := rest, tc_is_connecting := False, tc_pending_connect_callback := None,
        tc_is_connected := True, tc_events := tc_events t @ [OnConnect cb True]\<rparr>"
    have "on_connected g ok (t\<lparr>tc_strand := rest\<rparr>) = ?t\<lparr>tc_reading := tc_reading t @ [tc_active_connect_generation ?t]\<rparr>"
      using False live cb by (simp add: on_connected_def invokeConnectCallback_def doRead_def)
    moreover have "read_on_its_way (?t\<lparr>tc_reading := tc_reading t @ [tc_active_connect_generation ?t]\<rparr>)"
      by (rule on_its_way_new(2)) simp
    ultimately show ?thesis using live(1) False assms(1) by (simp add: client_ok_def)
  qed
qed

lemma disconnect_task_fields:
  "tc_events (on_disconnect_task t) = tc_events t
     @ (case tc_pending_connect_callback t of Some c \<Rightarrow> if tc_is_connecting t then [OnConnect c False] else [] | None \<Rightarrow> [])
     @ (if tc_is_connected t \<and> tc_disconnect_cb t then [OnDisconnect] else [])"
  "\<not> tc_is_connected (on_disconnect_task t)"
  "tc_pending_connect_callback (on_disconnect_task t) =
     (if \<not> tc_is_connected t \<and> \<not> tc_is_connecting t \<and> tc_write_queue t = [] \<and> \<not> tc_disconnect_requested t
      then tc_pending_connect_callback t else None)"
  "\<not> tc_is_connecting (on_disconnect_task t)" "tc_write_queue (on_disconnect_task t) = []"
  "tc_is_writing (on_disconnect_task t) =
     (\<not> tc_is_connected t \<and> \<not> tc_is_connecting t \<and> tc_write_queue t = [] \<and> \<not> tc_disconnect_requested t \<and> tc_is_writing t)"
  "tc_message_cb (on_disconnect_task t) = tc_message_cb t" "tc_disconnect_cb (on_disconnect_task t) = tc_disconnect_cb t"
  by ((simp add: on_disconnect_task_def cancel_resolver_def close_socket_def invokeConnectCallback_def Let_def
      split: option.split, blast?)+)

lemma closed_ok:
  assumes "\<not> tc_is_connected t" "\<not> tc_is_connecting t" "tc_pending_connect_callback t = None"
    "tc_write_queue t = []" "\<not> tc_is_writing t" "tc_message_cb t" "tc_disconnect_cb t"
  shows "client_ok t"
  using assms by (simp add: client_ok_def)

lemma disconnect_task_ok:
  assumes "client_ok t" "tc_strand t = DisconnectTask # rest"
  shows "client_ok (on_disconnect_task (t\<lparr>tc_strand := rest\<rparr>))"
proof (rule closed_ok)
  have t: "tc_message_cb t" "tc_disconnect_cb t" "\<not> tc_is_connected t \<Longrightarrow> \<not> tc_is_writing t"
    "\<not> tc_is_connecting t \<Longrightarrow> tc_pending_connect_callback t = None"
    using assms(1) unfolding client_ok_def by blast+
  let ?t = "on_disconnect_task (t\<lparr>tc_strand := rest\<rparr>)"
  show "\<not> tc_is_connected ?t" "\<not> tc_is_connecting ?t" "tc_write_queue ?t = []"
    by (rule disconnect_task_fields)+
  show "tc_message_cb ?t" "tc_disconnect_cb ?t" using t(1,2) by (simp_all add: disconnect_task_fields(7,8))
  show "tc_pending_connect_callback ?t = None" using t(4) by (simp add: disconnect_task_fields(3))
  show "\<not> tc_is_writing ?t" using t(3) by (auto simp: disconnect_task_fields(6))
qed

lemma send_task_ok:
  assumes "client_ok t" "tc_strand t = SendTask f # rest"
  shows "client_ok (on_send f (t\<lparr>tc_strand := rest\<rparr>))"
proof (cases "tc_is_connected t \<and> \<not> tc_disconnect_requested t")
  case False
  then show ?thesis using assms pop_on_its_way [OF assms(2)]
    by (auto simp: on_send_def client_ok_def on_its_way_cong task_kind)
next
  case True
  have "tc_is_writing t \<longrightarrow> write_on_its_way (t\<lparr>tc_strand := rest\<rparr>)" "read_on_its_way (t\<lparr>tc_strand := rest\<rparr>)"
    using True assms(1) pop_on_its_way [OF assms(2)] by (simp_all add: client_ok_def task_kind)
  with True assms show ?thesis
    by (cases "tc_is_writing t")
      (simp_all add: on_send_def doWrite_def client_ok_def on_its_way_cong on_its_way_new split: list.split)
qed

lemma read_done_ok:
  assumes "client_ok t" "tc_strand t = ReadDone g r # rest"
  shows "client_ok (on_read load message_cb g r (t\<lparr>tc_strand := rest\<rparr>))"
proof -
  let ?t = "t\<lparr>tc_strand := rest\<rparr>"
  have w: "write_on_its_way ?t = write_on_its_way t" "resolving_or_opening ?t = resolving_or_opening t"
    using pop_on_its_way [OF assms(2)] by (simp_all add: task_kind)
  show ?thesis
  proof (cases "isValidGeneration g t \<and> tc_is_connected t \<and> \<not> tc_disconnect_requested t")
    case False
    have "tc_is_connected t \<Longrightarrow> \<not> tc_disconnect_requested t \<Longrightarrow> g \<noteq> tc_active_connect_generation t"
      using False assms(1) by (simp add: client_ok_def isValidGeneration_def)
    then have "client_ok ?t"
      using pop_stale(2) [OF assms(2), of g r] w assms(1)
      by (intro pop_ok [OF assms]) (simp_all add: client_ok_def)
    moreover have "on_read load message_cb g r ?t = ?t" using False by (auto simp: on_read_def)
    ultimately show ?thesis by simp
  next
    case True
    then have live: "isValidGeneration g ?t" "tc_is_connected ?t" "\<not> tc_disconnect_requested ?t" "tc_message_cb ?t"
      using assms(1) by (simp_all add: client_ok_def)
    have off: "\<not> tc_is_connecting t" using assms(1) True by (simp add: client_ok_def)
    show ?thesis
    proof (cases r)
      case None
      then show ?thesis using live off assms(1) by (simp add: on_read_def client_disconnect_def client_ok_def)
    next
      case (Some bytes)
      obtain called eff where c: "client_calls message_cb (fst (frames load (tc_read_buffer ?t @ bytes))) = (called, eff)"
        by fastforce
      from on_read_live [OF live c] obtain left where
        rd: "on_read load message_cb g (Some bytes) ?t =
          (let t1 = ?t\<lparr>tc_events := tc_events ?t @ map OnMessage called, tc_read_buffer := left\<rparr>
           in if eff = CbReturns then doRead t1 else client_disconnect t1)" by blast
      show ?thesis
      proof (cases "eff = CbReturns")
        case True
        then show ?thesis using live off assms(1) w
          unfolding Some rd by (simp add: doRead_def client_ok_def on_its_way_cong on_its_way_new)
      next
        case False
        then show ?thesis using live off assms(1) unfolding Some rd by (simp add: client_disconnect_def client_ok_def)
      qed
    qed
  qed
qed

lemma write_done_ok:
  assumes "client_ok t" "tc_strand t = WriteDone g f ok # rest"
  shows "client_ok (on_written g f ok (t\<lparr>tc_strand := rest\<rparr>))"
proof -
  let ?t = "t\<lparr>tc_strand := rest\<rparr>"
  have w: "read_on_its_way ?t = read_on_its_way t" "resolving_or_opening ?t = resolving_or_opening t"
    using pop_on_its_way [OF assms(2)] by (simp_all add: task_kind)
  show ?thesis
  proof (cases "isValidGeneration g t \<and> tc_is_connected t")
    case False
    have "tc_is_connected t \<Longrightarrow> g \<noteq> tc_active_connect_generation t"
      using False assms(1) by (simp add: client_ok_def isValidGeneration_def)
    then have "client_ok ?t"
      using pop_stale(3) [OF assms(2), of g f ok] w assms(1)
      by (intro pop_ok [OF assms]) (simp_all add: client_ok_def)
    moreover have "on_written g f ok ?t = ?t" using False by (auto simp: on_written_def isValidGeneration_def)
    ultimately show ?thesis by simp
  next
    case True
    then have live: "g = tc_active_connect_generation t" "g = tc_disconnect_generation t" "tc_is_connected t"
      "\<not> tc_is_connecting t" using assms(1) by (simp_all add: isValidGeneration_def client_ok_def)
    have req: "tc_disconnect_requested t \<Longrightarrow> DisconnectTask \<in> set rest" and rd: "\<not> tc_disconnect_requested t \<Longrightarrow> read_on_its_way ?t"
      using assms live(3) w(1) by (simp_all add: client_ok_def)
    show ?thesis using live assms(1) req rd
      by (cases "tc_disconnect_requested t")
        (simp_all add: on_written_def client_disconnect_def doWrite_def client_ok_def on_its_way_cong on_its_way_new Let_def
          split: list.split)
  qed
qed

lemma run_client_task_ok:
  assumes "client_ok t" "tc_strand t = h # rest"
  shows "client_ok (run_client_task load message_cb h (t\<lparr>tc_strand := rest\<rparr>))"
  using assms connect_task_ok resolved_ok connected_ok disconnect_task_ok send_task_ok read_done_ok write_done_ok
  by (cases h) (simp_all add: run_client_task_def)

lemma post_on_its_way:
  "resolving_or_opening t \<Longrightarrow> resolving_or_opening (tc_post h t)"
  "resolving_or_opening t \<Longrightarrow> resolving_or_opening (t\<lparr>tc_disconnect_requested := b, tc_strand := tc_strand t @ [h]\<rparr>)"
  "read_on_its_way t \<Longrightarrow> read_on_its_way (tc_post h t)" "write_on_its_way t \<Longrightarrow> write_on_its_way (tc_post h t)"
  by (auto simp: on_its_way)

lemma post_ok: "client_ok t \<Longrightarrow> client_ok (tc_post h t)"
  using post_on_its_way [of t] by (simp add: client_ok_def)

text \<open>Completing an operation: its handler takes its place.\<close>

lemma complete_resolve:
  assumes "tc_resolving t = gs @ g # gs'" "resolving_or_opening t"
  shows "resolving_or_opening (t\<lparr>tc_resolving := gs @ gs', tc_strand := tc_strand t @ [Resolved g ok]\<rparr>)"
  using assms by (simp add: on_its_way) blast

lemma complete_open:
  assumes "tc_opening t = gs @ g # gs'" "resolving_or_opening t"
  shows "resolving_or_opening (t\<lparr>tc_opening := gs @ gs', tc_strand := tc_strand t @ [Opened g ok]\<rparr>)"
  using assms by (simp add: on_its_way) blast

lemma complete_read:
  assumes "tc_reading t = gs @ g # gs'" "read_on_its_way t"
  shows "read_on_its_way (t\<lparr>tc_reading := gs @ gs', tc_strand := tc_strand t @ [ReadDone g r]\<rparr>)"
  using assms by (simp add: on_its_way) blast

lemma complete_write:
  assumes "tc_writing t = ws @ (g, f) # ws'" "write_on_its_way t"
  shows "write_on_its_way (t\<lparr>tc_writing := ws @ ws', tc_strand := tc_strand t @ [WriteDone g f ok]\<rparr>)"
  using assms by (cases f) (simp add: on_its_way, blast)

lemma client_step_ok:
  assumes "client_step store load message_cb t a t'" "client_ok t"
  shows "client_ok t'"
  using assms(1)
proof (cases rule: client_step.cases)
  case (c_run h rest)
  then show ?thesis using run_client_task_ok [OF assms(2)] by simp
next
  case (c_connect cb)
  then show ?thesis using post_ok [OF assms(2)] by (simp add: client_connect_def)
next
  case c_disconnect
  then show ?thesis using assms(2) post_on_its_way(2) [where b = True and h = DisconnectTask and t = t]
    by (simp add: client_disconnect_def client_ok_def)
next
  case (c_send data)
  have "client_ok (t\<lparr>tc_next_frame := n\<rparr>)" for n using assms(2) by (simp add: client_ok_def on_its_way_cong)
  from post_ok [OF this] show ?thesis unfolding c_send using assms(2) by (simp add: client_send_def split: sum.split)
next
  case (c_resolve gs g gs' ok)
  then show ?thesis using assms(2) post_ok [OF assms(2), of "Resolved g ok"] complete_resolve [OF c_resolve(3)]
    unfolding c_resolve(2) by (simp add: client_ok_def read_on_its_way_def write_on_its_way_def)
next
  case (c_open gs g gs' ok)
  then show ?thesis using assms(2) post_ok [OF assms(2), of "Opened g ok"] complete_open [OF c_open(3)]
    by (simp add: client_ok_def read_on_its_way_def write_on_its_way_def)
next
  case (c_read gs g gs' result)
  then show ?thesis using assms(2) post_ok [OF assms(2), of "ReadDone g result"] complete_read [OF c_read(3)]
    by (simp add: client_ok_def resolving_or_opening_def write_on_its_way_def)
next
  case (c_write ws g f ws' ok)
  then show ?thesis using assms(2) post_ok [OF assms(2), of "WriteDone g f ok"] complete_write [OF c_write(3)]
    by (simp add: client_ok_def resolving_or_opening_def read_on_its_way_def)
qed

lemma client_run_ok: "client_run store load message_cb tr t \<Longrightarrow> client_ok t"
proof (induction rule: client_run.induct)
  case c_created
  then show ?case by (simp add: client_ok_def setDisconnectCallback_def setMessageCallback_def TcpClient_ctor_def)
qed (rule client_step_ok)

section \<open>Answers\<close>

definition answers :: "nat \<Rightarrow> TcpClient \<Rightarrow> nat" where
  "answers c t = length (filter (\<lambda>e. e = OnConnect c True \<or> e = OnConnect c False) (tc_events t))"

definition requests :: "nat \<Rightarrow> client_label list \<Rightarrow> nat" where
  "requests c tr = length (filter (\<lambda>a. a = CRun (ConnectTask c)) tr)"

definition established :: "TcpClient \<Rightarrow> nat" where
  "established t = length (filter (\<lambda>e. \<exists>c. e = OnConnect c True) (tc_events t))"

definition lost :: "TcpClient \<Rightarrow> nat" where
  "lost t = length (filter (\<lambda>e. e = OnDisconnect) (tc_events t))"

lemmas event_counts = answers_def established_def lost_def

text \<open>A read reports messages only.\<close>

lemma on_read_events:
  assumes "tc_message_cb t"
  shows "\<exists>ps. tc_events (on_read load message_cb g r t) = tc_events t @ map OnMessage ps
    \<and> tc_is_connected (on_read load message_cb g r t) = tc_is_connected t
    \<and> tc_is_connecting (on_read load message_cb g r t) = tc_is_connecting t
    \<and> tc_pending_connect_callback (on_read load message_cb g r t) = tc_pending_connect_callback t"
proof (cases "isValidGeneration g t \<and> tc_is_connected t \<and> \<not> tc_disconnect_requested t")
  case False
  then show ?thesis by (auto simp: on_read_def intro: exI [of _ "[]"])
next
  case True
  show ?thesis
  proof (cases r)
    case None
    then show ?thesis using True by (auto simp: on_read_def client_disconnect_def intro: exI [of _ "[]"])
  next
    case (Some bytes)
    obtain called eff where c: "client_calls message_cb (fst (frames load (tc_read_buffer t @ bytes))) = (called, eff)"
      by fastforce
    from on_read_live [OF _ _ _ assms c, of g] True show ?thesis
      unfolding Some by (auto simp: Let_def doRead_def client_disconnect_def split: if_splits)
  qed
qed

lemma doWrite_reports:
  "tc_events (doWrite t) = tc_events t" "tc_is_connected (doWrite t) = tc_is_connected t"
  "tc_pending_connect_callback (doWrite t) = tc_pending_connect_callback t"
  by (simp_all add: doWrite_def split: list.split)

lemma on_written_reports:
  "tc_events (on_written g f ok t) = tc_events t" "tc_is_connected (on_written g f ok t) = tc_is_connected t"
  "tc_pending_connect_callback (on_written g f ok t) = tc_pending_connect_callback t"
  by (simp_all add: on_written_def client_disconnect_def doWrite_reports Let_def)

lemma on_send_reports:
  "tc_events (on_send f t) = tc_events t" "tc_is_connected (on_send f t) = tc_is_connected t"
  "tc_pending_connect_callback (on_send f t) = tc_pending_connect_callback t"
  by (simp_all add: on_send_def doWrite_reports Let_def)

lemma answers_run:
  assumes "client_ok t" "tc_strand t = h # rest" "t' = run_client_task load message_cb h (t\<lparr>tc_strand := rest\<rparr>)"
  shows "answers c t' + of_bool (tc_pending_connect_callback t' = Some c)
      = answers c t + of_bool (tc_pending_connect_callback t = Some c) + of_bool (h = ConnectTask c)
    \<and> established t' = established t + of_bool (tc_is_connected t' \<and> \<not> tc_is_connected t)
    \<and> lost t' = lost t + of_bool (tc_is_connected t \<and> \<not> tc_is_connected t')"
proof (cases h)
  case (ReadDone g r)
  have "filter (\<lambda>e. e = OnConnect c True \<or> e = OnConnect c False) (map OnMessage ps) = []"
    "filter (\<lambda>e. \<exists>c. e = OnConnect c True) (map OnMessage ps) = []" "filter (\<lambda>e. e = OnDisconnect) (map OnMessage ps) = []"
    for ps by (induction ps) simp_all
  moreover have "tc_message_cb (t\<lparr>tc_strand := rest\<rparr>)" using assms(1) by (simp add: client_ok_def)
  ultimately show ?thesis using ReadDone assms on_read_events [of "t\<lparr>tc_strand := rest\<rparr>" load message_cb g r]
    by (auto simp: run_client_task_def event_counts)
next
  case (Resolved g ok)
  show ?thesis
  proof (cases "isValidGeneration g t \<and> tc_is_connecting t")
    case False
    then show ?thesis using Resolved assms by (simp add: run_client_task_def on_resolved_def event_counts)
  next
    case True
    then obtain cb where "tc_pending_connect_callback t = Some cb" "\<not> tc_is_connected t"
      using assms(1) by (auto simp: client_ok_def)
    then show ?thesis using True Resolved assms(3)
      by (cases "tc_disconnect_requested t"; cases ok; cases "c = cb")
        (simp_all add: run_client_task_def on_resolved_def call_pending_def invokeConnectCallback_def event_counts)
  qed
next
  case (Opened g ok)
  show ?thesis
  proof (cases "isValidGeneration g t \<and> tc_is_connecting t")
    case False
    then show ?thesis using Opened assms by (simp add: run_client_task_def on_connected_def event_counts)
  next
    case True
    then obtain cb where "tc_pending_connect_callback t = Some cb" "\<not> tc_is_connected t"
      using assms(1) by (auto simp: client_ok_def)
    then show ?thesis using True Opened assms(3)
      by (cases "tc_disconnect_requested t"; cases ok; cases "c = cb")
        (simp_all add: run_client_task_def on_connected_def failConnect_def call_pending_def invokeConnectCallback_def
          doRead_def event_counts)
  qed
next
  case DisconnectTask
  let ?t = "t\<lparr>tc_strand := rest\<rparr>"
  have t': "t' = on_disconnect_task ?t" using DisconnectTask assms(3) by (simp add: run_client_task_def)
  have i: "tc_pending_connect_callback t \<noteq> None \<longleftrightarrow> tc_is_connecting t" "tc_is_connecting t \<longrightarrow> \<not> tc_is_connected t" "tc_disconnect_cb t"
    using assms(1) by (simp_all add: client_ok_def)
  show ?thesis using DisconnectTask i
    by (cases "tc_pending_connect_callback t"; cases "tc_is_connected t")
      (simp_all add: t' event_counts disconnect_task_fields)
next
  case (ConnectTask cb)
  show ?thesis
  proof (cases "tc_is_connected t \<or> tc_is_connecting t")
    case True
    then show ?thesis using ConnectTask assms(3)
      by (simp add: run_client_task_def on_connect_task_def invokeConnectCallback_def event_counts)
  next
    case False
    then have "tc_pending_connect_callback t = None" using assms(1) by (simp add: client_ok_def)
    with False show ?thesis using ConnectTask assms(3)
      by (simp add: run_client_task_def on_connect_task_def event_counts Let_def)
  qed
next
  case (SendTask f)
  then show ?thesis using assms by (simp add: run_client_task_def event_counts on_send_reports)
next
  case (WriteDone g f ok)
  then show ?thesis using assms by (simp add: run_client_task_def event_counts on_written_reports)
qed

lemma client_run_counts:
  assumes "client_run store load message_cb tr t"
  shows "answers c t + of_bool (tc_pending_connect_callback t = Some c) = requests c tr
    \<and> established t = lost t + of_bool (tc_is_connected t)"
  using assms
proof (induction rule: client_run.induct)
  case c_created
  show ?case by (simp add: event_counts requests_def setDisconnectCallback_def setMessageCallback_def TcpClient_ctor_def)
next
  case (c_stepped tr t a t')
  note ok = client_run_ok [OF c_stepped.hyps(1)]
  from c_stepped.hyps(2) show ?case
  proof (cases rule: client_step.cases)
    case (c_run h rest)
    from answers_run [OF ok c_run(3) c_run(2), of c] c_stepped.IH c_run(1) show ?thesis
      by (auto simp: requests_def)
  next
    case (c_send data)
    then show ?thesis using c_stepped.IH
      by (cases "kMaxMessageSize < length data"; cases "frame_encode store data")
        (simp_all add: client_send_def event_counts requests_def)
  qed (use c_stepped.IH in \<open>simp_all add: client_connect_def client_disconnect_def event_counts requests_def\<close>)
qed

section \<open>What a step adds\<close>

definition is_client_call :: "client_label \<Rightarrow> bool" where
  "is_client_call a = (case a of CConnect _ \<Rightarrow> True | CSend _ \<Rightarrow> True | CDisconnect \<Rightarrow> True | _ \<Rightarrow> False)"

definition frames_in :: "TcpClient \<Rightarrow> frame_ref set" where
  "frames_in t = {f. SendTask f \<in> set (tc_strand t)} \<union> set (tc_write_queue t) \<union> snd ` set (tc_writing t)"


lemma on_read_fields:
  assumes "tc_message_cb t" "t' = on_read load message_cb g r t"
  shows "\<exists>more evs. tc_strand t' = tc_strand t @ more \<and> set more \<subseteq> {DisconnectTask} \<and> tc_events t' = tc_events t @ evs
    \<and> tc_write_queue t' = tc_write_queue t \<and> tc_writing t' = tc_writing t \<and> tc_is_writing t' = tc_is_writing t
    \<and> tc_disconnect_generation t' = tc_disconnect_generation t \<and> (tc_disconnect_requested t \<longrightarrow> tc_disconnect_requested t')"
proof (cases "isValidGeneration g t \<and> tc_is_connected t \<and> \<not> tc_disconnect_requested t \<and> r \<noteq> None")
  case True
  then obtain bytes where r: "r = Some bytes" by blast
  obtain called eff where c: "client_calls message_cb (fst (frames load (tc_read_buffer t @ bytes))) = (called, eff)"
    by fastforce
  from on_read_live [OF _ _ _ assms(1) c, of g] True
  show ?thesis by (cases eff) (auto simp: assms(2) r doRead_def client_disconnect_def Let_def)
next
  case False
  then show ?thesis by (cases r) (auto simp: assms(2) on_read_def client_disconnect_def)
qed

lemma doWrite_fields:
  "tc_strand (doWrite t) = tc_strand t" "tc_events (doWrite t) = tc_events t" "frames_in (doWrite t) \<subseteq> frames_in t"
  by (auto simp: doWrite_def frames_in_def split: list.splits)

lemma disconnect_task_grows:
  "\<exists>more. tc_strand (on_disconnect_task t) = tc_strand t @ more \<and> (\<forall>f. SendTask f \<notin> set more)"
  "tc_write_queue (on_disconnect_task t) = [] \<or> tc_write_queue (on_disconnect_task t) = tc_write_queue t"
  "tc_writing (on_disconnect_task t) = [] \<or> tc_writing (on_disconnect_task t) = tc_writing t"
  by (auto simp: on_disconnect_task_def cancel_resolver_def close_socket_def invokeConnectCallback_def Let_def
      split: option.split)

lemma run_task_grows:
  assumes "client_ok t" "tc_strand t = h # rest"
    "t' = run_client_task load message_cb h (t\<lparr>tc_strand := rest\<rparr>)"
  shows "\<exists>more evs. tc_strand t' = rest @ more \<and> (\<forall>f. SendTask f \<notin> set more) \<and> tc_events t' = tc_events t @ evs
    \<and> frames_in t' \<subseteq> frames_in t"
proof (cases h)
  case (ReadDone g r)
  have "tc_message_cb (t\<lparr>tc_strand := rest\<rparr>)" using assms(1) by (simp add: client_ok_def)
  from on_read_fields [OF this, of _ load message_cb g r] ReadDone assms(2,3)
  show ?thesis by (fastforce simp: run_client_task_def frames_in_def)
next
  case (ConnectTask cb)
  then show ?thesis using assms(2,3)
    by (auto simp: run_client_task_def on_connect_task_def invokeConnectCallback_def frames_in_def Let_def)
next
  case (Resolved g ok)
  then show ?thesis using assms(2,3)
    by (auto simp: run_client_task_def on_resolved_def call_pending_def invokeConnectCallback_def frames_in_def Let_def
        split: option.split)
next
  case (Opened g ok)
  then show ?thesis using assms(2,3)
    by (auto simp: run_client_task_def on_connected_def failConnect_def call_pending_def invokeConnectCallback_def
        doRead_def frames_in_def Let_def split: option.split)
next
  case (SendTask f)
  let ?u = "t\<lparr>tc_strand := rest, tc_write_queue := tc_write_queue t @ [f]\<rparr>"
  have "frames_in ?u \<subseteq> frames_in t" "frames_in (t\<lparr>tc_strand := rest\<rparr>) \<subseteq> frames_in t"
    using SendTask assms(2) by (auto simp: frames_in_def)
  then show ?thesis using SendTask assms(3) doWrite_fields [of ?u]
    by (auto simp: run_client_task_def on_send_def Let_def)
next
  case DisconnectTask
  let ?u = "t\<lparr>tc_strand := rest\<rparr>"
  have t': "t' = on_disconnect_task ?u" using DisconnectTask assms(3) by (simp add: run_client_task_def)
  from disconnect_task_grows(1) [of ?u] obtain more where more: "tc_strand t' = rest @ more" "\<forall>f. SendTask f \<notin> set more"
    by (auto simp: t')
  moreover have "frames_in t' \<subseteq> frames_in t"
    using more disconnect_task_grows(2,3) [of ?u] assms(2) DisconnectTask by (auto simp: frames_in_def t' [symmetric])
  moreover have "\<exists>evs. tc_events t' = tc_events t @ evs" unfolding t' by (simp add: disconnect_task_fields(1))
  ultimately show ?thesis by blast
next
  case (WriteDone g f ok)
  then show ?thesis using assms(2,3)
    by (auto simp: run_client_task_def on_written_def client_disconnect_def doWrite_def frames_in_def Let_def
        split: list.split dest: list.set_sel(2))
qed

lemma client_step_grows:
  assumes "client_step store load message_cb t a t'" "\<not> is_client_call a" "client_ok t"
  shows "(\<exists>evs. tc_events t' = tc_events t @ evs) \<and> frames_in t' \<subseteq> frames_in t"
  using assms(1)
proof (cases rule: client_step.cases)
  case (c_run h rest)
  with run_task_grows [OF assms(3) c_run(3) c_run(2)] show ?thesis by blast
next
  case (c_write ws g f ws' ok)
  then show ?thesis by (auto simp: frames_in_def)
qed (use assms(2) in \<open>auto simp: is_client_call_def frames_in_def\<close>)

section \<open>Properties\<close>

text \<open>C11.  Whatever the network, the message callback and other threads do, each call of
  \<open>connect\<close> that the client has handled has been answered exactly once, unless it is the one
  being attempted, and then its resolving or opening is still on its way: no callback is called
  twice and none is forgotten.  A call that finds the client busy is answered too.\<close>

theorem connect_answered_once:
  assumes "client_run store load message_cb tr t"
  shows "answers c t + of_bool (tc_pending_connect_callback t = Some c) = requests c tr
    \<and> (tc_pending_connect_callback t \<noteq> None \<longrightarrow> resolving_or_opening t \<and> \<not> tc_is_connected t)"
  using client_run_counts [OF assms] client_run_ok [OF assms] by (simp add: client_ok_def)

text \<open>The loss of a connection is reported exactly once for every connection that was
  established, and only after it is gone; at most one connection is up.\<close>

theorem disconnect_reported_once:
  assumes "client_run store load message_cb tr t"
  shows "established t = lost t + of_bool (isConnected t)"
  using client_run_counts [OF assms] by (simp add: isConnected_def)

text \<open>C5.  A client never gets stuck.  While it is connected and no disconnect was requested, a
  read is under way or its handler waiting, and a write too as long as something is queued; while it is
  connecting, the resolving or opening of the current attempt is under way or its handler waiting; if a disconnect
  was requested of a client that is connected or connecting, the handler that tears the connection down
  is waiting; and a client that is not connected has nothing queued and is not writing.\<close>

theorem client_never_stalls:
  assumes "client_run store load message_cb tr t"
  shows "(isConnected t \<and> \<not> tc_disconnect_requested t \<longrightarrow>
      read_on_its_way t \<and> (tc_write_queue t \<noteq> [] \<longrightarrow> write_on_its_way t))
    \<and> (tc_is_connecting t \<longrightarrow> \<not> isConnected t \<and> resolving_or_opening t)
    \<and> ((isConnected t \<or> tc_is_connecting t) \<and> tc_disconnect_requested t \<longrightarrow> DisconnectTask \<in> set (tc_strand t))
    \<and> (\<not> isConnected t \<longrightarrow> tc_write_queue t = [] \<and> \<not> tc_is_writing t)"
  using client_run_ok [OF assms] by (simp add: client_ok_def isConnected_def)

text \<open>C27.  What a read delivers: the frames that are complete, in order, up to and including the
  first for which the message callback disconnects or throws; then the client tears the
  connection down and reads no more, and otherwise it reads on with the bytes left over.\<close>

theorem read_dispatches:
  assumes "isValidGeneration g t" "isConnected t" "\<not> tc_disconnect_requested t" "tc_message_cb t"
    "client_calls message_cb (fst (frames load (tc_read_buffer t @ bytes))) = (called, eff)"
    "t' = on_read load message_cb g (Some bytes) t"
  shows "tc_events t' = tc_events t @ map OnMessage called
    \<and> (eff = CbReturns \<longrightarrow> called = fst (frames load (tc_read_buffer t @ bytes))
        \<and> tc_read_buffer t' = snd (frames load (tc_read_buffer t @ bytes))
        \<and> tc_reading t' = tc_reading t @ [tc_active_connect_generation t] \<and> tc_strand t' = tc_strand t)
    \<and> (eff \<noteq> CbReturns \<longrightarrow> tc_disconnect_requested t' \<and> tc_reading t' = tc_reading t
        \<and> tc_strand t' = tc_strand t @ [DisconnectTask])"
proof -
  have all: "snd (client_calls message_cb ps) = CbReturns \<Longrightarrow> fst (client_calls message_cb ps) = ps" for ps
    by (induction ps) (auto split: if_splits)
  have "called = fst (frames load (tc_read_buffer t @ bytes))" if "eff = CbReturns"
    using all [of "fst (frames load (tc_read_buffer t @ bytes))"] assms(5) that by simp
  moreover have "tc_is_connected t" using assms(2) by (simp add: isConnected_def)
  ultimately show ?thesis
    using on_read_live [OF assms(1) _ assms(3,4,5)] assms(3)
    by (auto simp: assms(6) Let_def doRead_def client_disconnect_def split: if_splits)
qed

section \<open>Witnesses\<close>

definition new_client :: TcpClient where
  "new_client = setDisconnectCallback (setMessageCallback TcpClient_ctor)"

lemmas new_client_defs = new_client_def setDisconnectCallback_def setMessageCallback_def TcpClient_ctor_def

text \<open>A client on its way to a connection, after each step.\<close>

definition pending_client :: "nat \<Rightarrow> TcpClient" where
  "pending_client c = new_client\<lparr>tc_is_connecting := True, tc_pending_connect_callback := Some c\<rparr>"

definition client_at :: "nat \<Rightarrow> nat \<Rightarrow> TcpClient" where
  "client_at c n = [new_client, new_client\<lparr>tc_strand := [ConnectTask c]\<rparr>,
     (pending_client c)\<lparr>tc_resolver := True, tc_resolving := [0]\<rparr>,
     (pending_client c)\<lparr>tc_resolver := True, tc_strand := [Resolved 0 True]\<rparr>,
     (pending_client c)\<lparr>tc_opening := [0]\<rparr>, (pending_client c)\<lparr>tc_strand := [Opened 0 True]\<rparr>,
     new_client\<lparr>tc_is_connected := True, tc_reading := [0], tc_events := [OnConnect c True]\<rparr>] ! n"

lemmas client_at_defs = client_at_def pending_client_def new_client_defs

lemma client_at_steps:
  "client_step store load cb (client_at c 0) (CConnect c) (client_at c 1)"
  "client_step store load cb (client_at c 1) (CRun (ConnectTask c)) (client_at c 2)"
  "client_step store load cb (client_at c 2) (CResolve True) (client_at c 3)"
  "client_step store load cb (client_at c 3) (CRun (Resolved 0 True)) (client_at c 4)"
  "client_step store load cb (client_at c 4) (COpen True) (client_at c 5)"
  "client_step store load cb (client_at c 5) (CRun (Opened 0 True)) (client_at c 6)"
proof -
  show "client_step store load cb (client_at c 0) (CConnect c) (client_at c 1)"
    using client_step.c_connect [of store load cb "client_at c 0" c] by (simp add: client_connect_def client_at_defs)
  show "client_step store load cb (client_at c 1) (CRun (ConnectTask c)) (client_at c 2)"
    using client_step.c_run [of "client_at c 1" "ConnectTask c" "[]" store load cb]
    by (simp add: run_client_task_def on_connect_task_def Let_def client_at_defs)
  show "client_step store load cb (client_at c 2) (CResolve True) (client_at c 3)"
    using client_step.c_resolve [of "client_at c 2" "[]" 0 "[]" store load cb True] by (simp add: client_at_defs)
  show "client_step store load cb (client_at c 3) (CRun (Resolved 0 True)) (client_at c 4)"
    using client_step.c_run [of "client_at c 3" "Resolved 0 True" "[]" store load cb]
    by (simp add: run_client_task_def on_resolved_def isValidGeneration_def Let_def client_at_defs)
  show "client_step store load cb (client_at c 4) (COpen True) (client_at c 5)"
    using client_step.c_open [of "client_at c 4" "[]" 0 "[]" store load cb True] by (simp add: client_at_defs)
  show "client_step store load cb (client_at c 5) (CRun (Opened 0 True)) (client_at c 6)"
    using client_step.c_run [of "client_at c 5" "Opened 0 True" "[]" store load cb]
    by (simp add: run_client_task_def on_connected_def isValidGeneration_def invokeConnectCallback_def doRead_def Let_def
        client_at_defs)
qed

definition connected_client :: TcpClient where
  "connected_client = client_at 7 6"

lemma connected_client_eq:
  "connected_client = new_client\<lparr>tc_is_connected := True, tc_reading := [0], tc_events := [OnConnect 7 True]\<rparr>"
  by (simp add: connected_client_def client_at_def)

definition connecting_trace :: "client_label list" where
  "connecting_trace = [CConnect 7, CRun (ConnectTask 7), CResolve True, CRun (Resolved 0 True), COpen True, CRun (Opened 0 True)]"

lemma connected_client_run: "client_run store load message_cb connecting_trace connected_client"
proof -
  have r0: "client_run store load message_cb [] (client_at 7 0)"
    using client_run.c_created by (simp add: client_at_def new_client_def)
  note run = client_run.c_stepped
  note s = client_at_steps [of store load message_cb 7]
  from run [OF run [OF run [OF run [OF run [OF run [OF r0 s(1)] s(2)] s(3)] s(4)] s(5)] s(6)]
  show ?thesis by (simp add: connecting_trace_def connected_client_def)
qed

theorem connect_answered_once_witness: "answers 7 connected_client = 1 \<and> answers 8 connected_client = 0"
  using connect_answered_once [OF connected_client_run [of be_bytes be_value "\<lambda>_. CbReturns"], of 7]
    connect_answered_once [OF connected_client_run [of be_bytes be_value "\<lambda>_. CbReturns"], of 8]
  by (simp add: requests_def connecting_trace_def connected_client_eq new_client_defs)

theorem disconnect_reported_once_witness: "established connected_client = 1 \<and> lost connected_client = 0"
proof -
  have "lost connected_client = 0" by (simp add: lost_def connected_client_eq new_client_defs)
  then show ?thesis using disconnect_reported_once [OF connected_client_run [of be_bytes be_value "\<lambda>_. CbReturns"]]
    by (simp add: isConnected_def connected_client_eq)
qed

theorem client_never_stalls_witness: "read_on_its_way connected_client"
  using client_never_stalls [OF connected_client_run [of be_bytes be_value "\<lambda>_. CbReturns"]]
  by (simp add: isConnected_def connected_client_eq new_client_defs)

theorem read_dispatches_witness:
  "tc_events (on_read be_value (\<lambda>p. if p = [2] then CbDisconnects else CbReturns) 0
      (Some (wire be_bytes [1] @ wire be_bytes [2] @ wire be_bytes [3])) connected_client)
    = [OnConnect 7 True, OnMessage [1], OnMessage [2]]"
proof -
  let ?cb = "\<lambda>p :: byte list. if p = [2] then CbDisconnects else CbReturns"
  have "frames be_value (concat (map (wire be_bytes) [[1], [2], [3]])) = ([[1], [2], [3]], [])"
    by (rule frame_stream.dec_encs) (simp add: frame_ok_def kMaxMessageSize_def)
  then have f: "frames be_value (tc_read_buffer connected_client @ wire be_bytes [1] @ wire be_bytes [2] @ wire be_bytes [3])
      = ([[1], [2], [3]], [])" by (simp add: connected_client_eq new_client_defs)
  have calls: "client_calls ?cb (fst (frames be_value (tc_read_buffer connected_client @ wire be_bytes [1] @ wire be_bytes [2]
      @ wire be_bytes [3]))) = ([[1], [2]], CbDisconnects)" unfolding f by simp
  have c: "isValidGeneration 0 connected_client" "isConnected connected_client" "\<not> tc_disconnect_requested connected_client"
    "tc_message_cb connected_client" "tc_events connected_client = [OnConnect 7 True]"
    by (simp_all add: isValidGeneration_def isConnected_def connected_client_eq new_client_defs)
  from read_dispatches [OF c(1-4) calls refl] show ?thesis by (simp add: c(5))
qed

end
