(* ===== verification/Format.thy ===== *)
theory Format
  imports Prelude
begin

text \<open>
  What the source uses of \<open>std::format\<close>: numbers in decimal, also filled up with zeros to a
  width, and \<open>find_last_of\<close> of a string.
\<close>

section \<open>Numbers\<close>

fun to_decimal :: "nat \<Rightarrow> string" where
  "to_decimal n = (if n < 10 then [char_of (48 + n)] else to_decimal (n div 10) @ [char_of (48 + n mod 10)])"

declare to_decimal.simps [simp del]

definition int_decimal :: "int \<Rightarrow> string" where
  "int_decimal i = (if i < 0 then CHR ''-'' # to_decimal (nat (- i)) else to_decimal (nat i))"

definition zero_padded :: "nat \<Rightarrow> nat \<Rightarrow> string" where
  "zero_padded width n = replicate (width - length (to_decimal n)) (CHR ''0'') @ to_decimal n"

lemma to_decimal_not_empty: "to_decimal n \<noteq> []"
  by (subst to_decimal.simps) simp

lemma length_to_decimal: "n < 10 ^ k \<Longrightarrow> 0 < k \<Longrightarrow> length (to_decimal n) \<le> k"
proof (induction k arbitrary: n)
  case (Suc k)
  show ?case
  proof (cases "n < 10")
    case False
    then have "0 < k" using Suc.prems(1) by (cases k) simp_all
    moreover have "n div 10 < 10 ^ k" using Suc.prems(1) by (simp add: less_mult_imp_div_less mult.commute)
    ultimately have "length (to_decimal (n div 10)) \<le> k" by (rule Suc.IH [rotated])
    with False show ?thesis by (subst to_decimal.simps) simp
  qed (subst to_decimal.simps, simp)
qed simp

text \<open>Printing loses nothing.\<close>

definition decimal_value :: "string \<Rightarrow> nat" where
  "decimal_value s = foldl (\<lambda>n c. 10 * n + (of_char c - 48)) 0 s"

lemma decimal_value_append: "decimal_value (s @ [c]) = 10 * decimal_value s + (of_char c - 48)"
  by (simp add: decimal_value_def)

lemma decimal_value_to_decimal: "decimal_value (to_decimal n) = n"
proof (induction n rule: to_decimal.induct)
  case (1 n)
  have digit: "of_char (char_of (48 + d :: nat)) - 48 = d" if "d < 10" for d using that by simp
  show ?case
  proof (cases "n < 10")
    case True
    then show ?thesis using digit [of n] by (subst to_decimal.simps) (simp add: decimal_value_def)
  next
    case False
    with 1 digit [of "n mod 10"] show ?thesis
      by (subst to_decimal.simps) (simp add: decimal_value_append)
  qed
qed

lemma to_decimal_inject: "to_decimal m = to_decimal n \<longleftrightarrow> m = n"
  using decimal_value_to_decimal by metis

lemma decimal_value_zeros: "decimal_value (replicate k (CHR ''0'') @ s) = decimal_value s"
  by (induction k) (simp_all add: decimal_value_def)

lemma decimal_value_padded: "decimal_value (zero_padded width n) = n"
  by (simp add: zero_padded_def decimal_value_zeros decimal_value_to_decimal)

lemma length_zero_padded: "n < 10 ^ width \<Longrightarrow> 0 < width \<Longrightarrow> length (zero_padded width n) = width"
  using length_to_decimal [of n width] by (simp add: zero_padded_def)

section \<open>Searching\<close>

text \<open>The position of the last character of \<open>s\<close> that is in \<open>chars\<close>.\<close>

fun find_last_of :: "string \<Rightarrow> string \<Rightarrow> nat option" where
  "find_last_of chars [] = None"
| "find_last_of chars (c # s) =
     (case find_last_of chars s of
        Some i \<Rightarrow> Some (Suc i)
      | None \<Rightarrow> if c \<in> set chars then Some 0 else None)"

lemma find_last_of_None: "find_last_of chars s = None \<longleftrightarrow> set s \<inter> set chars = {}"
  by (induction s) (auto split: option.splits)

lemma find_last_of_append:
  "c \<in> set chars \<Longrightarrow> set t \<inter> set chars = {} \<Longrightarrow> find_last_of chars (s @ c # t) = Some (length s)"
  by (induction s) (simp_all add: find_last_of_None [THEN iffD2])

end
