(* ===== verification/ClientView.thy ===== *)
theory ClientView
  imports GameSnapshot Format
begin

text \<open>
  src/src/client: the client's copy of the world (client_world.h, client_world.cpp) and what is
  drawn of it (death_screen, score_view, leaderboard_view).  A text drawn is the argument of
  \<open>IRenderer::drawText\<close>.
\<close>

section \<open>The world of the client\<close>

record ClientWorld =
  cw_my_player_id :: EntityId
  cw_entities :: "EntityId \<rightharpoonup> EntitySnapshot"
  cw_leaderboard :: "LeaderboardEntry list"

definition ClientWorld_init :: ClientWorld where
  "ClientWorld_init = \<lparr>cw_my_player_id = 0, cw_entities = Map.empty, cw_leaderboard = []\<rparr>"

text \<open>\<open>emplace\<close> keeps what is there.\<close>

definition emplace_entity :: "EntitySnapshot \<Rightarrow> (EntityId \<rightharpoonup> EntitySnapshot) \<Rightarrow> (EntityId \<rightharpoonup> EntitySnapshot)" where
  "emplace_entity entity m = (if m (s_id entity) = None then m(s_id entity \<mapsto> entity) else m)"

definition updateSnapshot :: "GameSnapshot \<Rightarrow> EntityId \<Rightarrow> ClientWorld \<Rightarrow> ClientWorld" where
  "updateSnapshot game_snapshot my_player_id w =
     w\<lparr>cw_my_player_id := my_player_id, cw_leaderboard := gs_leaderboard game_snapshot,
       cw_entities := fold emplace_entity (gs_snapshots game_snapshot) Map.empty\<rparr>"

definition isMyPlayerAlive :: "ClientWorld \<Rightarrow> bool" where
  "isMyPlayerAlive w =
     (case cw_entities w (cw_my_player_id w) of None \<Rightarrow> False | Some e \<Rightarrow> \<not> s_is_destroyed e)"

section \<open>Texts\<close>

type_synonym drawn = "string \<times> int \<times> int"

section \<open>The death screen\<close>

record DeathScreen =
  ds_is_active :: bool

definition DeathScreen_init :: DeathScreen where "DeathScreen_init = \<lparr>ds_is_active = False\<rparr>"

definition setActive :: "bool \<Rightarrow> DeathScreen \<Rightarrow> DeathScreen" where
  "setActive active d = d\<lparr>ds_is_active := active\<rparr>"

definition updateDeathScreen :: "ClientWorld \<Rightarrow> DeathScreen \<Rightarrow> DeathScreen" where
  "updateDeathScreen w d = setActive (\<not> isMyPlayerAlive w) d"

definition DeathScreen_render :: "int \<Rightarrow> int \<Rightarrow> DeathScreen \<Rightarrow> drawn list" where
  "DeathScreen_render finalScore place d =
     (if \<not> ds_is_active d then []
      else [(''YOU DIED'', 400, 300),
            (''Score: '' @ int_decimal finalScore @ '' | Place: '' @ int_decimal place, 400, 330)])"

section \<open>The score\<close>

record ScoreView =
  vw_last_score :: u32
  vw_cached_text :: string
  vw_is_initialized :: bool

definition ScoreView_init :: ScoreView where
  "ScoreView_init = \<lparr>vw_last_score = 0, vw_cached_text = [], vw_is_initialized = False\<rparr>"

definition current_score :: "ClientWorld \<Rightarrow> u32" where
  "current_score w =
     (case cw_entities w (cw_my_player_id w) of
        None \<Rightarrow> 0
      | Some e \<Rightarrow> (case s_ship e of None \<Rightarrow> 0 | Some ship \<Rightarrow> ss_score ship))"

definition ScoreView_render :: "ClientWorld \<Rightarrow> ScoreView \<Rightarrow> drawn \<times> ScoreView" where
  "ScoreView_render w v =
     (let score = current_score w;
          v = (if \<not> vw_is_initialized v \<or> score \<noteq> vw_last_score v
               then \<lparr>vw_last_score = score, vw_cached_text = ''Score: '' @ to_decimal (unat score), vw_is_initialized = True\<rparr>
               else v)
      in ((vw_cached_text v, 10, 10), v))"

section \<open>The leaderboard\<close>

definition kBufferSize :: nat where "kBufferSize = 128"

definition leaderboard_text :: "nat \<Rightarrow> LeaderboardEntry \<Rightarrow> string" where
  "leaderboard_text i e = to_decimal (i + 1) @ ''. '' @ le_name e @ '' - '' @ to_decimal (unat (le_score e))"

text \<open>\<open>format_to_n\<close> writes at most all but one of the bytes of the buffer but returns the length of the whole
  text, which many bytes are then copied from the buffer: past its end the copy is undefined,
  \<open>None\<close> here.\<close>

definition leaderboard_line :: "nat \<Rightarrow> LeaderboardEntry \<Rightarrow> string option" where
  "leaderboard_line i e =
     (let text = leaderboard_text i e;
          count = length text;
          buffer = take (kBufferSize - 1) text @ [NUL]
      in if kBufferSize < count then None else Some (take count buffer))"

fun leaderboard_loop :: "nat \<Rightarrow> int \<Rightarrow> LeaderboardEntry list \<Rightarrow> drawn list option" where
  "leaderboard_loop i current_y [] = Some []"
| "leaderboard_loop i current_y (e # entries) =
     (case leaderboard_line i e of
        None \<Rightarrow> None
      | Some line \<Rightarrow> map_option (Cons (line, 500, current_y)) (leaderboard_loop (i + 1) (current_y + 25) entries))"

definition LeaderboardView_render :: "ClientWorld \<Rightarrow> drawn list option" where
  "LeaderboardView_render w = leaderboard_loop 0 50 (cw_leaderboard w)"

section \<open>Lemmas\<close>

lemma length_score_text: "length (to_decimal (unat (u :: u32))) \<le> 10"
proof (rule length_to_decimal)
  show "unat u < 10 ^ 10" using unat_bounds(3) [of u] by simp
qed simp

lemma readLeaderboard_names:
  "readLeaderboard n u = Inr (es, r) \<Longrightarrow> e \<in> set es \<Longrightarrow> length (le_name e) \<le> 32"
proof (induction n arbitrary: u es)
  case (Suc n)
  from Suc.prems(1) obtain name u1 score u2 rest where
    r: "readBytes 32 u = Inr (name, u1)" "readU32 u1 = Inr (score, u2)" "readLeaderboard n u2 = Inr (rest, r)"
      "es = \<lparr>le_name = before_char NUL (to_text name), le_score = score\<rparr> # rest"
    by (auto simp: and_then_Inr_iff)
  have "length name \<le> 32" using r(1) by (auto simp: readBytes_def split: sum.splits)
  with r(4) Suc.IH [OF r(3)] Suc.prems(2) length_before_char [of NUL "to_text name"] show ?case by auto
qed simp

lemma leaderboard_line_ok:
  assumes "length (le_name e) \<le> 32" "i < 10"
  shows "leaderboard_line i e = Some (leaderboard_text i e)"
proof -
  have "length (to_decimal (i + 1)) \<le> 2" by (rule length_to_decimal) (use assms(2) in simp_all)
  then have "length (leaderboard_text i e) \<le> 127"
    using assms(1) length_score_text [of "le_score e"] by (simp add: leaderboard_text_def)
  then show ?thesis by (simp add: leaderboard_line_def kBufferSize_def)
qed

lemma leaderboard_loop_ok:
  assumes "\<forall>e\<in>set es. length (le_name e) \<le> 32" "i + length es \<le> 10"
  shows "leaderboard_loop i y es =
    Some (map (\<lambda>j. (leaderboard_text (i + j) (es ! j), 500, y + 25 * int j)) [0..<length es])"
  using assms
proof (induction es arbitrary: i y)
  case (Cons e es)
  have "map (\<lambda>j. (leaderboard_text (i + j) ((e # es) ! j), 500 :: int, y + 25 * int j)) [0..<length (e # es)]
      = (leaderboard_text i e, 500, y) # map (\<lambda>j. (leaderboard_text (i + 1 + j) (es ! j), 500, y + 25 + 25 * int j)) [0..<length es]"
    by (simp add: upt_conv_Cons map_Suc_upt [symmetric] o_def del: upt_Suc)
  with Cons.IH [of "i + 1" "y + 25"] Cons.prems leaderboard_line_ok [of e i] show ?case by simp
qed simp

lemma fold_emplace: "fold emplace_entity es m k = (case m k of Some e \<Rightarrow> Some e | None \<Rightarrow> find (\<lambda>e. s_id e = k) es)"
  by (induction es arbitrary: m) (auto simp: emplace_entity_def split: option.split)

section \<open>Properties\<close>

text \<open>C39.  The leaderboard of every snapshot that was parsed is drawn in full: each line fits the fixed
  buffer, so nothing past its end is ever read, and line \<open>i\<close> is place \<open>i + 1\<close>, name and score,
  25 pixels below the one before it.\<close>

theorem leaderboard_drawn:
  assumes "Deserialize fb buffer = Inr g"
  shows "LeaderboardView_render (updateSnapshot g my_player_id w) =
    Some (map (\<lambda>j. (leaderboard_text j (gs_leaderboard g ! j), 500, 50 + 25 * int j)) [0..<length (gs_leaderboard g)])"
proof -
  from assms obtain t r1 lb r2 es where
    "readU32 buffer = Inr (t, r1)" "readLeaderboardSection r1 = Inr (lb, r2)" "gs_leaderboard g = lb"
    by (auto simp: Deserialize_def and_then_Inr_iff)
  then obtain n r0 where lb: "readLeaderboard n r0 = Inr (gs_leaderboard g, r2)" "n \<le> 10"
    by (auto simp: readLeaderboardSection_def and_then_Inr_iff kMaxLeaderboardSize_def split: if_splits)
  have "\<forall>e\<in>set (gs_leaderboard g). length (le_name e) \<le> 32" using readLeaderboard_names [OF lb(1)] by blast
  moreover have "length (gs_leaderboard g) \<le> 10" using readLeaderboard_length [OF lb(1)] lb(2) by simp
  ultimately show ?thesis
    using leaderboard_loop_ok [of "gs_leaderboard g" 0 50] by (simp add: LeaderboardView_render_def updateSnapshot_def)
qed

text \<open>The score is cached but never stale: whatever was rendered before, a render draws the
  score of the world it is given.\<close>

theorem score_never_stale:
  "fst (ScoreView_render w (fold (\<lambda>w v. snd (ScoreView_render w v)) ws ScoreView_init)) =
     (''Score: '' @ to_decimal (unat (current_score w)), 10, 10)"
proof -
  have "vw_is_initialized v \<longrightarrow> vw_cached_text v = ''Score: '' @ to_decimal (unat (vw_last_score v))"
    if "v = fold (\<lambda>w v. snd (ScoreView_render w v)) ws ScoreView_init" for v
    using that
  proof (induction ws arbitrary: v rule: rev_induct)
    case Nil
    then show ?case by (simp add: ScoreView_init_def)
  next
    case (snoc x ws)
    then show ?case by (simp add: ScoreView_render_def Let_def)
  qed
  then show ?thesis by (simp add: ScoreView_render_def Let_def)
qed

text \<open>After a snapshot the death screen is shown exactly if the first entity of the snapshot
  with the number of the player is missing or destroyed: it appears at death and goes at respawn.\<close>

theorem death_screen_follows:
  "DeathScreen_render score place (updateDeathScreen (updateSnapshot g k w) d) = [] \<longleftrightarrow>
     (\<exists>e. find (\<lambda>e. s_id e = k) (gs_snapshots g) = Some e \<and> \<not> s_is_destroyed e)"
  by (auto simp: DeathScreen_render_def updateDeathScreen_def setActive_def isMyPlayerAlive_def updateSnapshot_def
      fold_emplace split: option.split)

section \<open>Witnesses\<close>

theorem leaderboard_drawn_witness:
  "\<exists>bytes g. Serialize sample_fb sample_snapshot = Inr bytes \<and> Deserialize sample_fb bytes = Inr g
    \<and> LeaderboardView_render (updateSnapshot g 4 ClientWorld_init) = Some [(''1. Ann - 30'', 500, 50)]"
proof -
  obtain bytes where b: "Serialize sample_fb sample_snapshot = Inr bytes"
    "Deserialize sample_fb bytes = Inr (sample_snapshot\<lparr>gs_leaderboard := map seen_entry (gs_leaderboard sample_snapshot)\<rparr>)"
    using serialize_parse [OF _ _ sample_snapshot_ok] by (auto simp: sample_snapshot_def kMaxLeaderboardSize_def)
  have "leaderboard_text 0 (seen_entry \<lparr>le_name = ''Ann'', le_score = 30\<rparr>) = ''1. Ann - 30''"
    by (simp add: leaderboard_text_def seen_entry_def wire_name_def before_char_def NUL_def to_decimal.simps char_of_def bit_0)
  then have "LeaderboardView_render (updateSnapshot (sample_snapshot\<lparr>gs_leaderboard := map seen_entry (gs_leaderboard sample_snapshot)\<rparr>)
      4 ClientWorld_init) = Some [(''1. Ann - 30'', 500, 50)]"
    using leaderboard_drawn [OF b(2), of 4 ClientWorld_init] by (simp add: sample_snapshot_def)
  with b show ?thesis by blast
qed

end
