(* ===== verification/GameController.thy ===== *)
theory GameController
  imports TcpClient ClientView Protocol
begin

text \<open>
  src/src/client/game_controller.h, game_controller.cpp and client_state.h: the state machine of
  the client.  The controller holds the transport and its strand is a second FIFO; the callbacks
  wired into the transport post to it, so each event of the transport becomes a handler of the
  controller.  The connect callback is named by its generation.  Time is in nanoseconds, a signed
  64-bit count; a difference that overflows is undefined in the source and wraps around here.
\<close>

section \<open>The controller\<close>

datatype ClientState = Disconnected | Connecting | Connected | Joining | InGame | GameOver

fun convertStateToString :: "ClientState \<Rightarrow> string" where
  "convertStateToString Disconnected = ''Disconnected''"
| "convertStateToString Connecting = ''Connecting''"
| "convertStateToString Connected = ''Connected''"
| "convertStateToString Joining = ''Joining''"
| "convertStateToString InGame = ''InGame''"
| "convertStateToString GameOver = ''GameOver''"

datatype game_task =
    TStart string
  | TShutdown
  | TRejoin string
  | TMessage "byte list"
  | TDisconnected
  | TConnectResult bool u64
  | TShoot

type_synonym time_point = "64 word"

definition time_point_min :: time_point where "time_point_min = push_bit 63 1"

definition kShootCooldown :: time_point where "kShootCooldown = 50000000"

record GameController =
  gc_tcp :: TcpClient
  gc_strand :: "game_task list"
  gc_state :: ClientState
  gc_connectGen :: u64
  gc_playerName :: string
  gc_world :: ClientWorld
  gc_last_shot_time :: time_point

definition wireCallbacks :: "TcpClient \<Rightarrow> TcpClient" where
  "wireCallbacks tcp = setDisconnectCallback (setMessageCallback tcp)"

definition GameController_create :: "TcpClient option \<Rightarrow> exn + GameController" where
  "GameController_create tcp =
     (case tcp of
        None \<Rightarrow> Inl (InvalidArgument ''GameController::create: tcp must not be null'')
      | Some t \<Rightarrow> Inr \<lparr>gc_tcp = wireCallbacks t, gc_strand = [], gc_state = Disconnected, gc_connectGen = 0,
          gc_playerName = [], gc_world = ClientWorld_init, gc_last_shot_time = time_point_min\<rparr>)"

definition validatePlayerName :: "string \<Rightarrow> bool" where
  "validatePlayerName name \<longleftrightarrow> name \<noteq> [] \<and> (\<forall>c\<in>set name. \<not> (of_char c \<le> (0x20 :: nat) \<or> of_char c = (0x7f :: nat)))"

abbreviation gc_post :: "game_task \<Rightarrow> GameController \<Rightarrow> GameController" where
  "gc_post h g \<equiv> g\<lparr>gc_strand := gc_strand g @ [h]\<rparr>"

section \<open>Calls\<close>

definition game_start :: "string \<Rightarrow> GameController \<Rightarrow> GameController" where
  "game_start playerName g = (if \<not> validatePlayerName playerName then g else gc_post (TStart playerName) g)"

definition game_shutdown :: "GameController \<Rightarrow> GameController" where
  "game_shutdown g = gc_post TShutdown g"

definition game_rejoin :: "string \<Rightarrow> GameController \<Rightarrow> GameController" where
  "game_rejoin playerName g = (if \<not> validatePlayerName playerName then g else gc_post (TRejoin playerName) g)"

definition game_shoot :: "GameController \<Rightarrow> GameController" where
  "game_shoot g = gc_post TShoot g"

section \<open>Handlers\<close>

definition setState :: "ClientState \<Rightarrow> GameController \<Rightarrow> GameController" where
  "setState next_state g = (if gc_state g = next_state then g else g\<lparr>gc_state := next_state\<rparr>)"

definition doStart :: "string \<Rightarrow> GameController \<Rightarrow> GameController" where
  "doStart playerName g =
     (if gc_state g \<noteq> Disconnected then g
      else
        let g = setState Connecting (g\<lparr>gc_playerName := playerName\<rparr>);
            gen = gc_connectGen g + 1;
            g = g\<lparr>gc_connectGen := gen\<rparr>
        in g\<lparr>gc_tcp := client_connect (unat gen) (gc_tcp g)\<rparr>)"

definition doShutdown :: "GameController \<Rightarrow> GameController" where
  "doShutdown g =
     (let g = g\<lparr>gc_connectGen := gc_connectGen g + 1\<rparr>;
          g = g\<lparr>gc_tcp := client_disconnect (gc_tcp g)\<rparr>
      in setState Disconnected g)"

definition sendJoin :: "(u32 \<Rightarrow> byte list) \<Rightarrow> GameController \<Rightarrow> GameController" where
  "sendJoin store g =
     setState Joining (g\<lparr>gc_tcp := client_send store (encode_join \<lparr>jm_playerName = gc_playerName g\<rparr>) (gc_tcp g)\<rparr>)"

definition on_connect_result :: "(u32 \<Rightarrow> byte list) \<Rightarrow> bool \<Rightarrow> u64 \<Rightarrow> GameController \<Rightarrow> GameController" where
  "on_connect_result store ok gen g =
     (if gc_connectGen g \<noteq> gen then g
      else if gc_state g \<noteq> Connecting then g
      else if \<not> ok then setState Disconnected g
      else sendJoin store (setState Connected g))"

definition on_disconnected :: "GameController \<Rightarrow> GameController" where
  "on_disconnected g =
     (if gc_state g = Disconnected \<or> gc_state g = Connecting then g else setState Disconnected g)"

definition onMessageOnStrand :: "byte list \<Rightarrow> GameController \<Rightarrow> GameController" where
  "onMessageOnStrand payload g =
     (if gc_state g = Disconnected then g
      else case sm_type (decode payload) of
        Accept \<Rightarrow> setState InGame g
      | Reject \<Rightarrow> doShutdown g
      | GameEnd \<Rightarrow> setState GameOver g
      | Unknown \<Rightarrow> g)"

definition doShoot :: "(u32 \<Rightarrow> byte list) \<Rightarrow> time_point \<Rightarrow> GameController \<Rightarrow> GameController" where
  "doShoot store now g =
     (if gc_state g \<noteq> InGame then g
      else if \<not> isMyPlayerAlive (gc_world g) then g
      else if now - gc_last_shot_time g <s kShootCooldown then g
      else g\<lparr>gc_last_shot_time := now, gc_tcp := client_send store encodeShoot (gc_tcp g)\<rparr>)"

definition run_game_task :: "(u32 \<Rightarrow> byte list) \<Rightarrow> time_point \<Rightarrow> game_task \<Rightarrow> GameController \<Rightarrow> GameController" where
  "run_game_task store now h g =
     (case h of
        TStart name \<Rightarrow> doStart name g
      | TShutdown \<Rightarrow> doShutdown g
      | TRejoin name \<Rightarrow> doStart name (doShutdown g)
      | TMessage payload \<Rightarrow> onMessageOnStrand payload g
      | TDisconnected \<Rightarrow> on_disconnected g
      | TConnectResult ok gen \<Rightarrow> on_connect_result store ok gen g
      | TShoot \<Rightarrow> doShoot store now g)"

section \<open>The two strands\<close>

text \<open>What a callback posts.\<close>

definition task_of_event :: "client_event \<Rightarrow> game_task" where
  "task_of_event e = (case e of
      OnConnect gen ok \<Rightarrow> TConnectResult ok (of_nat gen)
    | OnMessage payload \<Rightarrow> TMessage payload
    | OnDisconnect \<Rightarrow> TDisconnected)"

definition after_client_step :: "TcpClient \<Rightarrow> GameController \<Rightarrow> GameController" where
  "after_client_step t g =
     g\<lparr>gc_tcp := t, gc_strand := gc_strand g @ map task_of_event (drop (length (tc_events (gc_tcp g))) (tc_events t))\<rparr>"

datatype game_label = GStart string | GShutdown | GRejoin string | GShoot | GNet client_label | GRun time_point game_task

inductive game_step ::
  "(u32 \<Rightarrow> byte list) \<Rightarrow> (byte list \<Rightarrow> u32) \<Rightarrow> GameController \<Rightarrow> game_label \<Rightarrow> GameController \<Rightarrow> bool"
  for store :: "u32 \<Rightarrow> byte list" and load :: "byte list \<Rightarrow> u32" where
  g_start: "game_step store load g (GStart name) (game_start name g)"
| g_shutdown: "game_step store load g GShutdown (game_shutdown g)"
| g_rejoin: "game_step store load g (GRejoin name) (game_rejoin name g)"
| g_shoot: "game_step store load g GShoot (game_shoot g)"
| g_net: "client_step store load (\<lambda>_. CbReturns) (gc_tcp g) a t \<Longrightarrow> \<not> is_client_call a \<Longrightarrow>
    game_step store load g (GNet a) (after_client_step t g)"
| g_run: "gc_strand g = h # rest \<Longrightarrow> 0 \<le>s now \<Longrightarrow>
    game_step store load g (GRun now h) (run_game_task store now h (g\<lparr>gc_strand := rest\<rparr>))"

inductive game_run ::
  "(u32 \<Rightarrow> byte list) \<Rightarrow> (byte list \<Rightarrow> u32) \<Rightarrow> game_label list \<Rightarrow> GameController \<Rightarrow> bool"
  for store :: "u32 \<Rightarrow> byte list" and load :: "byte list \<Rightarrow> u32" where
  g_created: "GameController_create (Some TcpClient_ctor) = Inr g \<Longrightarrow> game_run store load [] g"
| g_stepped: "game_run store load tr g \<Longrightarrow> game_step store load g a g' \<Longrightarrow> game_run store load (tr @ [a]) g'"

section \<open>The invariant\<close>

text \<open>The result of the current attempt to connect is on its way.\<close>

definition connect_in_client :: "nat \<Rightarrow> TcpClient \<Rightarrow> bool" where
  "connect_in_client c t \<longleftrightarrow> ConnectTask c \<in> set (tc_strand t) \<or> tc_pending_connect_callback t = Some c"

definition result_on_its_way :: "GameController \<Rightarrow> bool" where
  "result_on_its_way g \<longleftrightarrow> connect_in_client (unat (gc_connectGen g)) (gc_tcp g)
     \<or> (\<exists>ok. TConnectResult ok (gc_connectGen g) \<in> set (gc_strand g))"

text \<open>The frames a client may send: joins with a valid name.\<close>

definition join_frames :: "(u32 \<Rightarrow> byte list) \<Rightarrow> byte list set" where
  "join_frames store = {wire store (encode_join \<lparr>jm_playerName = name\<rparr>) | name. validatePlayerName name}"

definition game_inv :: "(u32 \<Rightarrow> byte list) \<Rightarrow> GameController \<Rightarrow> bool" where
  "game_inv store g \<longleftrightarrow> client_ok (gc_tcp g)
     \<and> gc_state g \<noteq> Connected \<and> gc_last_shot_time g = time_point_min
     \<and> (gc_state g = Connecting \<longrightarrow> validatePlayerName (gc_playerName g) \<and> result_on_its_way g)
     \<and> (\<forall>name. TStart name \<in> set (gc_strand g) \<or> TRejoin name \<in> set (gc_strand g) \<longrightarrow> validatePlayerName name)
     \<and> (\<forall>f\<in>frames_in (gc_tcp g). snd f \<in> join_frames store)"

text \<open>An attempt stays in the client until it is answered.\<close>

lemma connect_in_client_step:
  assumes "client_step store load (\<lambda>_. CbReturns) t a t'" "\<not> is_client_call a" "client_ok t" "connect_in_client c t"
    "tc_events t' = tc_events t @ evs"
  shows "connect_in_client c t' \<or> (\<exists>ok. OnConnect c ok \<in> set evs)"
  using assms(1)
proof (cases rule: client_step.cases)
  case (c_run h rest)
  from run_task_grows [OF assms(3) c_run(3) c_run(2)] obtain more where more: "tc_strand t' = rest @ more" by blast
  show ?thesis
  proof (cases "ConnectTask c \<in> set rest")
    case True
    then show ?thesis using more by (simp add: connect_in_client_def)
  next
    case False
    then have "h = ConnectTask c \<or> tc_pending_connect_callback t = Some c"
      using assms(4) c_run(3) by (auto simp: connect_in_client_def)
    with answers_run [OF assms(3) c_run(3) c_run(2), of c]
    have "tc_pending_connect_callback t' = Some c \<or> answers c t < answers c t'" by (auto simp: of_bool_def split: if_splits)
    moreover have "answers c t' = answers c t + length (filter (\<lambda>e. e = OnConnect c True \<or> e = OnConnect c False) evs)"
      by (simp add: answers_def assms(5))
    ultimately show ?thesis by (auto simp: connect_in_client_def filter_empty_conv)
  qed
qed (use assms(2,4) in \<open>auto simp: is_client_call_def connect_in_client_def\<close>)

text \<open>Handing a call to the transport.\<close>

lemma client_ok_calls:
  "client_ok t \<Longrightarrow> client_ok (client_connect c t)" "client_ok t \<Longrightarrow> client_ok (client_disconnect t)"
  "client_ok t \<Longrightarrow> client_ok (client_send store data t)"
  using client_step_ok [OF client_step.c_connect] client_step_ok [OF client_step.c_disconnect]
    client_step_ok [OF client_step.c_send] by blast+

lemma frames_in_calls:
  "frames_in (client_connect c t) = frames_in t" "frames_in (client_disconnect t) = frames_in t"
  "f \<in> frames_in (client_send store data t) \<Longrightarrow> f \<in> frames_in t \<or> snd f = wire store data"
  by (auto simp: client_connect_def client_disconnect_def client_send_def frames_in_def wire_def split: if_splits sum.splits)

text \<open>The time since the shot before the first, \<open>time_point::min()\<close>, overflows to a negative number.\<close>

lemma min_in_the_future:
  fixes now :: time_point
  assumes "0 \<le>s now"
  shows "now - time_point_min <s kShootCooldown"
proof -
  have bounds: "0 \<le> sint now" "sint now < 2 ^ 63"
    using assms sint_lt [of now] by (simp_all add: word_sle_eq)
  have "now - push_bit 63 1 = word_of_int (sint now - 2 ^ 63)" by (simp add: push_bit_eq_mult)
  moreover have "sint (word_of_int (sint now - 2 ^ 63) :: time_point) = sint now - 2 ^ 63"
    unfolding sint_sbintrunc' using bounds by (simp add: signed_take_bit_int_eq_self)
  ultimately have "sint (now - push_bit 63 1) < 0" using bounds by simp
  moreover have "sint (50000000 :: time_point) = 50000000" by simp
  ultimately show ?thesis by (simp add: word_sless_alt kShootCooldown_def time_point_min_def)
qed

lemma shoot_blocked:
  assumes "gc_last_shot_time g = time_point_min" "0 \<le>s now"
  shows "doShoot store now g = g"
  using min_in_the_future [OF assms(2)] assms(1) by (simp add: doShoot_def)

lemma setState_eq: "setState s g = g\<lparr>gc_state := s\<rparr>"
  by (simp add: setState_def)

lemma doStart_inv:
  assumes "game_inv store g" "validatePlayerName name"
  shows "game_inv store (doStart name g)"
proof (cases "gc_state g = Disconnected")
  case True
  have "connect_in_client c (client_connect c t)" for c t
    by (simp add: connect_in_client_def client_connect_def)
  with True assms client_ok_calls(1) [of "gc_tcp g"] frames_in_calls(1) show ?thesis
    by (simp add: doStart_def setState_eq game_inv_def result_on_its_way_def Let_def)
qed (use assms in \<open>simp add: doStart_def\<close>)

lemma doShutdown_inv:
  assumes "game_inv store g"
  shows "game_inv store (doShutdown g)" "gc_state (doShutdown g) = Disconnected"
  using assms client_ok_calls(2) [of "gc_tcp g"] frames_in_calls(2)
  by (simp_all add: doShutdown_def setState_eq game_inv_def Let_def)

lemma leave_connecting_inv:
  assumes "game_inv store g" "s \<noteq> Connecting" "s \<noteq> Connected"
  shows "game_inv store (setState s g)"
  using assms by (simp add: setState_eq game_inv_def)

lemma sendJoin_inv:
  assumes "game_inv store (g\<lparr>gc_state := Disconnected\<rparr>)" "validatePlayerName (gc_playerName g)"
  shows "game_inv store (sendJoin store (setState Connected g))"
proof -
  have "wire store (encode_join \<lparr>jm_playerName = gc_playerName g\<rparr>) \<in> join_frames store"
    using assms(2) by (auto simp: join_frames_def)
  then have "\<forall>f\<in>frames_in (client_send store (encode_join \<lparr>jm_playerName = gc_playerName g\<rparr>) (gc_tcp g)).
      snd f \<in> join_frames store"
    using assms(1) frames_in_calls(3) by (fastforce simp: game_inv_def)
  with assms(1) client_ok_calls(3) [of "gc_tcp g"] show ?thesis
    by (simp add: sendJoin_def setState_eq game_inv_def)
qed

lemma game_step_inv:
  assumes "game_step store load g a g'" "game_inv store g"
  shows "game_inv store g'"
  using assms(1)
proof (cases rule: game_step.cases)
  case (g_net b t)
  have ok: "client_ok (gc_tcp g)" using assms(2) by (simp add: game_inv_def)
  obtain evs where evs: "tc_events t = tc_events (gc_tcp g) @ evs" "frames_in t \<subseteq> frames_in (gc_tcp g)"
    using client_step_grows [OF g_net(3,4) ok] by blast
  have tasks: "TStart name \<notin> set (map task_of_event evs)" "TRejoin name \<notin> set (map task_of_event evs)" for name
    by (auto simp: task_of_event_def split: client_event.splits)
  have "result_on_its_way g'" if "result_on_its_way g"
  proof (cases "connect_in_client (unat (gc_connectGen g)) (gc_tcp g)")
    case True
    from connect_in_client_step [OF g_net(3,4) ok True evs(1)] show ?thesis
      by (auto simp: g_net(2) result_on_its_way_def after_client_step_def evs(1) task_of_event_def image_iff
          intro!: bexI [rotated])
  next
    case False
    with that show ?thesis by (auto simp: g_net(2) result_on_its_way_def after_client_step_def)
  qed
  with assms(2) client_step_ok [OF g_net(3) ok] tasks evs show ?thesis
    by (auto simp: g_net(2) game_inv_def after_client_step_def)
next
  case (g_run h rest now)
  let ?g = "g\<lparr>gc_strand := rest\<rparr>"
  show ?thesis
  proof (cases "\<exists>ok. h = TConnectResult ok (gc_connectGen g) \<and> gc_state g = Connecting")
    case True
    then obtain ok where h: "h = TConnectResult ok (gc_connectGen g)" "gc_state g = Connecting" by blast
    have "validatePlayerName (gc_playerName ?g)" "game_inv store (?g\<lparr>gc_state := Disconnected\<rparr>)"
      using assms(2) h(2) g_run(3) by (simp_all add: game_inv_def)
    with sendJoin_inv [OF this(2)] h show ?thesis
      by (simp add: g_run(2) run_game_task_def on_connect_result_def setState_eq [of Disconnected])
  next
    case False
    have "result_on_its_way ?g" if "result_on_its_way g" "gc_state g = Connecting"
      using that False g_run(3) by (auto simp: result_on_its_way_def)
    with assms(2) g_run(3) have inv: "game_inv store ?g" by (simp add: game_inv_def)
    show ?thesis
    proof (cases h)
      case (TConnectResult ok gen)
      then have "g' = ?g" using False by (auto simp: g_run(2) run_game_task_def on_connect_result_def)
      with inv show ?thesis by simp
    next
      case (TMessage payload)
      then show ?thesis using inv doShutdown_inv(1) [OF inv] leave_connecting_inv [OF inv]
        by (simp add: g_run(2) run_game_task_def onMessageOnStrand_def split: ServerMsgType.split)
    next
      case TShoot
      have "gc_last_shot_time ?g = time_point_min" using inv by (simp add: game_inv_def)
      from shoot_blocked [OF this g_run(4)] TShoot inv show ?thesis by (simp add: g_run(2) run_game_task_def)
    next
      case (TStart name)
      with assms(2) g_run(3) have "validatePlayerName name" by (simp add: game_inv_def)
      from doStart_inv [OF inv this] TStart show ?thesis by (simp add: g_run(2) run_game_task_def)
    next
      case (TRejoin name)
      with assms(2) g_run(3) have "validatePlayerName name" by (simp add: game_inv_def)
      from doStart_inv [OF doShutdown_inv(1) [OF inv] this] TRejoin show ?thesis by (simp add: g_run(2) run_game_task_def)
    qed (use inv doShutdown_inv(1) [OF inv] leave_connecting_inv [OF inv] in
        \<open>simp_all add: g_run(2) run_game_task_def on_disconnected_def\<close>)
  qed
qed (use assms(2) in \<open>auto simp: game_start_def game_shutdown_def game_rejoin_def game_shoot_def game_inv_def
    result_on_its_way_def\<close>)

lemma game_run_inv: "game_run store load tr g \<Longrightarrow> game_inv store g"
proof (induction rule: game_run.induct)
  case (g_created g)
  then have "g = \<lparr>gc_tcp = new_client, gc_strand = [], gc_state = Disconnected, gc_connectGen = 0,
      gc_playerName = [], gc_world = ClientWorld_init, gc_last_shot_time = time_point_min\<rparr>"
    by (simp add: GameController_create_def wireCallbacks_def new_client_def)
  moreover have "client_ok new_client" using client_run_ok [OF client_run.c_created] by (simp add: new_client_def)
  moreover have "frames_in new_client = {}" by (simp add: frames_in_def new_client_defs)
  ultimately show ?case by (simp add: game_inv_def)
qed (rule game_step_inv)

text \<open>The calls of a handler are steps of the transport.\<close>

lemma client_run_calls:
  assumes "client_run store load cb tr t"
  shows "\<exists>tr'. client_run store load cb tr' (client_connect c t)" "\<exists>tr'. client_run store load cb tr' (client_disconnect t)"
    "\<exists>tr'. client_run store load cb tr' (client_send store data t)"
  using client_run.c_stepped [OF assms client_step.c_connect] client_run.c_stepped [OF assms client_step.c_disconnect]
    client_run.c_stepped [OF assms client_step.c_send] by blast+

lemma game_run_client: "game_run store load tr g \<Longrightarrow> \<exists>tr'. client_run store load (\<lambda>_. CbReturns) tr' (gc_tcp g)"
proof (induction rule: game_run.induct)
  case (g_created g)
  then have "gc_tcp g = setDisconnectCallback (setMessageCallback TcpClient_ctor)"
    by (auto simp: GameController_create_def wireCallbacks_def)
  then show ?case using client_run.c_created by metis
next
  case (g_stepped tr g a g')
  then obtain tr' where run: "client_run store load (\<lambda>_. CbReturns) tr' (gc_tcp g)" by blast
  from g_stepped.hyps(2) show ?case
  proof (cases rule: game_step.cases)
    case (g_net b t)
    then show ?thesis using client_run.c_stepped [OF run g_net(3)] by (auto simp: after_client_step_def)
  next
    case (g_run h rest now)
    note calls = client_run_calls [OF run]
    have shut: "\<exists>tr'. client_run store load (\<lambda>_. CbReturns) tr' (gc_tcp (doShutdown (g\<lparr>gc_strand := rest\<rparr>)))"
      using calls(2) by (simp add: doShutdown_def setState_eq Let_def)
    show ?thesis
    proof (cases h)
      case (TRejoin name)
      from shut obtain tr2 where r2: "client_run store load (\<lambda>_. CbReturns) tr2 (gc_tcp (doShutdown (g\<lparr>gc_strand := rest\<rparr>)))"
        by blast
      show ?thesis using client_run_calls(1) [OF r2] shut TRejoin
        by (simp add: g_run(2) run_game_task_def doStart_def setState_eq Let_def)
    next
      case (TMessage payload)
      then show ?thesis using run shut
        by (auto simp: g_run(2) run_game_task_def onMessageOnStrand_def setState_eq split: ServerMsgType.split)
    qed (use run calls shut in \<open>auto simp: g_run(2) run_game_task_def doStart_def on_connect_result_def sendJoin_def
        on_disconnected_def doShoot_def setState_eq Let_def\<close>)
  qed (use run in \<open>auto simp: game_start_def game_shutdown_def game_rejoin_def game_shoot_def\<close>)
qed

section \<open>Properties\<close>

text \<open>C28.  A client that is connecting never waits in vain: the result of the current attempt is
  in a strand or pending in the transport, whose attempt to resolve or connect is then under way.\<close>

theorem connecting_is_answered:
  assumes "game_run store load tr g" "gc_state g = Connecting"
  shows "result_on_its_way g
    \<and> (tc_pending_connect_callback (gc_tcp g) = Some (unat (gc_connectGen g)) \<longrightarrow> resolving_or_opening (gc_tcp g))"
proof -
  have inv: "game_inv store g" by (rule game_run_inv [OF assms(1)])
  then have "client_ok (gc_tcp g)" "result_on_its_way g" using assms(2) by (simp_all add: game_inv_def)
  then show ?thesis by (auto simp: client_ok_def)
qed

text \<open>C30.  The only thing a client ever sends is a join with a valid name: whatever the player, the
  server and the network do, no shot and no other command is queued, written or on its way.\<close>

theorem client_sends_only_joins:
  assumes "game_run store load tr g" "f \<in> frames_in (gc_tcp g)"
  shows "\<exists>name. validatePlayerName name \<and> snd f = wire store (encode_join \<lparr>jm_playerName = name\<rparr>)"
  using game_run_inv [OF assms(1)] assms(2) by (fastforce simp: game_inv_def join_frames_def)

text \<open>A shot is blocked by the cooldown even for a player that is alive, at any time: the time
  since \<open>time_point::min()\<close> overflows, so the first shot never gets out and there is no second.\<close>

theorem first_shot_never_leaves:
  assumes "game_run store load tr g" "0 \<le>s now"
  shows "doShoot store now (g\<lparr>gc_state := InGame, gc_world := w\<rparr>) = g\<lparr>gc_state := InGame, gc_world := w\<rparr>"
proof -
  have "gc_last_shot_time (g\<lparr>gc_state := InGame, gc_world := w\<rparr>) = time_point_min"
    using game_run_inv [OF assms(1)] by (simp add: game_inv_def)
  from shoot_blocked [OF this assms(2)] show ?thesis .
qed

text \<open>C40.  A late acceptance breaks a rejoin: if one from the old connection is handled after the
  rejoin began, the client believes it is in the game; when the new connection is up, its result is dropped
  because the client is not connecting any more, and the join is never sent.\<close>

theorem late_accept_breaks_rejoin:
  assumes "gc_strand g = [TRejoin name, TMessage (to_bytes ''ACCEPT'')]"
    "g1 = run_game_task store now (TRejoin name) (g\<lparr>gc_strand := [TMessage (to_bytes ''ACCEPT'')]\<rparr>)"
    "g2 = run_game_task store now (TMessage (to_bytes ''ACCEPT'')) (g1\<lparr>gc_strand := []\<rparr>)"
  shows "gc_state g1 = Connecting \<and> gc_state g2 = InGame
    \<and> tc_strand (gc_tcp g2) = tc_strand (gc_tcp g) @ [DisconnectTask, ConnectTask (unat (gc_connectGen g2))]
    \<and> run_game_task store now (TConnectResult True (gc_connectGen g2)) g2 = g2"
proof -
  have accept: "sm_type (decode (to_bytes ''ACCEPT'')) = Accept" by (simp add: decode_def before_char_id space_def)
  have g1: "gc_state g1 = Connecting" "gc_tcp g1 = client_connect (unat (2 + gc_connectGen g)) (client_disconnect (gc_tcp g))"
    "gc_connectGen g1 = 2 + gc_connectGen g"
    by (simp_all add: assms(2) run_game_task_def doStart_def doShutdown_def setState_eq Let_def)
  then have "g2 = g1\<lparr>gc_strand := [], gc_state := InGame\<rparr>"
    by (simp add: assms(3) run_game_task_def onMessageOnStrand_def accept setState_eq)
  with g1 show ?thesis
    by (simp add: run_game_task_def on_connect_result_def client_connect_def client_disconnect_def)
qed

section \<open>Witnesses\<close>

definition new_game :: GameController where
  "new_game = \<lparr>gc_tcp = new_client, gc_strand = [], gc_state = Disconnected, gc_connectGen = 0, gc_playerName = [],
     gc_world = ClientWorld_init, gc_last_shot_time = time_point_min\<rparr>"

text \<open>The game while its transport is at the given stage of connecting.\<close>

definition connecting_game :: "nat \<Rightarrow> GameController" where
  "connecting_game n = new_game\<lparr>gc_tcp := client_at 1 n, gc_state := Connecting, gc_connectGen := 1, gc_playerName := ''Ann''\<rparr>"

lemma new_game_run: "game_run store load [] new_game"
  by (rule game_run.g_created)
    (simp add: GameController_create_def wireCallbacks_def new_game_def new_client_def)

lemma valid_Ann: "validatePlayerName ''Ann''"
  by (simp add: validatePlayerName_def)

lemma connecting_game_run: "game_run store load [GStart ''Ann'', GRun 0 (TStart ''Ann'')] (connecting_game 1)"
proof -
  let ?g = "new_game\<lparr>gc_strand := [TStart ''Ann'']\<rparr>"
  have s1: "game_step store load new_game (GStart ''Ann'') ?g"
    using game_step.g_start [of store load new_game "''Ann''"] valid_Ann by (simp add: game_start_def new_game_def)
  have s2: "game_step store load ?g (GRun 0 (TStart ''Ann'')) (connecting_game 1)"
    using game_step.g_run [of ?g "TStart ''Ann''" "[]" 0 store load]
    by (simp add: run_game_task_def doStart_def setState_eq Let_def new_game_def connecting_game_def client_at_def
        client_connect_def new_client_defs)
  from game_run.g_stepped [OF game_run.g_stepped [OF new_game_run s1] s2] show ?thesis by simp
qed

lemma connecting_game_steps:
  assumes "client_step store load (\<lambda>_. CbReturns) (client_at 1 n) a (client_at 1 m)" "\<not> is_client_call a"
    "tc_events (client_at 1 n) = tc_events (client_at 1 m)"
  shows "game_step store load (connecting_game n) (GNet a) (connecting_game m)"
proof -
  have "gc_tcp (connecting_game n) = client_at 1 n" by (simp add: connecting_game_def new_game_def)
  with game_step.g_net [of store load "connecting_game n" a "client_at 1 m"] assms show ?thesis
    by (simp add: after_client_step_def connecting_game_def new_game_def)
qed

definition joined_game :: "(u32 \<Rightarrow> byte list) \<Rightarrow> GameController" where
  "joined_game store = (connecting_game 6)\<lparr>gc_state := Joining,
     gc_tcp := client_send store (encode_join \<lparr>jm_playerName = ''Ann''\<rparr>) (client_at 1 6)\<rparr>"

lemma joined_game_run: "\<exists>tr. game_run store load tr (joined_game store)"
proof -
  note s = client_at_steps [of store load "\<lambda>_. CbReturns" 1]
  note ev = client_at_defs
  have s2: "game_step store load (connecting_game 1) (GNet (CRun (ConnectTask 1))) (connecting_game 2)"
    by (rule connecting_game_steps [OF s(2)]) (simp_all add: is_client_call_def ev)
  have s3: "game_step store load (connecting_game 2) (GNet (CResolve True)) (connecting_game 3)"
    by (rule connecting_game_steps [OF s(3)]) (simp_all add: is_client_call_def ev)
  have s4: "game_step store load (connecting_game 3) (GNet (CRun (Resolved 0 True))) (connecting_game 4)"
    by (rule connecting_game_steps [OF s(4)]) (simp_all add: is_client_call_def ev)
  have s5: "game_step store load (connecting_game 4) (GNet (COpen True)) (connecting_game 5)"
    by (rule connecting_game_steps [OF s(5)]) (simp_all add: is_client_call_def ev)
  let ?g6 = "(connecting_game 6)\<lparr>gc_strand := [TConnectResult True 1]\<rparr>"
  have tcp: "gc_tcp (connecting_game n) = client_at 1 n" for n by (simp add: connecting_game_def new_game_def)
  have evs: "tc_events (client_at 1 5) = []" "tc_events (client_at 1 6) = [OnConnect 1 True]" by (simp_all add: ev)
  have s6: "game_step store load (connecting_game 5) (GNet (CRun (Opened 0 True))) ?g6"
    using game_step.g_net [of store load "connecting_game 5", OF s(6) [folded tcp]] evs
    by (simp add: is_client_call_def after_client_step_def tcp task_of_event_def)
      (simp add: connecting_game_def new_game_def)
  have s7: "game_step store load ?g6 (GRun 0 (TConnectResult True 1)) (joined_game store)"
    using game_step.g_run [of ?g6 "TConnectResult True 1" "[]" 0 store load]
    by (simp add: run_game_task_def on_connect_result_def sendJoin_def setState_eq joined_game_def
        connecting_game_def new_game_def)
  note run = game_run.g_stepped
  from run [OF run [OF run [OF run [OF run [OF run [OF connecting_game_run s2] s3] s4] s5] s6] s7] show ?thesis by blast
qed

theorem connecting_is_answered_witness: "result_on_its_way (connecting_game 1)"
  using connecting_is_answered [OF connecting_game_run [of be_bytes be_value]] by (simp add: connecting_game_def)

theorem client_sends_only_joins_witness:
  "\<exists>name. validatePlayerName name \<and> wire be_bytes (to_bytes ''JOIN Ann'') = wire be_bytes (encode_join \<lparr>jm_playerName = name\<rparr>)"
proof -
  obtain tr where run: "game_run be_bytes be_value tr (joined_game be_bytes)" using joined_game_run by blast
  have "(0, wire be_bytes (to_bytes ''JOIN Ann'')) \<in> frames_in (gc_tcp (joined_game be_bytes))"
    by (simp add: joined_game_def frames_in_def client_send_def frame_encode_def wire_def encode_join_def kMaxMessageSize_def
        client_at_defs)
  from client_sends_only_joins [OF run this] show ?thesis by simp
qed

theorem first_shot_never_leaves_witness:
  "doShoot be_bytes 1000000000 (new_game\<lparr>gc_state := InGame, gc_world := ClientWorld_init\<rparr>)
     = new_game\<lparr>gc_state := InGame, gc_world := ClientWorld_init\<rparr>"
  by (rule first_shot_never_leaves [OF new_game_run [of be_bytes be_value]]) (simp add: word_sle_eq)

theorem late_accept_breaks_rejoin_witness:
  "\<exists>g :: GameController. gc_state g = InGame \<and> run_game_task be_bytes 5 (TConnectResult True (gc_connectGen g)) g = g"
proof -
  have "gc_strand (new_game\<lparr>gc_strand := [TRejoin ''Ann'', TMessage (to_bytes ''ACCEPT'')]\<rparr>)
      = [TRejoin ''Ann'', TMessage (to_bytes ''ACCEPT'')]" by simp
  from late_accept_breaks_rejoin [OF this refl refl] show ?thesis by blast
qed

end
