(* ===== verification/ClientMain.thy ===== *)
theory ClientMain
  imports GameController
begin

text \<open>
  src/src/client/main.cpp: the program of the client.  One thread runs the handlers of both strands
  inside \<open>run\<close>, which returns when neither a handler nor an operation is left, and then has stopped the
  \<open>io_context\<close>, as Boost.Asio documents; \<open>poll\<close> runs what is ready, and returns at once if
  the context is stopped.
\<close>

section \<open>The program\<close>

datatype main_position = AtStart | InRunCall | AtShutdown | InPoll | AtEnd

record ClientProgram =
  cp_game :: GameController
  cp_stopped :: bool
  cp_at :: main_position

definition transport_work :: "TcpClient \<Rightarrow> bool" where
  "transport_work t \<longleftrightarrow> tc_strand t \<noteq> [] \<or> tc_resolving t \<noteq> [] \<or> tc_opening t \<noteq> [] \<or> tc_reading t \<noteq> [] \<or> tc_writing t \<noteq> []"

definition client_work :: "GameController \<Rightarrow> bool" where
  "client_work g \<longleftrightarrow> gc_strand g \<noteq> [] \<or> transport_work (gc_tcp g)"

text \<open>A handler is ready.\<close>

definition client_ready :: "GameController \<Rightarrow> bool" where
  "client_ready g \<longleftrightarrow> gc_strand g \<noteq> [] \<or> tc_strand (gc_tcp g) \<noteq> []"

definition is_game_handler :: "game_label \<Rightarrow> bool" where
  "is_game_handler a = (case a of GRun _ _ \<Rightarrow> True | GNet (CRun _) \<Rightarrow> True | _ \<Rightarrow> False)"

definition is_game_call :: "game_label \<Rightarrow> bool" where
  "is_game_call a = (case a of GRun _ _ \<Rightarrow> False | GNet _ \<Rightarrow> False | _ \<Rightarrow> True)"

definition player_name :: string where
  "player_name = ''TestName''"

text \<open>The statements of \<open>main\<close>, and what the network does meanwhile.\<close>

inductive client_main_step ::
  "(u32 \<Rightarrow> byte list) \<Rightarrow> (byte list \<Rightarrow> u32) \<Rightarrow> ClientProgram \<Rightarrow> ClientProgram \<Rightarrow> bool"
  for store :: "u32 \<Rightarrow> byte list" and load :: "byte list \<Rightarrow> u32" where
  m_start: "cp_at p = AtStart \<Longrightarrow>
    client_main_step store load p (p\<lparr>cp_game := game_start player_name (cp_game p), cp_at := InRunCall\<rparr>)"
| m_handler: "cp_at p = InRunCall \<Longrightarrow> game_step store load (cp_game p) a g \<Longrightarrow> is_game_handler a \<Longrightarrow>
    client_main_step store load p (p\<lparr>cp_game := g\<rparr>)"
| m_run_returns: "cp_at p = InRunCall \<Longrightarrow> \<not> client_work (cp_game p) \<Longrightarrow>
    client_main_step store load p (p\<lparr>cp_stopped := True, cp_at := AtShutdown\<rparr>)"
| m_shutdown: "cp_at p = AtShutdown \<Longrightarrow>
    client_main_step store load p (p\<lparr>cp_game := game_shutdown (cp_game p), cp_at := InPoll\<rparr>)"
| m_poll: "cp_at p = InPoll \<Longrightarrow> \<not> cp_stopped p \<Longrightarrow> game_step store load (cp_game p) a g \<Longrightarrow> is_game_handler a \<Longrightarrow>
    client_main_step store load p (p\<lparr>cp_game := g\<rparr>)"
| m_poll_returns: "cp_at p = InPoll \<Longrightarrow> cp_stopped p \<or> \<not> client_ready (cp_game p) \<Longrightarrow>
    client_main_step store load p (p\<lparr>cp_at := AtEnd\<rparr>)"
| m_network: "game_step store load (cp_game p) a g \<Longrightarrow> \<not> is_game_handler a \<Longrightarrow> \<not> is_game_call a \<Longrightarrow>
    client_main_step store load p (p\<lparr>cp_game := g\<rparr>)"

inductive client_main_run :: "(u32 \<Rightarrow> byte list) \<Rightarrow> (byte list \<Rightarrow> u32) \<Rightarrow> ClientProgram \<Rightarrow> bool"
  for store :: "u32 \<Rightarrow> byte list" and load :: "byte list \<Rightarrow> u32" where
  m_created: "GameController_create (Some TcpClient_ctor) = Inr g \<Longrightarrow>
    client_main_run store load \<lparr>cp_game = g, cp_stopped = False, cp_at = AtStart\<rparr>"
| m_stepped: "client_main_run store load p \<Longrightarrow> client_main_step store load p p' \<Longrightarrow> client_main_run store load p'"

section \<open>What becomes of it\<close>

text \<open>The network does nothing to a transport without operations.\<close>

lemma idle_network:
  assumes "game_step store load g a g'" "\<not> is_game_handler a" "\<not> is_game_call a" "\<not> transport_work (gc_tcp g)"
  shows False
  using assms(1)
proof (cases rule: game_step.cases)
  case (g_net b t)
  from g_net(3) show False
    by (cases rule: client_step.cases) (use assms g_net in \<open>auto simp: transport_work_def is_game_handler_def is_client_call_def\<close>)
qed (use assms in \<open>auto simp: is_game_handler_def is_game_call_def\<close>)

lemma client_main_game: "client_main_run store load p \<Longrightarrow> \<exists>tr. game_run store load tr (cp_game p)"
proof (induction rule: client_main_run.induct)
  case (m_created g)
  then show ?case using game_run.g_created by auto
next
  case (m_stepped p p')
  then obtain tr where run: "game_run store load tr (cp_game p)" by blast
  from m_stepped.hyps(2) run show ?case
    by (cases rule: client_main_step.cases)
      (auto intro: game_run.g_stepped game_step.g_start game_step.g_shutdown)
qed

definition after_run :: "ClientProgram \<Rightarrow> bool" where
  "after_run p \<longleftrightarrow> (cp_stopped p \<longleftrightarrow> cp_at p \<in> {AtShutdown, InPoll, AtEnd})
     \<and> (cp_stopped p \<longrightarrow> \<not> transport_work (gc_tcp (cp_game p))
         \<and> gc_strand (cp_game p) = (if cp_at p = AtShutdown then [] else [TShutdown]))"

lemma client_main_after: "client_main_run store load p \<Longrightarrow> after_run p"
proof (induction rule: client_main_run.induct)
  case (m_stepped p p')
  from m_stepped.hyps(2) show ?case
  proof (cases rule: client_main_step.cases)
    case (m_network a g)
    with m_stepped.IH idle_network [OF m_network(2-4)] show ?thesis by (auto simp: after_run_def)
  qed (use m_stepped.IH in \<open>auto simp: after_run_def client_work_def game_shutdown_def\<close>)
qed (simp add: after_run_def)

text \<open>The client's program never shuts its game down: \<open>run\<close> returns when no work is left, so the handler
  that \<open>shutdown\<close> posts afterwards finds a stopped context, and \<open>poll\<close>, which is there to drain it, returns without running it.
  When the program ends the handler is still in the strand; the transport was idle.\<close>

theorem client_main_drains_nothing:
  assumes "client_main_run store load p" "cp_at p = AtEnd"
  shows "gc_strand (cp_game p) = [TShutdown] \<and> \<not> transport_work (gc_tcp (cp_game p)) \<and> \<not> isConnected (gc_tcp (cp_game p))"
proof -
  have idle: "gc_strand (cp_game p) = [TShutdown]" "\<not> transport_work (gc_tcp (cp_game p))"
    using client_main_after [OF assms(1)] assms(2) by (simp_all add: after_run_def)
  obtain tr where "game_run store load tr (cp_game p)" using client_main_game [OF assms(1)] by blast
  from game_run_client [OF this] client_run_ok have "client_ok (gc_tcp (cp_game p))" by blast
  with idle(2) have "\<not> tc_is_connected (gc_tcp (cp_game p))"
    by (auto simp: client_ok_def transport_work_def read_on_its_way_def Let_def)
  with idle show ?thesis by (simp add: isConnected_def)
qed

section \<open>A witness\<close>

text \<open>The program when no server can be found.\<close>

definition game_with :: "TcpClient \<Rightarrow> game_task list \<Rightarrow> ClientState \<Rightarrow> GameController" where
  "game_with t s st = new_game\<lparr>gc_tcp := t, gc_strand := s, gc_state := st, gc_connectGen := 1, gc_playerName := player_name\<rparr>"

definition unresolved :: TcpClient where
  "unresolved = (client_at 1 2)\<lparr>tc_resolving := [], tc_strand := [Resolved 0 False]\<rparr>"

definition gave_up :: TcpClient where
  "gave_up = on_resolved 0 False (unresolved\<lparr>tc_strand := []\<rparr>)"

definition program_with :: "GameController \<Rightarrow> bool \<Rightarrow> main_position \<Rightarrow> ClientProgram" where
  "program_with g stopped pos = \<lparr>cp_game = g, cp_stopped = stopped, cp_at = pos\<rparr>"

lemma gave_up_fields:
  "tc_events gave_up = [OnConnect 1 False]" "\<not> transport_work gave_up" "tc_events unresolved = []"
  by (simp_all add: gave_up_def unresolved_def on_resolved_def client_at_defs isValidGeneration_def call_pending_def
      invokeConnectCallback_def transport_work_def Let_def)

lemma game_with_start: "game_step store load (new_game\<lparr>gc_strand := [TStart player_name]\<rparr>) (GRun 0 (TStart player_name))
    (game_with (client_at 1 1) [] Connecting)"
  using game_step.g_run [of "new_game\<lparr>gc_strand := [TStart player_name]\<rparr>" "TStart player_name" "[]" 0 store load]
  by (simp add: run_game_task_def doStart_def setState_eq Let_def new_game_def game_with_def client_at_def
      client_connect_def new_client_defs)

lemma game_with_net:
  assumes "client_step store load (\<lambda>_. CbReturns) t a t'" "\<not> is_client_call a"
    "s = map task_of_event (drop (length (tc_events t)) (tc_events t'))"
  shows "game_step store load (game_with t [] st) (GNet a) (game_with t' s st)"
  using game_step.g_net [of store load "game_with t [] st" a t'] assms
  by (simp add: game_with_def after_client_step_def new_game_def)

lemma main_handler:
  "client_main_run store load (program_with g False InRunCall) \<Longrightarrow> game_step store load g a g' \<Longrightarrow> is_game_handler a \<Longrightarrow>
    client_main_run store load (program_with g' False InRunCall)"
  using client_main_run.m_stepped [OF _ client_main_step.m_handler [of "program_with g False InRunCall" store load a g']]
  by (simp add: program_with_def)

abbreviation running_with :: "TcpClient \<Rightarrow> game_task list \<Rightarrow> ClientState \<Rightarrow> ClientProgram" where
  "running_with t s st \<equiv> program_with (game_with t s st) False InRunCall"

lemma unresolved_run: "client_main_run be_bytes be_value (running_with unresolved [] Connecting)"
proof -
  note run = client_main_run.m_stepped [where store = be_bytes and load = be_value]
  have valid: "validatePlayerName player_name" by (simp add: validatePlayerName_def player_name_def)
  have "client_main_run be_bytes be_value (program_with new_game False AtStart)"
    using client_main_run.m_created [of new_game be_bytes be_value]
    by (simp add: program_with_def GameController_create_def wireCallbacks_def new_game_def new_client_def)
  from run [OF this client_main_step.m_start] valid
  have "client_main_run be_bytes be_value (program_with (new_game\<lparr>gc_strand := [TStart player_name]\<rparr>) False InRunCall)"
    by (simp add: program_with_def game_start_def new_game_def)
  from main_handler [OF this game_with_start]
  have r2: "client_main_run be_bytes be_value (running_with (client_at 1 1) [] Connecting)"
    by (simp add: is_game_handler_def)
  have "game_step be_bytes be_value (game_with (client_at 1 1) [] Connecting) (GNet (CRun (ConnectTask 1)))
      (game_with (client_at 1 2) [] Connecting)"
    by (rule game_with_net [OF client_at_steps(2)]) (simp_all add: is_client_call_def client_at_defs)
  from main_handler [OF r2 this]
  have r3: "client_main_run be_bytes be_value (running_with (client_at 1 2) [] Connecting)"
    by (simp add: is_game_handler_def)
  have "client_step be_bytes be_value (\<lambda>_. CbReturns) (client_at 1 2) (CResolve False) unresolved"
    using client_step.c_resolve [of "client_at 1 2" "[]" 0 "[]" be_bytes be_value "\<lambda>_. CbReturns" False]
    by (simp add: unresolved_def client_at_defs)
  from game_with_net [OF this, of "[]" Connecting]
  have "game_step be_bytes be_value (game_with (client_at 1 2) [] Connecting) (GNet (CResolve False))
      (game_with unresolved [] Connecting)" by (simp add: is_client_call_def gave_up_fields)
  from run [OF r3 client_main_step.m_network, of "GNet (CResolve False)"] this
  show ?thesis by (simp add: program_with_def is_game_handler_def is_game_call_def)
qed

lemma gave_up_run: "client_main_run be_bytes be_value (running_with gave_up [] Disconnected)"
proof -
  have "client_step be_bytes be_value (\<lambda>_. CbReturns) unresolved (CRun (Resolved 0 False)) gave_up"
    using client_step.c_run [of unresolved "Resolved 0 False" "[]" be_bytes be_value "\<lambda>_. CbReturns"]
    by (simp add: unresolved_def gave_up_def run_client_task_def)
  from game_with_net [OF this, of "[TConnectResult False 1]" Connecting] gave_up_fields
  have "game_step be_bytes be_value (game_with unresolved [] Connecting) (GNet (CRun (Resolved 0 False)))
      (game_with gave_up [TConnectResult False 1] Connecting)" by (simp add: is_client_call_def task_of_event_def)
  from main_handler [OF unresolved_run this]
  have r5: "client_main_run be_bytes be_value (running_with gave_up [TConnectResult False 1] Connecting)"
    by (simp add: is_game_handler_def)
  have "game_step be_bytes be_value (game_with gave_up [TConnectResult False 1] Connecting) (GRun 0 (TConnectResult False 1))
      (game_with gave_up [] Disconnected)"
    using game_step.g_run [of "game_with gave_up [TConnectResult False 1] Connecting" "TConnectResult False 1" "[]" 0 be_bytes be_value]
    by (simp add: run_game_task_def on_connect_result_def setState_eq game_with_def new_game_def)
  from main_handler [OF r5 this] show ?thesis by (simp add: is_game_handler_def)
qed

theorem client_main_drains_nothing_witness:
  "\<exists>p. client_main_run be_bytes be_value p \<and> cp_at p = AtEnd \<and> gc_strand (cp_game p) = [TShutdown]
    \<and> \<not> isConnected (gc_tcp (cp_game p))"
proof -
  note run = client_main_run.m_stepped [where store = be_bytes and load = be_value]
  have idle: "\<not> client_work (game_with gave_up [] Disconnected)"
    using gave_up_fields(2) by (simp add: client_work_def game_with_def new_game_def)
  from run [OF gave_up_run client_main_step.m_run_returns] idle
  have "client_main_run be_bytes be_value (program_with (game_with gave_up [] Disconnected) True AtShutdown)"
    by (simp add: program_with_def)
  from run [OF this client_main_step.m_shutdown]
  have "client_main_run be_bytes be_value (program_with (game_with gave_up [TShutdown] Disconnected) True InPoll)"
    by (simp add: program_with_def game_shutdown_def game_with_def new_game_def)
  from run [OF this client_main_step.m_poll_returns]
  have end_run: "client_main_run be_bytes be_value (program_with (game_with gave_up [TShutdown] Disconnected) True AtEnd)"
    by (simp add: program_with_def)
  have at_end: "cp_at (program_with (game_with gave_up [TShutdown] Disconnected) True AtEnd) = AtEnd"
    by (simp add: program_with_def)
  from client_main_drains_nothing [OF end_run at_end] end_run at_end show ?thesis by blast
qed

end
