(* ===== verification/Logger.thy ===== *)
theory Logger
  imports Format
begin

text \<open>
  src/src/common/logger.h: the logger.  Once it has been bound to an \<open>io_context\<close> a message is posted to
  its strand and printed when the handler runs; before that and after \<open>shutdown\<close> the caller prints it.
  Handlers already posted stay posted when the strand is reset.  A message carries the time it was
  logged at, in nanoseconds since the epoch, and the text of its thread's number; \<open>localtime_r\<close> is a parameter.
  A print is an atomic step.
\<close>

section \<open>A line\<close>

datatype LogLevel = DEBUG | INFO | WARN | ERROR

record SourceLocation =
  sl_file :: string
  sl_line :: int
  sl_function :: string

record LogRecord =
  lr_timestamp :: nat
  lr_thread :: string
  lr_level :: LogLevel
  lr_loc :: SourceLocation
  lr_message :: string

record tm =
  tm_year :: nat
  tm_mon :: nat
  tm_mday :: nat
  tm_hour :: nat
  tm_min :: nat
  tm_sec :: nat

definition time_str :: "(nat \<Rightarrow> tm) \<Rightarrow> nat \<Rightarrow> string" where
  "time_str localtime timestamp =
     (let tm_buf = localtime (timestamp div 1000000000);
          ms = timestamp div 1000000 mod 1000
      in zero_padded 4 (tm_year tm_buf + 1900) @ ''-'' @ zero_padded 2 (tm_mon tm_buf + 1) @ ''-''
         @ zero_padded 2 (tm_mday tm_buf) @ '' '' @ zero_padded 2 (tm_hour tm_buf) @ '':''
         @ zero_padded 2 (tm_min tm_buf) @ '':'' @ zero_padded 2 (tm_sec tm_buf) @ ''.'' @ zero_padded 3 ms)"

fun level_str :: "LogLevel \<Rightarrow> string" where
  "level_str DEBUG = ''DEBUG''"
| "level_str INFO = ''INFO ''"
| "level_str WARN = ''WARN ''"
| "level_str ERROR = ''ERROR''"

text \<open>The separators of a path: slash and backslash.\<close>

definition separators :: string where
  "separators = [char_of (47::nat), char_of (92::nat)]"

definition filename_of :: "string \<Rightarrow> string" where
  "filename_of file = (case find_last_of separators file of None \<Rightarrow> file | Some slash \<Rightarrow> drop (slash + 1) file)"

definition module_of :: "string \<Rightarrow> string" where
  "module_of filename = (case find_last_of ''.'' filename of None \<Rightarrow> filename | Some dot \<Rightarrow> take dot filename)"

definition formatted :: "(nat \<Rightarrow> tm) \<Rightarrow> LogRecord \<Rightarrow> string" where
  "formatted localtime r =
     (let filename = filename_of (sl_file (lr_loc r))
      in ''['' @ time_str localtime (lr_timestamp r) @ ''][TH:'' @ lr_thread r @ ''][''
         @ module_of filename @ ''][''
         @ filename @ '':'' @ int_decimal (sl_line (lr_loc r)) @ ''][''
         @ sl_function (lr_loc r) @ ''()]['' @ level_str (lr_level r) @ ''] '' @ lr_message r @ [char_of (10::nat)])"

datatype stream = Cout | Cerr

definition stream_of :: "LogLevel \<Rightarrow> stream" where
  "stream_of level = (if level = ERROR then Cerr else Cout)"

section \<open>The logger\<close>

record Logger =
  lg_strand :: bool
  lg_initialized :: bool
  lg_init_flag :: bool
  lg_posted :: "LogRecord list"
  lg_output :: "(stream \<times> string) list"

definition Logger_init :: Logger where
  "Logger_init = \<lparr>lg_strand = False, lg_initialized = False, lg_init_flag = False, lg_posted = [], lg_output = []\<rparr>"

definition printToConsole :: "(nat \<Rightarrow> tm) \<Rightarrow> LogRecord \<Rightarrow> Logger \<Rightarrow> Logger" where
  "printToConsole localtime r g = g\<lparr>lg_output := lg_output g @ [(stream_of (lr_level r), formatted localtime r)]\<rparr>"

definition logger_init :: "Logger \<Rightarrow> Logger" where
  "logger_init g =
     (if lg_init_flag g then g else g\<lparr>lg_init_flag := True, lg_strand := True, lg_initialized := True\<rparr>)"

definition logger_shutdown :: "Logger \<Rightarrow> Logger" where
  "logger_shutdown g = g\<lparr>lg_initialized := False, lg_strand := False\<rparr>"

text \<open>Posting to a strand that is not there is undefined: \<open>None\<close>.\<close>

definition logger_log :: "(nat \<Rightarrow> tm) \<Rightarrow> LogRecord \<Rightarrow> Logger \<Rightarrow> Logger option" where
  "logger_log localtime r g =
     (if lg_initialized g then (if lg_strand g then Some (g\<lparr>lg_posted := lg_posted g @ [r]\<rparr>) else None)
      else Some (printToConsole localtime r g))"

definition run_posted :: "(nat \<Rightarrow> tm) \<Rightarrow> Logger \<Rightarrow> Logger option" where
  "run_posted localtime g =
     (case lg_posted g of [] \<Rightarrow> None | r # rest \<Rightarrow> Some (printToConsole localtime r (g\<lparr>lg_posted := rest\<rparr>)))"

section \<open>Runs\<close>

datatype log_label = LInit | LShutdown | LLog LogRecord | LPrint

fun log_step :: "(nat \<Rightarrow> tm) \<Rightarrow> log_label \<Rightarrow> Logger \<Rightarrow> Logger option" where
  "log_step localtime LInit g = Some (logger_init g)"
| "log_step localtime LShutdown g = Some (logger_shutdown g)"
| "log_step localtime (LLog r) g = logger_log localtime r g"
| "log_step localtime LPrint g = run_posted localtime g"

fun log_run :: "(nat \<Rightarrow> tm) \<Rightarrow> log_label list \<Rightarrow> Logger \<Rightarrow> Logger option" where
  "log_run localtime [] g = Some g"
| "log_run localtime (a # as) g = Option.bind (log_step localtime a g) (log_run localtime as)"

definition line_of :: "(nat \<Rightarrow> tm) \<Rightarrow> LogRecord \<Rightarrow> stream \<times> string" where
  "line_of localtime r = (stream_of (lr_level r), formatted localtime r)"

fun logged :: "log_label list \<Rightarrow> LogRecord list" where
  "logged [] = []"
| "logged (LLog r # as) = r # logged as"
| "logged (_ # as) = logged as"

lemma logged_append: "logged (as @ bs) = logged as @ logged bs"
  by (induction as rule: logged.induct) simp_all

definition logger_ok :: "Logger \<Rightarrow> bool" where
  "logger_ok g \<longleftrightarrow> (lg_initialized g \<longrightarrow> lg_strand g \<and> lg_init_flag g)"

lemmas logger_defs = logger_init_def logger_shutdown_def logger_log_def run_posted_def printToConsole_def line_of_def

lemma log_step_ok: "log_step localtime a g = Some g' \<Longrightarrow> logger_ok g \<Longrightarrow> logger_ok g'"
  by (cases a) (auto simp: logger_ok_def logger_defs split: if_splits list.splits)

text \<open>What is shown or still to be shown.\<close>

lemma log_step_lines:
  assumes "log_step localtime a g = Some g'"
  shows "mset (lg_output g') + mset (map (line_of localtime) (lg_posted g'))
    = mset (lg_output g) + mset (map (line_of localtime) (lg_posted g)) + mset (map (line_of localtime) (logged [a]))"
  using assms by (cases a) (auto simp: logger_defs split: if_splits list.splits)

lemma log_run_lines:
  "log_run localtime as g = Some g' \<Longrightarrow> mset (lg_output g') + mset (map (line_of localtime) (lg_posted g'))
    = mset (lg_output g) + mset (map (line_of localtime) (lg_posted g)) + mset (map (line_of localtime) (logged as))"
proof (induction as arbitrary: g)
  case (Cons a as)
  then obtain h where h: "log_step localtime a g = Some h" "log_run localtime as h = Some g'" by (auto simp: bind_eq_Some_conv)
  from Cons.IH [OF h(2)] log_step_lines [OF h(1)] logged_append [of "[a]" as] show ?case by (simp add: ac_simps)
qed simp

text \<open>Without a shutdown nothing printed at once can come after something posted.\<close>

lemma log_run_order:
  assumes "log_run localtime as g = Some g'" "LShutdown \<notin> set as" "lg_initialized g \<longleftrightarrow> lg_init_flag g"
    "\<not> lg_initialized g \<longrightarrow> lg_posted g = []"
  shows "lg_output g' @ map (line_of localtime) (lg_posted g')
    = lg_output g @ map (line_of localtime) (lg_posted g) @ map (line_of localtime) (logged as)"
  using assms
proof (induction as arbitrary: g)
  case (Cons a as)
  then obtain h where h: "log_step localtime a g = Some h" "log_run localtime as h = Some g'" by (auto simp: bind_eq_Some_conv)
  have keeps: "lg_initialized h \<longleftrightarrow> lg_init_flag h" "\<not> lg_initialized h \<longrightarrow> lg_posted h = []"
    "lg_output h @ map (line_of localtime) (lg_posted h)
      = lg_output g @ map (line_of localtime) (lg_posted g) @ map (line_of localtime) (logged [a])"
    using h(1) Cons.prems by (cases a; auto simp: logger_defs split: if_splits list.splits)+
  from Cons.IH [OF h(2) _ keeps(1,2)] Cons.prems(2) keeps(3) logged_append [of "[a]" as] show ?case by simp
qed simp

text \<open>C38.  No message is lost or repeated: a run of the logger never posts to a missing strand, so a call
  of \<open>log\<close> always has a result; at each moment what has been printed and what is posted are together
  exactly the messages logged, and, unless it was shut down, in the order they were logged in.\<close>

theorem logger_complete:
  assumes "log_run localtime as Logger_init = Some g"
  shows "logger_log localtime r g \<noteq> None
    \<and> mset (lg_output g) + mset (map (line_of localtime) (lg_posted g)) = mset (map (line_of localtime) (logged as))
    \<and> (LShutdown \<notin> set as \<longrightarrow> lg_output g @ map (line_of localtime) (lg_posted g) = map (line_of localtime) (logged as))"
proof -
  have "log_run localtime as h = Some g \<Longrightarrow> logger_ok h \<Longrightarrow> logger_ok g" for h
    by (induction as arbitrary: h) (auto simp: bind_eq_Some_conv dest: log_step_ok)
  from this [OF assms] have "logger_ok g" by (simp add: logger_ok_def Logger_init_def)
  then have "logger_log localtime r g \<noteq> None" by (simp add: logger_log_def logger_ok_def)
  moreover note log_run_lines [OF assms]
  moreover note log_run_order [OF assms]
  ultimately show ?thesis by (simp add: Logger_init_def)
qed

text \<open>Bound once and shut down.\<close>

definition unbound :: "Logger \<Rightarrow> bool" where
  "unbound g \<longleftrightarrow> lg_init_flag g \<and> \<not> lg_initialized g"

lemma unbound_step:
  "log_step localtime a g = Some g' \<Longrightarrow> unbound g \<Longrightarrow> unbound g' \<and> (\<exists>k. lg_posted g' = drop k (lg_posted g))"
  by (cases a)
    (auto simp: unbound_def logger_defs split: if_splits list.splits intro: exI [of _ 0] exI [of _ "Suc 0"])

text \<open>A shutdown of a bound logger is final: later calls of \<open>init\<close> do nothing, and every message is printed
  when it is logged.  What had been posted before is printed when its handlers run, so later messages can
  overtake earlier ones.\<close>

theorem logger_shutdown_final:
  assumes "lg_init_flag g" "log_run localtime as (logger_shutdown g) = Some g'"
  shows "logger_init g' = g' \<and> logger_log localtime r g' = Some (printToConsole localtime r g')
    \<and> (\<exists>k. lg_posted g' = drop k (lg_posted g))"
proof -
  have "log_run localtime as h = Some g' \<Longrightarrow> unbound h \<Longrightarrow> unbound g' \<and> (\<exists>k. lg_posted g' = drop k (lg_posted h))" for h
  proof (induction as arbitrary: h)
    case Nil
    then show ?case by (auto intro: exI [of _ 0])
  next
    case (Cons a as)
    then obtain h' where h': "log_step localtime a h = Some h'" "log_run localtime as h' = Some g'"
      by (auto simp: bind_eq_Some_conv)
    from unbound_step [OF h'(1) Cons.prems(2)] obtain k where k: "unbound h'" "lg_posted h' = drop k (lg_posted h)" by blast
    from Cons.IH [OF h'(2) k(1)] k(2) show ?case by auto
  qed
  from this [OF assms(2)] assms(1) have "unbound g'" "\<exists>k. lg_posted g' = drop k (lg_posted g)"
    by (simp_all add: unbound_def logger_shutdown_def)
  then show ?thesis by (simp add: unbound_def logger_init_def logger_log_def)
qed

text \<open>A line names the place it comes from: the file without its directories, whichever separator they use, and
  the module without the extension; the level takes five characters, and errors go to the error stream.\<close>

theorem formatted_location:
  assumes "sep \<in> set separators" "set stem \<inter> set separators = {}" "set ext \<inter> set separators = {}" "CHR ''.'' \<notin> set ext"
    "sl_file (lr_loc r) = dir @ [sep] @ stem @ ''.'' @ ext"
  shows "formatted localtime r = ''['' @ time_str localtime (lr_timestamp r) @ ''][TH:'' @ lr_thread r @ ''][''
      @ stem @ ''][''
      @ stem @ ''.'' @ ext @ '':'' @ int_decimal (sl_line (lr_loc r)) @ ''][''
      @ sl_function (lr_loc r) @ ''()]['' @ level_str (lr_level r) @ ''] '' @ lr_message r @ [char_of (10::nat)]
    \<and> length (level_str (lr_level r)) = 5 \<and> (stream_of (lr_level r) = Cerr \<longleftrightarrow> lr_level r = ERROR)"
proof -
  let ?name = "stem @ ''.'' @ ext"
  have "CHR ''.'' \<notin> set separators" by (simp add: separators_def char_of_def bit_simps)
  then have "set ?name \<inter> set separators = {}" using assms(2,3) by auto
  from find_last_of_append [OF assms(1) this, of dir] have "filename_of (sl_file (lr_loc r)) = ?name"
    by (simp add: filename_of_def assms(5))
  moreover have "find_last_of ''.'' ?name = Some (length stem)"
    using find_last_of_append [of "CHR ''.''" "''.''" ext stem] assms(4) by simp
  then have "module_of ?name = stem" by (simp add: module_of_def)
  moreover have "length (level_str (lr_level r)) = 5" by (cases "lr_level r") simp_all
  ultimately show ?thesis by (simp add: formatted_def Let_def stream_of_def)
qed

section \<open>Witnesses\<close>

definition sample_record :: LogRecord where
  "sample_record = \<lparr>lr_timestamp = 0, lr_thread = ''1'', lr_level = INFO,
     lr_loc = \<lparr>sl_file = ''src/server/session.cpp'', sl_line = 76, sl_function = ''doRead''\<rparr>, lr_message = ''read''\<rparr>"

definition epoch :: "nat \<Rightarrow> tm" where
  "epoch t = \<lparr>tm_year = 70, tm_mon = 0, tm_mday = 1, tm_hour = 0, tm_min = 0, tm_sec = 0\<rparr>"

definition late_record :: LogRecord where
  "late_record = sample_record\<lparr>lr_level := ERROR\<rparr>"

text \<open>A message printed at once, one posted, and one that overtakes it.\<close>

definition posted_logger :: Logger where
  "posted_logger = \<lparr>lg_strand = True, lg_initialized = True, lg_init_flag = True, lg_posted = [sample_record],
     lg_output = [line_of epoch late_record]\<rparr>"

lemma posted_logger_run: "log_run epoch [LLog late_record, LInit, LLog sample_record] Logger_init = Some posted_logger"
  by (simp add: logger_defs Logger_init_def posted_logger_def)

theorem logger_complete_witness:
  "lg_output posted_logger @ map (line_of epoch) (lg_posted posted_logger) = map (line_of epoch) [late_record, sample_record]"
  using logger_complete [OF posted_logger_run] by simp

theorem logger_shutdown_final_witness:
  "logger_init (printToConsole epoch late_record (logger_shutdown posted_logger))
    = printToConsole epoch late_record (logger_shutdown posted_logger)"
proof -
  have "log_run epoch [LLog late_record] (logger_shutdown posted_logger)
      = Some (printToConsole epoch late_record (logger_shutdown posted_logger))"
    by (simp add: logger_log_def logger_shutdown_def)
  from logger_shutdown_final [OF _ this] show ?thesis by (simp add: posted_logger_def)
qed

lemma sample_decimals:
  "to_decimal 0 = ''0''" "to_decimal 1 = ''1''" "to_decimal 76 = ''76''" "to_decimal 1970 = ''1970''"
  by (simp_all add: to_decimal.simps [of 0] to_decimal.simps [of "Suc 0"] to_decimal.simps [of 1970]
      to_decimal.simps [of 197] to_decimal.simps [of 19] to_decimal.simps [of 76] to_decimal.simps [of 7] char_of_def bit_0)

theorem formatted_location_witness:
  "formatted epoch sample_record = ''[1970-01-01 00:00:00.000][TH:1][session][session.cpp:76][doRead()][INFO ] read'' @ [char_of (10::nat)]"
proof -
  have time: "time_str epoch 0 = ''1970-01-01 00:00:00.000''"
    using sample_decimals by (simp add: time_str_def epoch_def zero_padded_def numeral_2_eq_2)
  have line: "int_decimal 76 = ''76''" by (simp add: int_decimal_def sample_decimals)
  have "sl_file (lr_loc sample_record) = ''src/server'' @ [CHR ''/''] @ ''session'' @ ''.'' @ ''cpp''"
    by (simp add: sample_record_def)
  from formatted_location [OF _ _ _ _ this, of epoch]
  show ?thesis using time line
    by (simp add: separators_def char_of_def bit_0 sample_record_def)
qed

end
