(* ===== verification/ClientLink.thy ===== *)
theory ClientLink
  imports TcpClient "HOL-Library.Sublist"
begin

text \<open>
  One connection of a client (src/src/client/tcp_client.cpp) with its byte stream in both
  directions.  TCP is used through what it promises: a reliable stream in order.  The link starts
  when the handler of \<open>async_connect\<close> succeeds and ends when the handler of \<open>disconnect\<close> closes
  the socket; before, after and meanwhile the client takes any steps.  The link records the bytes
  it has written and read, the frames taken for sending and the messages reported.
\<close>

section \<open>The link\<close>

record client_link =
  cl_client :: TcpClient
  cl_open :: bool
  cl_written :: nat
  cl_sent :: "byte list"
  cl_read :: "byte list"
  cl_taken :: "frame_ref list"
  cl_heard :: "byte list list"

definition link_of :: "TcpClient \<Rightarrow> client_link" where
  "link_of t = \<lparr>cl_client = t, cl_open = True, cl_written = 0, cl_sent = [], cl_read = [], cl_taken = [], cl_heard = []\<rparr>"

text \<open>The messages among the events, and the frame that a step takes for sending.\<close>

definition heard_of :: "client_event list \<Rightarrow> byte list list" where
  "heard_of evs = concat (map (\<lambda>e. case e of OnMessage p \<Rightarrow> [p] | _ \<Rightarrow> []) evs)"

definition takes :: "client_label \<Rightarrow> TcpClient \<Rightarrow> frame_ref list" where
  "takes a t = (case a of CRun (SendTask f) \<Rightarrow> if tc_is_connected t \<and> \<not> tc_disconnect_requested t then [f] else [] | _ \<Rightarrow> [])"

definition link_client :: "client_label \<Rightarrow> TcpClient \<Rightarrow> client_link \<Rightarrow> client_link" where
  "link_client a t' k =
     (if cl_open k
      then k\<lparr>cl_client := t', cl_open := a \<noteq> CRun DisconnectTask, cl_taken := cl_taken k @ takes a (cl_client k),
             cl_heard := cl_heard k @ heard_of (drop (length (tc_events (cl_client k))) (tc_events t'))\<rparr>
      else k\<lparr>cl_client := t'\<rparr>)"

text \<open>Bytes move by steps of the network: part of the write under way leaves, the write is complete
  when all has left, a read is complete with some bytes.\<close>

datatype link_label = KClient client_label | KSend nat | KWritten | KRead "byte list"

definition transfers :: "client_label \<Rightarrow> bool" where
  "transfers a \<longleftrightarrow> a = CWrite True \<or> (\<exists>bytes. a = CRead (Some bytes))"

inductive link_step ::
  "(u32 \<Rightarrow> byte list) \<Rightarrow> (byte list \<Rightarrow> u32) \<Rightarrow> (byte list \<Rightarrow> cb_effect) \<Rightarrow> client_link \<Rightarrow> link_label \<Rightarrow> client_link \<Rightarrow> bool"
  for store :: "u32 \<Rightarrow> byte list" and load :: "byte list \<Rightarrow> u32" and message_cb :: "byte list \<Rightarrow> cb_effect" where
  k_client: "client_step store load message_cb (cl_client k) a t \<Longrightarrow> \<not> (cl_open k \<and> transfers a) \<Longrightarrow>
    link_step store load message_cb k (KClient a) (link_client a t k)"
| k_send: "cl_open k \<Longrightarrow> (g, f) \<in> set (tc_writing (cl_client k)) \<Longrightarrow> 0 < n \<Longrightarrow> cl_written k + n \<le> length (snd f) \<Longrightarrow>
    link_step store load message_cb k (KSend n)
      (k\<lparr>cl_written := cl_written k + n, cl_sent := cl_sent k @ take n (drop (cl_written k) (snd f))\<rparr>)"
| k_written: "cl_open k \<Longrightarrow> tc_writing (cl_client k) = ws @ (g, f) # ws' \<Longrightarrow> cl_written k = length (snd f) \<Longrightarrow>
    link_step store load message_cb k KWritten
      (k\<lparr>cl_client := tc_post (WriteDone g f True) ((cl_client k)\<lparr>tc_writing := ws @ ws'\<rparr>), cl_written := 0\<rparr>)"
| k_read: "cl_open k \<Longrightarrow> client_step store load message_cb (cl_client k) (CRead (Some bytes)) t \<Longrightarrow>
    link_step store load message_cb k (KRead bytes) (k\<lparr>cl_client := t, cl_read := cl_read k @ bytes\<rparr>)"

text \<open>The steps of the client alone.\<close>

definition client_part :: "link_label \<Rightarrow> client_label list" where
  "client_part l = (case l of KClient a \<Rightarrow> [a] | KSend n \<Rightarrow> [] | KWritten \<Rightarrow> [CWrite True] | KRead bytes \<Rightarrow> [CRead (Some bytes)])"

text \<open>A link begins with the step of a client run that connects.\<close>

inductive link_run ::
  "(u32 \<Rightarrow> byte list) \<Rightarrow> (byte list \<Rightarrow> u32) \<Rightarrow> (byte list \<Rightarrow> cb_effect) \<Rightarrow> client_label list \<Rightarrow> client_link \<Rightarrow> bool"
  for store :: "u32 \<Rightarrow> byte list" and load :: "byte list \<Rightarrow> u32" and message_cb :: "byte list \<Rightarrow> cb_effect" where
  k_up: "client_run store load message_cb tr t \<Longrightarrow> \<not> tc_is_connected t \<Longrightarrow> client_step store load message_cb t a t' \<Longrightarrow>
    tc_is_connected t' \<Longrightarrow> link_run store load message_cb (tr @ [a]) (link_of t')"
| k_stepped: "link_run store load message_cb tr k \<Longrightarrow> link_step store load message_cb k l k' \<Longrightarrow>
    link_run store load message_cb (tr @ client_part l) k'"

lemma link_run_client: "link_run store load message_cb tr k \<Longrightarrow> client_run store load message_cb tr (cl_client k)"
proof (induction rule: link_run.induct)
  case (k_up tr t a t')
  then show ?case using client_run.c_stepped by (simp add: link_of_def)
next
  case (k_stepped tr k l k')
  from k_stepped.hyps(2) show ?case
  proof (cases rule: link_step.cases)
    case (k_client a t)
    then show ?thesis using client_run.c_stepped [OF k_stepped.IH k_client(3)] by (simp add: client_part_def link_client_def)
  next
    case (k_written ws g f ws')
    from client_run.c_stepped [OF k_stepped.IH client_step.c_write [OF k_written(4)]] k_written(1,2)
    show ?thesis by (simp add: client_part_def)
  next
    case (k_read bytes t)
    then show ?thesis using client_run.c_stepped [OF k_stepped.IH k_read(4)] by (simp add: client_part_def)
  qed (use k_stepped.IH in \<open>simp add: client_part_def\<close>)
qed

section \<open>A new connection starts clean\<close>

text \<open>The generations of the reads and writes that are under way or whose handler is waiting, and
  how many disconnects have been handled.\<close>

definition task_gen :: "client_task \<Rightarrow> u64 set" where
  "task_gen h = (case h of ReadDone g r \<Rightarrow> {g} | WriteDone g f ok \<Rightarrow> {g} | _ \<Rightarrow> {})"

definition transfer_gens :: "TcpClient \<Rightarrow> u64 set" where
  "transfer_gens t = set (tc_reading t) \<union> fst ` set (tc_writing t) \<union> (\<Union>h\<in>set (tc_strand t). task_gen h)"

definition quiet :: "TcpClient \<Rightarrow> bool" where
  "quiet t \<longleftrightarrow> tc_reading t = [] \<and> tc_writing t = [] \<and> tc_read_buffer t = []"

definition disconnects_run :: "client_label list \<Rightarrow> nat" where
  "disconnects_run tr = length (filter (\<lambda>a. a = CRun DisconnectTask) tr)"

definition current_gen :: "TcpClient \<Rightarrow> u64 set" where
  "current_gen t = (if tc_is_connected t then {tc_disconnect_generation t} else {})"

lemmas gen_defs = transfer_gens_def quiet_def current_gen_def

lemma transfer_gens_upd [simp]:
  "transfer_gens (t\<lparr>tc_resolver := b\<rparr>) = transfer_gens t" "transfer_gens (t\<lparr>tc_is_connected := b\<rparr>) = transfer_gens t"
  "transfer_gens (t\<lparr>tc_disconnect_requested := b\<rparr>) = transfer_gens t" "transfer_gens (t\<lparr>tc_is_connecting := b\<rparr>) = transfer_gens t"
  "transfer_gens (t\<lparr>tc_disconnect_generation := g\<rparr>) = transfer_gens t" "transfer_gens (t\<lparr>tc_read_buffer := bs\<rparr>) = transfer_gens t"
  "transfer_gens (t\<lparr>tc_active_connect_generation := g\<rparr>) = transfer_gens t" "transfer_gens (t\<lparr>tc_write_queue := q\<rparr>) = transfer_gens t"
  "transfer_gens (t\<lparr>tc_pending_connect_callback := cb\<rparr>) = transfer_gens t" "transfer_gens (t\<lparr>tc_is_writing := b\<rparr>) = transfer_gens t"
  "transfer_gens (t\<lparr>tc_events := evs\<rparr>) = transfer_gens t" "transfer_gens (t\<lparr>tc_resolving := gs\<rparr>) = transfer_gens t"
  "transfer_gens (t\<lparr>tc_opening := gs\<rparr>) = transfer_gens t" "transfer_gens (t\<lparr>tc_next_frame := n\<rparr>) = transfer_gens t"
  by (simp_all add: transfer_gens_def)

lemma transfer_gens_close: "transfer_gens (close_socket t) = transfer_gens t"
  by (auto simp: transfer_gens_def close_socket_def task_gen_def split_beta image_comp)

lemma transfer_gens_cancel: "transfer_gens (cancel_resolver t) = transfer_gens t"
  by (auto simp: transfer_gens_def cancel_resolver_def task_gen_def)

lemma disconnect_task_gens:
  "transfer_gens (on_disconnect_task t) = transfer_gens t"
  "tc_disconnect_generation (on_disconnect_task t) = tc_disconnect_generation t + 1"
  "tc_is_connected t \<or> quiet t \<Longrightarrow> quiet (on_disconnect_task t)"
proof -
  show "transfer_gens (on_disconnect_task t) = transfer_gens t"
    by (simp add: on_disconnect_task_def transfer_gens_close transfer_gens_cancel invokeConnectCallback_def Let_def
        split: option.split)
  show "tc_disconnect_generation (on_disconnect_task t) = tc_disconnect_generation t + 1"
    by (simp add: on_disconnect_task_def cancel_resolver_def close_socket_def invokeConnectCallback_def Let_def split: option.split)
  show "tc_is_connected t \<or> quiet t \<Longrightarrow> quiet (on_disconnect_task t)"
    by (cases "tc_is_connected t"; cases "tc_resolver t"; cases "tc_is_connecting t";
        simp add: quiet_def on_disconnect_task_def cancel_resolver_def close_socket_def invokeConnectCallback_def Let_def
          split: option.split)
qed

text \<open>What the other handlers do.\<close>

lemma doRead_gens: "transfer_gens (doRead t) \<subseteq> transfer_gens t \<union> (if tc_is_connected t then {tc_active_connect_generation t} else {})"
  by (auto simp: doRead_def transfer_gens_def)

lemma doWrite_gens: "transfer_gens (doWrite t) \<subseteq> transfer_gens t \<union> (if tc_is_connected t then {tc_active_connect_generation t} else {})"
  by (auto simp: doWrite_def transfer_gens_def split: list.split)

lemma doWrite_quiet:
  "tc_is_connected (doWrite t) = tc_is_connected t" "tc_disconnect_generation (doWrite t) = tc_disconnect_generation t"
  by (simp_all add: doWrite_def split: list.split)

lemma disconnect_call_gens [simp]:
  "transfer_gens (client_disconnect t) = transfer_gens t" "tc_disconnect_generation (client_disconnect t) = tc_disconnect_generation t"
  "tc_is_connected (client_disconnect t) = tc_is_connected t"
  by (simp_all add: client_disconnect_def transfer_gens_def task_gen_def)

lemma doRead_keeps:
  "tc_is_connected (doRead t) = tc_is_connected t" "tc_disconnect_generation (doRead t) = tc_disconnect_generation t"
  by (simp_all add: doRead_def)

lemma on_read_gens:
  assumes "tc_message_cb t" "t' = on_read load message_cb g r t"
  shows "transfer_gens t' \<subseteq> transfer_gens t \<union> (if tc_is_connected t then {tc_active_connect_generation t} else {})"
    "tc_disconnect_generation t' = tc_disconnect_generation t" "tc_is_connected t' = tc_is_connected t" "\<not> tc_is_connected t \<Longrightarrow> t' = t"
proof -
  have "transfer_gens t' \<subseteq> transfer_gens t \<union> (if tc_is_connected t then {tc_active_connect_generation t} else {})
    \<and> tc_disconnect_generation t' = tc_disconnect_generation t \<and> tc_is_connected t' = tc_is_connected t \<and> (\<not> tc_is_connected t \<longrightarrow> t' = t)"
  proof (cases "isValidGeneration g t \<and> tc_is_connected t \<and> \<not> tc_disconnect_requested t \<and> r \<noteq> None")
    case False
    then show ?thesis by (cases r) (auto simp: assms(2) on_read_def)
  next
    case True
    then obtain bytes where r: "r = Some bytes" by blast
    obtain called eff where c: "client_calls message_cb (fst (frames load (tc_read_buffer t @ bytes))) = (called, eff)"
      by fastforce
    from on_read_live [OF _ _ _ assms(1) c, of g] True r obtain rest where
      t': "t' = (let t1 = t\<lparr>tc_events := tc_events t @ map OnMessage called, tc_read_buffer := rest\<rparr>
         in if eff = CbReturns then doRead t1 else client_disconnect t1)" by (auto simp: assms(2))
    show ?thesis
      using True doRead_gens [of "t\<lparr>tc_events := tc_events t @ map OnMessage called, tc_read_buffer := rest\<rparr>"]
      unfolding t' Let_def by (simp add: doRead_keeps le_supI1 subset_insertI2)
  qed
  then show "transfer_gens t' \<subseteq> transfer_gens t \<union> (if tc_is_connected t then {tc_active_connect_generation t} else {})"
    "tc_disconnect_generation t' = tc_disconnect_generation t" "tc_is_connected t' = tc_is_connected t" "\<not> tc_is_connected t \<Longrightarrow> t' = t"
    by blast+
qed

lemma on_written_gens:
  "transfer_gens (on_written g f ok t) \<subseteq> transfer_gens t \<union> (if tc_is_connected t then {tc_active_connect_generation t} else {})"
  "tc_disconnect_generation (on_written g f ok t) = tc_disconnect_generation t"
  "\<not> tc_is_connected t \<Longrightarrow> on_written g f ok t = t"
proof -
  have dw: "transfer_gens (doWrite (t\<lparr>tc_write_queue := q\<rparr>)) \<subseteq> transfer_gens t \<union> {tc_active_connect_generation t}" for q
    using doWrite_gens [of "t\<lparr>tc_write_queue := q\<rparr>"] by (auto split: if_splits)
  with doWrite_gens [of t]
  show "transfer_gens (on_written g f ok t) \<subseteq> transfer_gens t \<union> (if tc_is_connected t then {tc_active_connect_generation t} else {})"
    by (auto simp: on_written_def Let_def)
  show "tc_disconnect_generation (on_written g f ok t) = tc_disconnect_generation t"
    by (simp add: on_written_def doWrite_quiet Let_def)
  show "\<not> tc_is_connected t \<Longrightarrow> on_written g f ok t = t" by (simp add: on_written_def)
qed

lemma quiet_upd [simp]:
  "quiet (t\<lparr>tc_resolver := b\<rparr>) = quiet t" "quiet (t\<lparr>tc_is_connected := b\<rparr>) = quiet t" "quiet (t\<lparr>tc_is_connecting := b\<rparr>) = quiet t"
  "quiet (t\<lparr>tc_pending_connect_callback := cb\<rparr>) = quiet t" "quiet (t\<lparr>tc_events := evs\<rparr>) = quiet t"
  "quiet (t\<lparr>tc_resolving := gs\<rparr>) = quiet t" "quiet (t\<lparr>tc_opening := gs\<rparr>) = quiet t" "quiet (t\<lparr>tc_strand := hs\<rparr>) = quiet t"
  "quiet (t\<lparr>tc_disconnect_requested := b\<rparr>) = quiet t" "quiet (t\<lparr>tc_active_connect_generation := g\<rparr>) = quiet t"
  by (simp_all add: quiet_def)

text \<open>A handler that moves no bytes.\<close>

definition same_transfers :: "TcpClient \<Rightarrow> TcpClient \<Rightarrow> bool" where
  "same_transfers t t' \<longleftrightarrow> transfer_gens t' = transfer_gens t \<and> tc_disconnect_generation t' = tc_disconnect_generation t
     \<and> tc_is_connected t' = tc_is_connected t \<and> quiet t' = quiet t"

lemma invoke_same: "same_transfers t (invokeConnectCallback cb ok t)"
  by (cases cb) (simp_all add: same_transfers_def invokeConnectCallback_def)

lemma call_pending_same: "same_transfers t (call_pending ok t)"
  using invoke_same [of "t\<lparr>tc_pending_connect_callback := None\<rparr>"] by (simp add: call_pending_def same_transfers_def)

lemma connect_task_same: "same_transfers t (on_connect_task cb t)"
  using invoke_same [of t] by (simp add: on_connect_task_def Let_def) (simp add: same_transfers_def)

lemma resolved_same: "same_transfers t (on_resolved g ok t)"
  using call_pending_same [of "t\<lparr>tc_resolver := False, tc_is_connecting := False\<rparr>"]
  by (simp add: on_resolved_def Let_def same_transfers_def)

lemma same_trans: "same_transfers t u \<Longrightarrow> same_transfers u v \<Longrightarrow> same_transfers t v"
  by (simp add: same_transfers_def)

lemma same_closing:
  assumes "\<not> tc_is_connected t"
  shows "same_transfers t (t\<lparr>tc_is_connecting := False, tc_is_connected := False\<rparr>)"
    "same_transfers t (t\<lparr>tc_is_connecting := False, tc_pending_connect_callback := None, tc_is_connected := False\<rparr>)"
  using assms by (simp_all add: same_transfers_def)

lemma connected_same:
  assumes "\<not> tc_is_connected t \<or> \<not> tc_is_connecting t"
  shows "same_transfers t (on_connected g ok t) \<or> (g = tc_disconnect_generation t \<and> (\<exists>cb evs. on_connected g ok t = t\<lparr>tc_is_connecting := False,
      tc_pending_connect_callback := cb, tc_is_connected := True, tc_events := evs, tc_reading := tc_reading t @ [g]\<rparr>))"
proof (cases "isValidGeneration g t \<and> tc_is_connecting t")
  case False
  then show ?thesis by (simp add: on_connected_def same_transfers_def)
next
  case True
  show ?thesis
  proof (cases "tc_disconnect_requested t \<or> \<not> ok")
    case True
    have off: "\<not> tc_is_connected t" using assms \<open>isValidGeneration g t \<and> tc_is_connecting t\<close> by blast
    have "on_connected g ok t \<in> {failConnect t, invokeConnectCallback (tc_pending_connect_callback t) False
        (t\<lparr>tc_is_connecting := False, tc_pending_connect_callback := None, tc_is_connected := False\<rparr>)}"
      using True \<open>isValidGeneration g t \<and> tc_is_connecting t\<close> by (auto simp: on_connected_def Let_def)
    then show ?thesis
      using same_trans [OF same_closing(1) [OF off] call_pending_same] same_trans [OF same_closing(2) [OF off] invoke_same]
      by (auto simp: failConnect_def)
  next
    case False
    have "on_connected g ok t = t\<lparr>tc_is_connecting := False, tc_pending_connect_callback := None, tc_is_connected := True,
        tc_events := (case tc_pending_connect_callback t of None \<Rightarrow> tc_events t | Some cb \<Rightarrow> tc_events t @ [OnConnect cb True]),
        tc_reading := tc_reading t @ [g]\<rparr>"
      using True False by (cases "tc_pending_connect_callback t")
        (auto simp: on_connected_def isValidGeneration_def invokeConnectCallback_def doRead_def Let_def)
    moreover have "g = tc_disconnect_generation t" using True by (auto simp: isValidGeneration_def)
    ultimately show ?thesis by blast
  qed
qed

text \<open>The handler that connects puts a read of the current generation under way.\<close>

lemma connected_gens:
  assumes "transfer_gens (t\<lparr>tc_strand := rest\<rparr>) \<subseteq> transfer_gens t" "tc_is_connecting t \<Longrightarrow> \<not> tc_is_connected t"
    "tc_is_connected t \<or> quiet t" "t' = on_connected g ok (t\<lparr>tc_strand := rest\<rparr>)"
  shows "transfer_gens t' \<subseteq> transfer_gens t \<union> current_gen t'" "tc_disconnect_generation t' = tc_disconnect_generation t"
    "tc_is_connected t \<Longrightarrow> tc_is_connected t'" "tc_is_connected t' \<or> quiet t'"
proof -
  let ?t = "t\<lparr>tc_strand := rest\<rparr>"
  from connected_same [of ?t g ok] assms(2) consider "same_transfers ?t t'"
    | cb evs where "g = tc_disconnect_generation t" "t' = ?t\<lparr>tc_is_connecting := False,
    tc_pending_connect_callback := cb, tc_is_connected := True, tc_events := evs, tc_reading := tc_reading t @ [g]\<rparr>"
    by (auto simp: assms(4))
  then have "transfer_gens t' \<subseteq> transfer_gens t \<union> current_gen t' \<and> tc_disconnect_generation t' = tc_disconnect_generation t
    \<and> (tc_is_connected t \<longrightarrow> tc_is_connected t') \<and> (tc_is_connected t' \<or> quiet t')"
  proof cases
    case 1
    then show ?thesis using assms(1,3) by (auto simp: same_transfers_def)
  next
    case 2
    have "transfer_gens (t\<lparr>tc_strand := rest, tc_reading := tc_reading t @ [g]\<rparr>) \<subseteq> transfer_gens t \<union> {g}"
      using assms(1) by (auto simp: transfer_gens_def)
    with 2 show ?thesis by (simp add: current_gen_def transfer_gens_def)
  qed
  then show "transfer_gens t' \<subseteq> transfer_gens t \<union> current_gen t'" "tc_disconnect_generation t' = tc_disconnect_generation t"
    "tc_is_connected t \<Longrightarrow> tc_is_connected t'" "tc_is_connected t' \<or> quiet t'" by blast+
qed

lemma run_client_gens:
  assumes "client_ok t" "tc_strand t = h # rest" "t' = run_client_task load message_cb h (t\<lparr>tc_strand := rest\<rparr>)"
    "tc_is_connected t \<or> quiet t"
  shows "transfer_gens t' \<subseteq> transfer_gens t \<union> current_gen t'"
    "tc_disconnect_generation t' = tc_disconnect_generation t + of_bool (h = DisconnectTask)"
    "h = DisconnectTask \<Longrightarrow> \<not> tc_is_connected t'" "h \<noteq> DisconnectTask \<Longrightarrow> tc_is_connected t \<Longrightarrow> tc_is_connected t'"
    "tc_is_connected t' \<or> quiet t'"
proof -
  let ?t = "t\<lparr>tc_strand := rest\<rparr>"
  have pop: "transfer_gens ?t \<subseteq> transfer_gens t" using assms(2) by (auto simp: transfer_gens_def)
  have act: "tc_is_connecting t \<or> tc_is_connected t \<Longrightarrow> tc_active_connect_generation t = tc_disconnect_generation t"
    "tc_is_connecting t \<Longrightarrow> \<not> tc_is_connected t"
    using assms(1) unfolding client_ok_def by blast+
  have goal: "transfer_gens t' \<subseteq> transfer_gens t \<union> current_gen t'
    \<and> tc_disconnect_generation t' = tc_disconnect_generation t + of_bool (h = DisconnectTask)
    \<and> (h = DisconnectTask \<longrightarrow> \<not> tc_is_connected t') \<and> (h \<noteq> DisconnectTask \<longrightarrow> tc_is_connected t \<longrightarrow> tc_is_connected t')
    \<and> (tc_is_connected t' \<or> quiet t')"
  proof (cases h)
    case DisconnectTask
    have t': "t' = on_disconnect_task ?t" using DisconnectTask assms(3) by (simp add: run_client_task_def)
    have "quiet t'" using disconnect_task_gens(3) [of ?t] assms(4) by (simp add: t' quiet_def)
    then show ?thesis using DisconnectTask disconnect_task_gens(1,2) [of ?t] pop
      by (simp add: t' disconnect_task_fields(2) le_supI1)
  next
    case (ConnectTask cb)
    then show ?thesis using connect_task_same [of ?t cb] assms(3,4) pop
      by (auto simp: run_client_task_def same_transfers_def)
  next
    case (Resolved g ok)
    then show ?thesis using resolved_same [of ?t g ok] assms(3,4) pop
      by (auto simp: run_client_task_def same_transfers_def)
  next
    case (Opened g ok)
    then show ?thesis using connected_gens [OF pop act(2) assms(4), where g = g and ok = ok and t' = t'] assms(3) by (auto simp: run_client_task_def)
  next
    case (SendTask f)
    have "transfer_gens (doWrite (?t\<lparr>tc_write_queue := q\<rparr>)) \<subseteq> transfer_gens t \<union> {tc_active_connect_generation t}" for q
      using doWrite_gens [of "?t\<lparr>tc_write_queue := q\<rparr>"] pop by (auto split: if_splits)
    then show ?thesis using SendTask assms(3,4) pop act(1)
      by (auto simp: run_client_task_def on_send_def current_gen_def quiet_def Let_def doWrite_quiet)
  next
    case (ReadDone g r)
    have "tc_message_cb ?t" using assms(1) by (simp add: client_ok_def)
    from on_read_gens [OF this, of t' load message_cb g r] ReadDone assms(3,4) pop act(1)
    show ?thesis by (auto simp: run_client_task_def current_gen_def split: if_splits)
  next
    case (WriteDone g f ok)
    with on_written_gens [where g = g and f = f and ok = ok and t = ?t] assms(3,4) pop act(1) on_written_reports(2) [of g f ok ?t]
    show ?thesis by (cases "tc_is_connected t") (auto simp: run_client_task_def current_gen_def)
  qed
  then show "transfer_gens t' \<subseteq> transfer_gens t \<union> current_gen t'"
    "tc_disconnect_generation t' = tc_disconnect_generation t + of_bool (h = DisconnectTask)"
    "h = DisconnectTask \<Longrightarrow> \<not> tc_is_connected t'" "h \<noteq> DisconnectTask \<Longrightarrow> tc_is_connected t \<Longrightarrow> tc_is_connected t'"
    "tc_is_connected t' \<or> quiet t'" by blast+
qed

lemma client_step_gens:
  assumes "client_step store load message_cb t a t'" "client_ok t" "tc_is_connected t \<or> quiet t"
  shows "transfer_gens t' \<subseteq> transfer_gens t \<union> current_gen t'"
    "tc_disconnect_generation t' = tc_disconnect_generation t + of_bool (a = CRun DisconnectTask)"
    "a = CRun DisconnectTask \<Longrightarrow> \<not> tc_is_connected t'" "a \<noteq> CRun DisconnectTask \<Longrightarrow> tc_is_connected t \<Longrightarrow> tc_is_connected t'"
    "tc_is_connected t' \<or> quiet t'"
proof -
  have "transfer_gens t' \<subseteq> transfer_gens t \<union> current_gen t'
    \<and> tc_disconnect_generation t' = tc_disconnect_generation t + of_bool (a = CRun DisconnectTask)
    \<and> (a = CRun DisconnectTask \<longrightarrow> \<not> tc_is_connected t') \<and> (a \<noteq> CRun DisconnectTask \<longrightarrow> tc_is_connected t \<longrightarrow> tc_is_connected t')
    \<and> (tc_is_connected t' \<or> quiet t')"
    using assms(1)
  proof (cases rule: client_step.cases)
    case (c_run h rest)
    from run_client_gens [OF assms(2) c_run(3) c_run(2) assms(3)] c_run(1) show ?thesis by auto
  next
    case (c_send data)
    then show ?thesis using assms(3)
      by (auto simp: client_send_def transfer_gens_def task_gen_def quiet_def split: sum.split)
  qed (use assms(3) in \<open>auto simp: client_connect_def client_disconnect_def transfer_gens_def task_gen_def quiet_def\<close>)
  then show "transfer_gens t' \<subseteq> transfer_gens t \<union> current_gen t'"
    "tc_disconnect_generation t' = tc_disconnect_generation t + of_bool (a = CRun DisconnectTask)"
    "a = CRun DisconnectTask \<Longrightarrow> \<not> tc_is_connected t'" "a \<noteq> CRun DisconnectTask \<Longrightarrow> tc_is_connected t \<Longrightarrow> tc_is_connected t'"
    "tc_is_connected t' \<or> quiet t'" by blast+
qed

text \<open>Every generation in use is the number of disconnects handled before it began.\<close>

definition gens_ok :: "nat \<Rightarrow> TcpClient \<Rightarrow> bool" where
  "gens_ok n t \<longleftrightarrow> tc_disconnect_generation t = of_nat n \<and> (tc_is_connected t \<or> quiet t)
     \<and> (\<forall>g\<in>transfer_gens t. \<exists>d. g = of_nat d \<and> d + of_bool (\<not> tc_is_connected t) \<le> n)"

lemma gens_ok_step:
  assumes "client_step store load message_cb t a t'" "client_ok t" "gens_ok n t"
  shows "gens_ok (n + of_bool (a = CRun DisconnectTask)) t'"
proof -
  note G = assms(3) [unfolded gens_ok_def]
  note S = client_step_gens [OF assms(1,2)]
  have live: "tc_is_connected t \<or> quiet t" using G by blast
  let ?n = "n + of_bool (a = CRun DisconnectTask)"
  have "\<exists>d. g = of_nat d \<and> d + of_bool (\<not> tc_is_connected t') \<le> ?n" if g: "g \<in> transfer_gens t'" for g
  proof (cases "g \<in> transfer_gens t")
    case True
    then obtain d where d: "g = of_nat d" "d + of_bool (\<not> tc_is_connected t) \<le> n" using G by blast
    show ?thesis
      using d S(3,4) [OF live] by (intro exI [of _ d]) (cases "tc_is_connected t"; cases "tc_is_connected t'"; auto)
  next
    case False
    then have "tc_is_connected t'" "g = tc_disconnect_generation t'"
      using S(1) [OF live] g by (auto simp: current_gen_def split: if_splits)
    with S(2) [OF live] G show ?thesis by (intro exI [of _ ?n]) simp
  qed
  then show ?thesis using S(2,5) [OF live] G by (simp add: gens_ok_def)
qed

lemma client_run_gens: "client_run store load message_cb tr t \<Longrightarrow> gens_ok (disconnects_run tr) t"
proof (induction rule: client_run.induct)
  case c_created
  show ?case by (simp add: gens_ok_def disconnects_run_def quiet_def transfer_gens_def setDisconnectCallback_def
      setMessageCallback_def TcpClient_ctor_def)
next
  case (c_stepped tr t a t')
  from gens_ok_step [OF c_stepped.hyps(2) client_run_ok [OF c_stepped.hyps(1)] c_stepped.IH]
  show ?case by (cases "a = CRun DisconnectTask") (auto simp: disconnects_run_def)
qed

text \<open>The step that connects: nothing of an earlier connection is under its generation.\<close>

lemma connecting_step:
  assumes "client_step store load message_cb t a t'" "client_ok t" "\<not> tc_is_connected t" "tc_is_connected t'" "quiet t"
  shows "tc_reading t' = [tc_disconnect_generation t']" "tc_writing t' = []" "tc_write_queue t' = []" "tc_read_buffer t' = []"
    "set (tc_strand t') \<subseteq> set (tc_strand t)" "tc_disconnect_generation t' = tc_disconnect_generation t"
proof -
  from assms(1) obtain h rest where a: "tc_strand t = h # rest" "t' = run_client_task load message_cb h (t\<lparr>tc_strand := rest\<rparr>)"
    using assms(3,4)
    by (cases rule: client_step.cases)
      (auto simp: client_connect_def client_send_def client_disconnect_def split: if_splits sum.splits)
  let ?t = "t\<lparr>tc_strand := rest\<rparr>"
  have "\<exists>g ok. h = Opened g ok"
  proof (cases h)
    case (ReadDone g r)
    have "tc_message_cb ?t" using assms(2) by (simp add: client_ok_def)
    from on_read_gens(3) [OF this refl, of load message_cb g r] ReadDone assms(3,4) a(2)
    show ?thesis by (simp add: run_client_task_def)
  qed (use connect_task_same [of ?t] resolved_same [of ?t] disconnect_task_fields(2) [of ?t] assms(3,4) a(2)
      in \<open>auto simp: run_client_task_def same_transfers_def on_send_def on_written_gens(3)\<close>)
  then obtain g ok where h: "h = Opened g ok" by blast
  then have t': "t' = on_connected g ok ?t" using a(2) by (simp add: run_client_task_def)
  with connected_same [of ?t g ok] assms(3,4) obtain cb evs where
    e: "t' = ?t\<lparr>tc_is_connecting := False, tc_pending_connect_callback := cb, tc_is_connected := True, tc_events := evs,
      tc_reading := tc_reading t @ [g]\<rparr>" "g = tc_disconnect_generation t"
    by (auto simp: same_transfers_def)
  have "tc_write_queue t = []" using assms(2,3) by (simp add: client_ok_def)
  with e assms(5) a(1) show "tc_reading t' = [tc_disconnect_generation t']" "tc_writing t' = []" "tc_write_queue t' = []"
    "tc_read_buffer t' = []" "set (tc_strand t') \<subseteq> set (tc_strand t)" "tc_disconnect_generation t' = tc_disconnect_generation t"
    by (auto simp: quiet_def)
qed

lemma link_starts_clean:
  assumes "client_run store load message_cb tr t" "\<not> tc_is_connected t" "client_step store load message_cb t a t'"
    "tc_is_connected t'" "disconnects_run tr < 2 ^ 64"
  shows "tc_reading t' = [tc_disconnect_generation t']" "tc_writing t' = []" "tc_write_queue t' = []" "tc_read_buffer t' = []"
    "h \<in> set (tc_strand t') \<Longrightarrow> task_gen h \<subseteq> - {tc_disconnect_generation t'}"
proof -
  note G = client_run_gens [OF assms(1), unfolded gens_ok_def]
  have "quiet t" using G assms(2) by blast
  note C = connecting_step [OF assms(3) client_run_ok [OF assms(1)] assms(2,4) this]
  show "tc_reading t' = [tc_disconnect_generation t']" "tc_writing t' = []" "tc_write_queue t' = []" "tc_read_buffer t' = []"
    by (rule C)+
  show "task_gen h \<subseteq> - {tc_disconnect_generation t'}" if "h \<in> set (tc_strand t')"
  proof -
    have "task_gen h \<subseteq> transfer_gens t" using that C(5) by (auto simp: transfer_gens_def)
    moreover have "g \<noteq> tc_disconnect_generation t" if g: "g \<in> transfer_gens t" for g
    proof -
      obtain d where d: "g = of_nat d" "d < disconnects_run tr" using G assms(2) g by fastforce
      then have "unat g = d" "unat (of_nat (disconnects_run tr) :: u64) = disconnects_run tr"
        using assms(5) by (simp_all add: unat_of_nat)
      with d(2) G show ?thesis by auto
    qed
    ultimately show ?thesis using C(6) by auto
  qed
qed

end
