(* ===== verification/ClientStreams.thy ===== *)
theory ClientStreams
  imports ClientLink
begin

text \<open>
  What a client writes to and reads from one connection (\<open>doWrite\<close>, \<open>doRead\<close> and their handlers in
  src/src/client/tcp_client.cpp) as streams: the invariant of an open link, and that frames leave in the
  order in which they were given to \<open>send\<close> and are reported in the order in which they arrive.
\<close>

section \<open>What is under way on the link\<close>

text \<open>The handlers of the link's own writes and reads that are waiting.\<close>

definition own_write :: "u64 \<Rightarrow> client_task \<Rightarrow> bool" where
  "own_write g h = (case h of WriteDone g' f ok \<Rightarrow> g' = g | _ \<Rightarrow> False)"

definition own_read :: "u64 \<Rightarrow> client_task \<Rightarrow> bool" where
  "own_read g h = (case h of ReadDone g' r \<Rightarrow> g' = g | _ \<Rightarrow> False)"

lemma own_simps [simp]:
  "own_write g (WriteDone g' f ok) \<longleftrightarrow> g' = g" "\<not> own_write g (ReadDone g' r)" "\<not> own_write g (SendTask f)"
  "\<not> own_write g (ConnectTask cb)" "\<not> own_write g (Resolved g' ok)" "\<not> own_write g (Opened g' ok)" "\<not> own_write g DisconnectTask"
  "own_read g (ReadDone g' r) \<longleftrightarrow> g' = g" "\<not> own_read g (WriteDone g' f ok)" "\<not> own_read g (SendTask f)"
  "\<not> own_read g (ConnectTask cb)" "\<not> own_read g (Resolved g' ok)" "\<not> own_read g (Opened g' ok)" "\<not> own_read g DisconnectTask"
  by (simp_all add: own_write_def own_read_def)

definition writes_waiting :: "TcpClient \<Rightarrow> client_task list" where
  "writes_waiting t = filter (own_write (tc_disconnect_generation t)) (tc_strand t)"

definition reads_waiting :: "TcpClient \<Rightarrow> client_task list" where
  "reads_waiting t = filter (own_read (tc_disconnect_generation t)) (tc_strand t)"

lemmas waiting_defs = reads_waiting_def writes_waiting_def

text \<open>\<open>D\<close> are the frames that are completely sent and taken off the queue.  The link is idle, or
  it sends the frame in front, or the handler for that is waiting, or the write has failed.\<close>

inductive up_ok :: "TcpClient \<Rightarrow> nat \<Rightarrow> byte list \<Rightarrow> frame_ref list \<Rightarrow> bool" for t :: TcpClient where
  up_idle: "tc_writing t = [] \<Longrightarrow> writes_waiting t = [] \<Longrightarrow> up_ok t 0 (concat (map snd D)) (D @ tc_write_queue t)"
| up_sending: "tc_write_queue t = f # q \<Longrightarrow> tc_is_writing t \<Longrightarrow> tc_writing t = [(tc_disconnect_generation t, f)] \<Longrightarrow>
    writes_waiting t = [] \<Longrightarrow> n \<le> length (snd f) \<Longrightarrow> up_ok t n (concat (map snd D) @ take n (snd f)) (D @ f # q)"
| up_sent: "tc_write_queue t = f # q \<Longrightarrow> tc_is_writing t \<Longrightarrow> tc_writing t = [] \<Longrightarrow>
    writes_waiting t = [WriteDone (tc_disconnect_generation t) f True] \<Longrightarrow>
    up_ok t 0 (concat (map snd D) @ snd f) (D @ f # q)"
| up_failed: "tc_write_queue t = f # q \<Longrightarrow> tc_is_writing t \<Longrightarrow> tc_writing t = [] \<Longrightarrow>
    writes_waiting t = [WriteDone (tc_disconnect_generation t) f' False] \<or> writes_waiting t = [] \<and> tc_disconnect_requested t \<Longrightarrow>
    prefix sent (concat (map snd (D @ f # q))) \<Longrightarrow> up_ok t n sent (D @ f # q)"

text \<open>A read is under way, or complete with bytes, or has failed; the messages reported and the
  read buffer are what decoding the bytes handled so far gives.\<close>

inductive down_ok :: "(byte list \<Rightarrow> u32) \<Rightarrow> TcpClient \<Rightarrow> byte list \<Rightarrow> byte list list \<Rightarrow> bool"
  for load :: "byte list \<Rightarrow> u32" and t :: TcpClient where
  down_reading: "tc_reading t = [tc_disconnect_generation t] \<Longrightarrow> reads_waiting t = [] \<Longrightarrow>
    frames load rd = (heard, tc_read_buffer t) \<Longrightarrow> down_ok load t rd heard"
| down_arrived: "tc_reading t = [] \<Longrightarrow> reads_waiting t = [ReadDone (tc_disconnect_generation t) (Some bytes)] \<Longrightarrow>
    frames load rd = (heard, tc_read_buffer t) \<Longrightarrow> down_ok load t (rd @ bytes) heard"
| down_failed: "tc_reading t = [] \<Longrightarrow> reads_waiting t = [ReadDone (tc_disconnect_generation t) None] \<Longrightarrow>
    frames load rd = (heard, tc_read_buffer t) \<Longrightarrow> down_ok load t rd heard"
| down_leaving: "tc_disconnect_requested t \<Longrightarrow> prefix heard (fst (frames load rd)) \<Longrightarrow> down_ok load t rd heard"

lemma up_ok_prefix: "up_ok t n sent taken \<Longrightarrow> prefix sent (concat (map snd taken))"
  by (induction rule: up_ok.induct) (simp_all add: take_is_prefix)

lemma down_ok_prefix:
  assumes "down_ok load t rd heard"
  shows "prefix heard (fst (frames load rd))"
  using assms
proof cases
  case (down_arrived bytes R)
  then show ?thesis using frames_append [of load R bytes] by simp
qed simp_all

lemma up_ok_cong:
  assumes "up_ok t n sent taken" "tc_write_queue t' = tc_write_queue t" "tc_writing t' = tc_writing t"
    "writes_waiting t' = writes_waiting t" "tc_is_writing t' = tc_is_writing t"
    "tc_disconnect_generation t' = tc_disconnect_generation t" "tc_disconnect_requested t \<Longrightarrow> tc_disconnect_requested t'"
  shows "up_ok t' n sent taken"
  using assms(1)
proof cases
  case (up_idle D)
  then show ?thesis using up_ok.up_idle [of t' D] assms(2-4) by simp
next
  case (up_sending f q D)
  then show ?thesis using up_ok.up_sending [of t' f q n D] assms(2-6) by simp
next
  case (up_sent f q D)
  then show ?thesis using up_ok.up_sent [of t' f q D] assms(2-6) by simp
next
  case (up_failed f q f' D)
  then show ?thesis using up_ok.up_failed [of t' f q f' sent D n] assms(2-7) by auto
qed

lemma down_ok_cong:
  assumes "down_ok load t rd heard" "tc_reading t' = tc_reading t" "reads_waiting t' = reads_waiting t"
    "tc_read_buffer t' = tc_read_buffer t" "tc_disconnect_generation t' = tc_disconnect_generation t"
    "tc_disconnect_requested t \<Longrightarrow> tc_disconnect_requested t'"
  shows "down_ok load t' rd heard"
  using assms(1)
proof cases
  case down_reading
  then show ?thesis using down_ok.down_reading [of t' load rd heard] assms(2-5) by simp
next
  case (down_arrived bytes R)
  then show ?thesis using down_ok.down_arrived [of t' bytes load R heard] assms(2-5) by simp
next
  case down_failed
  then show ?thesis using down_ok.down_failed [of t' load rd heard] assms(2-5) by simp
next
  case down_leaving
  then show ?thesis using down_ok.down_leaving [of t'] assms(6) by simp
qed

section \<open>Handlers of the link\<close>

lemma doWrite_up:
  assumes "tc_writing t = []" "writes_waiting t = []" "tc_is_connected t"
    "tc_active_connect_generation t = tc_disconnect_generation t"
  shows "up_ok (doWrite t) 0 (concat (map snd D)) (D @ tc_write_queue t)"
proof (cases "tc_disconnect_requested t \<or> tc_write_queue t = []")
  case True
  then have "doWrite t = t\<lparr>tc_is_writing := False\<rparr>" by (auto simp: doWrite_def)
  then show ?thesis using up_ok.up_idle [of "doWrite t" D] assms(1,2) by (simp add: waiting_defs)
next
  case False
  then obtain f q where "tc_write_queue t = f # q" by (cases "tc_write_queue t") auto
  with False assms show ?thesis using up_ok.up_sending [of "doWrite t" f q 0 D]
    by (simp add: waiting_defs doWrite_def)
qed

lemma on_send_up:
  assumes "up_ok t n sent taken" "tc_is_connected t" "\<not> tc_disconnect_requested t"
    "tc_active_connect_generation t = tc_disconnect_generation t"
  shows "up_ok (on_send f t) n sent (taken @ [f])"
proof -
  let ?t = "t\<lparr>tc_write_queue := tc_write_queue t @ [f]\<rparr>"
  have send: "on_send f t = (if tc_is_writing t then ?t else doWrite ?t)"
    using assms(2,3) by (simp add: on_send_def)
  from assms(1) show ?thesis
  proof cases
    case (up_idle D)
    have "up_ok ?t 0 (concat (map snd D)) (D @ tc_write_queue ?t)"
      by (rule up_ok.up_idle) (use up_idle in \<open>simp_all add: waiting_defs\<close>)
    moreover have "up_ok (doWrite ?t) 0 (concat (map snd D)) (D @ tc_write_queue ?t)"
      by (rule doWrite_up) (use up_idle assms(2,4) in \<open>simp_all add: waiting_defs\<close>)
    ultimately show ?thesis using up_idle by (simp add: send)
  next
    case (up_sending g q D)
    then show ?thesis using up_ok.up_sending [of ?t g "q @ [f]" n D] by (simp add: send waiting_defs)
  next
    case (up_sent g q D)
    then show ?thesis using up_ok.up_sent [of ?t g "q @ [f]" D] by (simp add: send waiting_defs)
  next
    case (up_failed g q f' D)
    then have "prefix sent (concat (map snd (D @ g # q @ [f])))"
      by (simp add: prefix_order.trans [OF up_failed(6)])
    with up_failed show ?thesis using up_ok.up_failed [of ?t g "q @ [f]" f' sent D n] by (simp add: send waiting_defs)
  qed
qed

text \<open>The handler of the link's own write.\<close>

lemma on_written_up:
  assumes "up_ok t n sent taken" "tc_strand t = WriteDone (tc_disconnect_generation t) f ok # rest" "tc_is_connected t"
    "tc_active_connect_generation t = tc_disconnect_generation t"
  shows "up_ok (on_written (tc_disconnect_generation t) f ok (t\<lparr>tc_strand := rest\<rparr>)) n sent taken"
proof -
  let ?t = "t\<lparr>tc_strand := rest\<rparr>" and ?g = "tc_disconnect_generation t"
  have ww: "writes_waiting t = WriteDone ?g f ok # writes_waiting ?t" using assms(2) by (simp add: waiting_defs)
  from assms(1) show ?thesis
  proof cases
    case (up_sent f' q D)
    then have w: "f' = f" "ok" "writes_waiting ?t = []" using ww by auto
    let ?u = "?t\<lparr>tc_write_queue := q\<rparr>"
    have "on_written ?g f ok ?t = (if q \<noteq> [] then doWrite ?u else ?u\<lparr>tc_is_writing := False\<rparr>)"
      using up_sent w assms(3,4) by (simp add: on_written_def)
    moreover have "up_ok (doWrite ?u) 0 (concat (map snd (D @ [f]))) ((D @ [f]) @ tc_write_queue ?u)"
      by (rule doWrite_up) (use up_sent w assms(3,4) in \<open>simp_all add: waiting_defs\<close>)
    moreover have "up_ok (?u\<lparr>tc_is_writing := False\<rparr>) 0 (concat (map snd (D @ [f]))) ((D @ [f]) @ tc_write_queue ?u)"
      using up_ok.up_idle [of "?u\<lparr>tc_is_writing := False\<rparr>" "D @ [f]"] up_sent w by (simp add: waiting_defs)
    ultimately show ?thesis using up_sent w by (cases q) simp_all
  next
    case (up_failed g q f' D)
    then have w: "\<not> ok" "writes_waiting ?t = []" using ww by auto
    then have "on_written ?g f ok ?t = client_disconnect ?t" using assms(3,4) by (simp add: on_written_def)
    moreover have "up_ok (client_disconnect ?t) n sent (D @ g # q)"
      by (rule up_ok.up_failed [of _ g q f']) (use up_failed w in \<open>simp_all add: client_disconnect_def waiting_defs\<close>)
    ultimately show ?thesis using up_failed by simp
  qed (use ww in simp_all)
qed

text \<open>The handler of the link's own read.\<close>

lemma client_calls_prefix:
  "prefix (fst (client_calls message_cb ps)) ps" "snd (client_calls message_cb ps) = CbReturns \<Longrightarrow> fst (client_calls message_cb ps) = ps"
  by (induction ps) (auto split: if_splits)

lemma heard_of_simps [simp]:
  "heard_of [] = []" "heard_of (map OnMessage ps) = ps" "heard_of [OnConnect cb ok] = []" "heard_of [OnDisconnect] = []"
  by (simp_all add: heard_of_def comp_def)

lemma on_read_down:
  assumes "down_ok load t rd heard" "tc_strand t = ReadDone (tc_disconnect_generation t) r # rest" "tc_is_connected t"
    "tc_active_connect_generation t = tc_disconnect_generation t" "tc_message_cb t"
    "t' = on_read load message_cb (tc_disconnect_generation t) r (t\<lparr>tc_strand := rest\<rparr>)"
  shows "down_ok load t' rd (heard @ heard_of (drop (length (tc_events t)) (tc_events t')))"
proof (cases "tc_disconnect_requested t")
  case True
  then have "t' = t\<lparr>tc_strand := rest\<rparr>" using assms(6) by (simp add: on_read_def)
  then show ?thesis using True down_ok_prefix [OF assms(1)] by (intro down_leaving) simp_all
next
  case False
  let ?t = "t\<lparr>tc_strand := rest\<rparr>" and ?g = "tc_disconnect_generation t"
  have rw: "reads_waiting t = ReadDone ?g r # reads_waiting ?t" using assms(2) by (simp add: waiting_defs)
  have valid: "isValidGeneration ?g ?t" using assms(4) by (simp add: isValidGeneration_def)
  from assms(1) show ?thesis
  proof cases
    case (down_arrived bytes R)
    then have r: "r = Some bytes" "reads_waiting ?t = []" using rw by auto
    obtain called eff where c: "client_calls message_cb (fst (frames load (tc_read_buffer ?t @ bytes))) = (called, eff)"
      by fastforce
    from on_read_live [OF valid _ _ _ c] assms(3,5,6) False r obtain left where
      t': "t' = (let t1 = ?t\<lparr>tc_events := tc_events ?t @ map OnMessage called, tc_read_buffer := left\<rparr>
         in if eff = CbReturns then doRead t1 else client_disconnect t1)"
      "eff \<noteq> CbThrows \<longrightarrow> left = snd (frames load (tc_read_buffer ?t @ bytes))" by auto
    have ev: "heard_of (drop (length (tc_events t)) (tc_events t')) = called"
      unfolding t'(1) Let_def by (simp add: doRead_def client_disconnect_def)
    have all: "frames load rd = (heard @ fst (frames load (tc_read_buffer t @ bytes)), snd (frames load (tc_read_buffer t @ bytes)))"
      using down_arrived frames_append [of load R bytes] by simp
    show ?thesis
    proof (cases "eff = CbReturns")
      case True
      then have "called = fst (frames load (tc_read_buffer t @ bytes))"
        using client_calls_prefix(2) [of message_cb "fst (frames load (tc_read_buffer t @ bytes))"] c by simp
      with True all t' down_arrived r(2) False assms(3,4) show ?thesis unfolding ev
        by (intro down_reading) (simp_all add: doRead_def waiting_defs)
    next
      case False
      have "prefix called (fst (frames load (tc_read_buffer t @ bytes)))"
        using client_calls_prefix(1) [of message_cb "fst (frames load (tc_read_buffer t @ bytes))"] c by simp
      with False all t'(1) show ?thesis unfolding ev by (intro down_leaving) (simp_all add: client_disconnect_def)
    qed
  next
    case down_failed
    then have "r = None" using rw by auto
    then have "t' = client_disconnect ?t" using valid assms(3,6) False by (simp add: on_read_def)
    with down_ok_prefix [OF assms(1)] show ?thesis by (intro down_leaving) (simp_all add: client_disconnect_def)
  qed (use rw False in simp_all)
qed

section \<open>The invariant of an open link\<close>

definition link_ok :: "(byte list \<Rightarrow> u32) \<Rightarrow> client_link \<Rightarrow> bool" where
  "link_ok load k \<longleftrightarrow> prefix (cl_sent k) (concat (map snd (cl_taken k))) \<and> prefix (cl_heard k) (fst (frames load (cl_read k)))
     \<and> (cl_open k \<longrightarrow> tc_is_connected (cl_client k) \<and> up_ok (cl_client k) (cl_written k) (cl_sent k) (cl_taken k)
          \<and> down_ok load (cl_client k) (cl_read k) (cl_heard k))"

lemma link_okI:
  assumes "up_ok (cl_client k) (cl_written k) (cl_sent k) (cl_taken k)" "down_ok load (cl_client k) (cl_read k) (cl_heard k)"
    "cl_open k \<Longrightarrow> tc_is_connected (cl_client k)"
  shows "link_ok load k"
  using assms up_ok_prefix down_ok_prefix unfolding link_ok_def by blast

lemma waiting_pop:
  assumes "tc_strand t = h # rest"
  shows "\<not> own_write (tc_disconnect_generation t) h \<Longrightarrow> writes_waiting (t\<lparr>tc_strand := rest\<rparr>) = writes_waiting t"
    "\<not> own_read (tc_disconnect_generation t) h \<Longrightarrow> reads_waiting (t\<lparr>tc_strand := rest\<rparr>) = reads_waiting t"
  using assms by (auto simp: waiting_defs)

lemma doWrite_down:
  "tc_reading (doWrite t) = tc_reading t" "reads_waiting (doWrite t) = reads_waiting t" "tc_read_buffer (doWrite t) = tc_read_buffer t"
  "tc_disconnect_requested (doWrite t) = tc_disconnect_requested t"
  by (simp_all add: doWrite_def waiting_defs split: list.split)

lemma waiting_upd [simp]:
  "reads_waiting (t\<lparr>tc_write_queue := q\<rparr>) = reads_waiting t" "reads_waiting (t\<lparr>tc_is_writing := b\<rparr>) = reads_waiting t"
  "reads_waiting (t\<lparr>tc_events := evs\<rparr>) = reads_waiting t" "writes_waiting (t\<lparr>tc_events := evs\<rparr>) = writes_waiting t"
  "reads_waiting (client_disconnect t) = reads_waiting t" "writes_waiting (client_disconnect t) = writes_waiting t"
  by (simp_all add: waiting_defs client_disconnect_def)

lemma on_written_down:
  "down_ok load t rd heard \<Longrightarrow> down_ok load (on_written g f ok t) rd heard"
  by (erule down_ok_cong)
    (auto simp: on_written_def Let_def doWrite_down doWrite_quiet doWrite_fields(1) client_disconnect_def waiting_defs)

lemma on_send_down: "down_ok load t rd heard \<Longrightarrow> down_ok load (on_send f t) rd heard"
  by (erule down_ok_cong) (auto simp: on_send_def Let_def doWrite_down doWrite_quiet)

text \<open>The three handlers that move bytes, and all others.\<close>

lemma send_link_ok:
  assumes "up_ok t n sent taken" "down_ok load t rd heard" "tc_is_connected t"
    "tc_active_connect_generation t = tc_disconnect_generation t" "t' = on_send f t"
  shows "up_ok t' n sent (taken @ takes (CRun (SendTask f)) t)" "down_ok load t' rd heard" "tc_events t' = tc_events t"
proof -
  show "up_ok t' n sent (taken @ takes (CRun (SendTask f)) t)"
  proof (cases "tc_disconnect_requested t")
    case True
    then show ?thesis using assms(1) by (simp add: assms(5) on_send_def takes_def)
  next
    case False
    with on_send_up [OF assms(1), of f] assms(3,4) show ?thesis by (simp add: assms(5) takes_def)
  qed
qed (simp_all add: assms on_send_down on_send_reports)

lemma read_link_ok:
  assumes "up_ok t n sent taken" "down_ok load t rd heard" "tc_is_connected t" "tc_message_cb t"
    "tc_active_connect_generation t = tc_disconnect_generation t" "tc_strand t = ReadDone g r # rest"
    "t' = on_read load message_cb g r (t\<lparr>tc_strand := rest\<rparr>)"
  shows "up_ok t' n sent taken" "down_ok load t' rd (heard @ heard_of (drop (length (tc_events t)) (tc_events t')))"
proof -
  let ?t = "t\<lparr>tc_strand := rest\<rparr>"
  have "tc_message_cb ?t" using assms(4) by simp
  from on_read_fields [OF this assms(7)] obtain more where more: "tc_strand t' = rest @ more" "set more \<subseteq> {DisconnectTask}"
    "tc_write_queue t' = tc_write_queue t" "tc_writing t' = tc_writing t" "tc_is_writing t' = tc_is_writing t"
    "tc_disconnect_generation t' = tc_disconnect_generation t" "tc_disconnect_requested t \<longrightarrow> tc_disconnect_requested t'" by auto
  have "filter (own_write (tc_disconnect_generation t)) more = []" using more(2) by (auto simp: filter_empty_conv)
  then have "writes_waiting t' = writes_waiting t" using assms(6) by (simp add: writes_waiting_def more(1,6))
  then show "up_ok t' n sent taken" by (intro up_ok_cong [OF assms(1)]) (simp_all add: more)
  show "down_ok load t' rd (heard @ heard_of (drop (length (tc_events t)) (tc_events t')))"
  proof (cases "g = tc_disconnect_generation t")
    case True
    with on_read_down [OF assms(2) _ assms(3,5,4)] assms(6,7) show ?thesis by simp
  next
    case False
    then have "t' = ?t" by (simp add: assms(7) on_read_def isValidGeneration_def)
    with down_ok_cong [OF assms(2), of ?t] waiting_pop(2) [OF assms(6)] False show ?thesis by simp
  qed
qed

lemma write_link_ok:
  assumes "up_ok t n sent taken" "down_ok load t rd heard" "tc_is_connected t"
    "tc_active_connect_generation t = tc_disconnect_generation t" "tc_strand t = WriteDone g f ok # rest"
    "t' = on_written g f ok (t\<lparr>tc_strand := rest\<rparr>)"
  shows "up_ok t' n sent taken" "down_ok load t' rd heard" "tc_events t' = tc_events t"
proof -
  let ?t = "t\<lparr>tc_strand := rest\<rparr>"
  have "down_ok load ?t rd heard" by (rule down_ok_cong [OF assms(2)]) (simp_all add: waiting_pop(2) [OF assms(5)])
  then show "down_ok load t' rd heard" "tc_events t' = tc_events t" by (simp_all add: assms(6) on_written_down on_written_reports)
  show "up_ok t' n sent taken"
  proof (cases "g = tc_disconnect_generation t")
    case True
    with on_written_up [OF assms(1) _ assms(3,4)] assms(5,6) show ?thesis by simp
  next
    case False
    then have "t' = ?t" by (simp add: assms(6) on_written_def)
    with up_ok_cong [OF assms(1), of ?t] waiting_pop(1) [OF assms(5)] False show ?thesis by simp
  qed
qed

lemma run_link_ok:
  assumes "client_ok t" "tc_strand t = h # rest" "t' = run_client_task load message_cb h (t\<lparr>tc_strand := rest\<rparr>)"
    "tc_is_connected t" "h \<noteq> DisconnectTask" "up_ok t n sent taken" "down_ok load t rd heard"
  shows "up_ok t' n sent (taken @ takes (CRun h) t)
    \<and> down_ok load t' rd (heard @ heard_of (drop (length (tc_events t)) (tc_events t')))"
proof -
  let ?t = "t\<lparr>tc_strand := rest\<rparr>"
  have act: "tc_active_connect_generation t = tc_disconnect_generation t" "\<not> tc_is_connecting t" "tc_message_cb t"
    using assms(1,4) unfolding client_ok_def by blast+
  have up: "up_ok ?t n sent taken" if "\<not> own_write (tc_disconnect_generation t) h"
    by (rule up_ok_cong [OF assms(6)]) (simp_all add: waiting_pop(1) [OF assms(2) that])
  have down: "down_ok load ?t rd heard" if "\<not> own_read (tc_disconnect_generation t) h"
    by (rule down_ok_cong [OF assms(7)]) (simp_all add: waiting_pop(2) [OF assms(2) that])
  note t' = assms(3)
  show ?thesis
  proof (cases h)
    case (ConnectTask cb)
    then have "t' = ?t\<lparr>tc_events := tc_events t @ [OnConnect cb False]\<rparr>"
      using assms(4) by (simp add: t' run_client_task_def on_connect_task_def invokeConnectCallback_def)
    with ConnectTask up_ok_cong [OF up, of t'] down_ok_cong [OF down, of t'] show ?thesis by (simp add: takes_def waiting_defs)
  next
    case (Resolved g ok)
    then show ?thesis using up down act(2) by (simp add: t' run_client_task_def on_resolved_def takes_def)
  next
    case (Opened g ok)
    then show ?thesis using up down act(2) by (simp add: t' run_client_task_def on_connected_def takes_def)
  next
    case (SendTask f)
    with send_link_ok [OF up down _ _ refl, of f] assms(4) act(1) show ?thesis
      by (simp add: t' run_client_task_def takes_def)
  next
    case (ReadDone g r)
    then have r: "tc_strand t = ReadDone g r # rest" "t' = on_read load message_cb g r ?t"
      using assms(2) by (simp_all add: t' run_client_task_def)
    from read_link_ok [OF assms(6,7,4) act(3,1) r] ReadDone show ?thesis by (simp add: takes_def)
  next
    case (WriteDone g f ok)
    then have w: "tc_strand t = WriteDone g f ok # rest" "t' = on_written g f ok ?t"
      using assms(2) by (simp_all add: t' run_client_task_def)
    from write_link_ok [OF assms(6,7,4) act(1) w] WriteDone show ?thesis by (simp add: takes_def)
  qed (use assms(5) in simp)
qed

text \<open>The steps of the network.\<close>

lemma waiting_network [simp]:
  "reads_waiting (t\<lparr>tc_reading := rs\<rparr>) = reads_waiting t" "writes_waiting (t\<lparr>tc_reading := rs\<rparr>) = writes_waiting t"
  "reads_waiting (t\<lparr>tc_writing := ws\<rparr>) = reads_waiting t" "writes_waiting (t\<lparr>tc_writing := ws\<rparr>) = writes_waiting t"
  "reads_waiting (t\<lparr>tc_resolving := gs\<rparr>) = reads_waiting t" "writes_waiting (t\<lparr>tc_resolving := gs\<rparr>) = writes_waiting t"
  "reads_waiting (t\<lparr>tc_opening := gs\<rparr>) = reads_waiting t" "writes_waiting (t\<lparr>tc_opening := gs\<rparr>) = writes_waiting t"
  "reads_waiting (t\<lparr>tc_next_frame := n\<rparr>) = reads_waiting t" "writes_waiting (t\<lparr>tc_next_frame := n\<rparr>) = writes_waiting t"
  by (simp_all add: reads_waiting_def writes_waiting_def)

lemma waiting_post:
  assumes "up_ok t n sent taken" "down_ok load t rd heard"
    "\<not> own_write (tc_disconnect_generation t) h" "\<not> own_read (tc_disconnect_generation t) h"
  shows "up_ok (tc_post h t) n sent taken" "down_ok load (tc_post h t) rd heard"
  by (rule up_ok_cong [OF assms(1)] down_ok_cong [OF assms(2)]; use assms(3,4) in \<open>simp add: waiting_defs\<close>)+

lemma read_completes_down:
  assumes "down_ok load t rd heard" "tc_reading t = gs @ g # gs'"
  shows "down_ok load (tc_post (ReadDone g (Some bytes)) (t\<lparr>tc_reading := gs @ gs'\<rparr>)) (rd @ bytes) heard"
    "down_ok load (tc_post (ReadDone g None) (t\<lparr>tc_reading := gs @ gs'\<rparr>)) rd heard"
proof -
  let ?t = "\<lambda>r. tc_post (ReadDone g r) (t\<lparr>tc_reading := gs @ gs'\<rparr>)"
  from assms(1) have "down_ok load (?t (Some bytes)) (rd @ bytes) heard \<and> down_ok load (?t None) rd heard"
  proof cases
    case down_reading
    then have g: "g = tc_disconnect_generation t" "gs = []" "gs' = []" using assms(2) by (auto simp: append_eq_Cons_conv)
    have "down_ok load (?t (Some bytes)) (rd @ bytes) heard"
      by (rule down_ok.down_arrived) (use down_reading g in \<open>simp_all add: waiting_defs\<close>)
    moreover have "down_ok load (?t None) rd heard"
      by (rule down_ok.down_failed) (use down_reading g in \<open>simp_all add: waiting_defs\<close>)
    ultimately show ?thesis by blast
  next
    case down_leaving
    have "prefix heard (fst (frames load (rd @ bytes)))"
      using down_leaving(2) frames_append [of load rd bytes] by simp
    with down_leaving show ?thesis by (simp add: down_ok.down_leaving)
  qed (use assms(2) in simp_all)
  then show "down_ok load (?t (Some bytes)) (rd @ bytes) heard" "down_ok load (?t None) rd heard" by blast+
qed

lemma write_completes_up:
  assumes "up_ok t n sent taken" "tc_writing t = ws @ (g, f) # ws'"
  shows "n = length (snd f) \<Longrightarrow> up_ok (tc_post (WriteDone g f True) (t\<lparr>tc_writing := ws @ ws'\<rparr>)) 0 sent taken"
    "up_ok (tc_post (WriteDone g f False) (t\<lparr>tc_writing := ws @ ws'\<rparr>)) n sent taken"
    "n + k \<le> length (snd f) \<Longrightarrow> up_ok t (n + k) (sent @ take k (drop n (snd f))) taken"
proof -
  let ?t = "\<lambda>ok. tc_post (WriteDone g f ok) (t\<lparr>tc_writing := ws @ ws'\<rparr>)"
  from assms obtain q D where s: "tc_write_queue t = f # q" "tc_is_writing t" "tc_writing t = [(tc_disconnect_generation t, f)]"
    "writes_waiting t = []" "n \<le> length (snd f)" "sent = concat (map snd D) @ take n (snd f)" "taken = D @ f # q"
    by cases (auto simp: append_eq_Cons_conv Cons_eq_append_conv)
  then have g: "g = tc_disconnect_generation t" "ws = []" "ws' = []" using assms(2) by (auto simp: append_eq_Cons_conv)
  show "n = length (snd f) \<Longrightarrow> up_ok (?t True) 0 sent taken"
    using up_ok.up_sent [of "?t True" f q D] s g by (simp add: waiting_defs)
  show "up_ok (?t False) n sent taken"
    using up_ok.up_failed [of "?t False" f q f sent D n] s g by (simp add: waiting_defs take_is_prefix)
  show "n + k \<le> length (snd f) \<Longrightarrow> up_ok t (n + k) (sent @ take k (drop n (snd f))) taken"
    using up_ok.up_sending [of t f q "n + k" D] s by (simp add: take_add)
qed

lemma client_step_link_ok:
  assumes "client_step store load message_cb t a t'" "client_ok t" "tc_is_connected t" "\<not> transfers a" "a \<noteq> CRun DisconnectTask"
    "up_ok t n sent taken" "down_ok load t rd heard"
  shows "up_ok t' n sent (taken @ takes a t) \<and> down_ok load t' rd (heard @ heard_of (drop (length (tc_events t)) (tc_events t')))"
  using assms(1)
proof (cases rule: client_step.cases)
  case (c_run h rest)
  with run_link_ok [OF assms(2) c_run(3) c_run(2) assms(3) _ assms(6,7)] assms(5) show ?thesis by simp
next
  case (c_read gs g gs' result)
  then have "result = None" using assms(4) by (auto simp: transfers_def)
  moreover have "up_ok (tc_post (ReadDone g None) (t\<lparr>tc_reading := gs @ gs'\<rparr>)) n sent taken"
    by (rule up_ok_cong [OF assms(6)]) (simp_all add: waiting_defs)
  ultimately show ?thesis using read_completes_down(2) [OF assms(7) c_read(3)] c_read(1,2) by (simp add: takes_def)
next
  case (c_write ws g f ws' ok)
  then have "ok = False" using assms(4) by (auto simp: transfers_def)
  moreover have "down_ok load (tc_post (WriteDone g f False) (t\<lparr>tc_writing := ws @ ws'\<rparr>)) rd heard"
    by (rule down_ok_cong [OF assms(7)]) (simp_all add: waiting_defs)
  ultimately show ?thesis using write_completes_up(2) [OF assms(6) c_write(3)] c_write(1,2) by (simp add: takes_def)
next
  case (c_connect cb)
  with waiting_post [OF assms(6,7), of "ConnectTask cb"] show ?thesis by (simp add: takes_def client_connect_def)
next
  case (c_send data)
  have "up_ok (t\<lparr>tc_next_frame := m\<rparr>) n sent taken" "down_ok load (t\<lparr>tc_next_frame := m\<rparr>) rd heard" for m
    by (rule up_ok_cong [OF assms(6)] down_ok_cong [OF assms(7)]; simp)+
  from waiting_post [OF this] assms(6,7) c_send show ?thesis
    by (cases "kMaxMessageSize < length data"; cases "frame_encode store data") (simp_all add: takes_def client_send_def)
next
  case c_disconnect
  have "up_ok (t\<lparr>tc_disconnect_requested := True\<rparr>) n sent taken" "down_ok load (t\<lparr>tc_disconnect_requested := True\<rparr>) rd heard"
    by (rule up_ok_cong [OF assms(6)] down_ok_cong [OF assms(7)]; simp add: reads_waiting_def writes_waiting_def)+
  from waiting_post [OF this] c_disconnect show ?thesis by (simp add: takes_def client_disconnect_def)
next
  case (c_resolve gs g gs' ok)
  have "up_ok (t\<lparr>tc_resolving := gs @ gs'\<rparr>) n sent taken" "down_ok load (t\<lparr>tc_resolving := gs @ gs'\<rparr>) rd heard"
    by (rule up_ok_cong [OF assms(6)] down_ok_cong [OF assms(7)]; simp)+
  from waiting_post [OF this] c_resolve show ?thesis by (simp add: takes_def)
next
  case (c_open gs g gs' ok)
  have "up_ok (t\<lparr>tc_opening := gs @ gs'\<rparr>) n sent taken" "down_ok load (t\<lparr>tc_opening := gs @ gs'\<rparr>) rd heard"
    by (rule up_ok_cong [OF assms(6)] down_ok_cong [OF assms(7)]; simp)+
  from waiting_post [OF this] c_open show ?thesis by (simp add: takes_def)
qed

lemma link_step_ok:
  assumes "link_step store load message_cb k l k'" "client_ok (cl_client k)" "link_ok load k"
  shows "link_ok load k'"
  using assms(1)
proof (cases rule: link_step.cases)
  case (k_client a t)
  show ?thesis
  proof (cases "cl_open k")
    case False
    then show ?thesis using k_client(2) assms(3) by (simp add: link_client_def link_ok_def)
  next
    case True
    note L = assms(3) [unfolded link_ok_def, THEN conjunct2, THEN conjunct2, rule_format, OF True]
    show ?thesis
    proof (cases "a = CRun DisconnectTask")
      case True
      then obtain rest where "t = on_disconnect_task ((cl_client k)\<lparr>tc_strand := rest\<rparr>)"
        using k_client(3) by (auto elim: client_step.cases simp: run_client_task_def)
      then have "heard_of (drop (length (tc_events (cl_client k))) (tc_events t)) = []"
        by (cases "tc_pending_connect_callback (cl_client k)") (simp_all add: disconnect_task_fields(1) heard_of_def)
      then show ?thesis using True k_client(2) assms(3) by (simp add: link_client_def link_ok_def takes_def)
    next
      case False
      with client_step_link_ok [OF k_client(3) assms(2) _ _ False] L k_client(2,4) True
        client_step_gens(4) [OF k_client(3) assms(2) _ False]
      show ?thesis by (intro link_okI) (auto simp: link_client_def)
    qed
  qed
next
  case (k_send g f n)
  note L = assms(3) [unfolded link_ok_def, THEN conjunct2, THEN conjunct2, rule_format, OF k_send(3)]
  from k_send(4) obtain ws ws' where "tc_writing (cl_client k) = ws @ (g, f) # ws'" by (meson split_list)
  with write_completes_up(3) [OF _ this] L k_send show ?thesis by (intro link_okI) auto
next
  case (k_written ws g f ws')
  note L = assms(3) [unfolded link_ok_def, THEN conjunct2, THEN conjunct2, rule_format, OF k_written(3)]
  have "down_ok load (tc_post (WriteDone g f True) ((cl_client k)\<lparr>tc_writing := ws @ ws'\<rparr>)) (cl_read k) (cl_heard k)"
    using L by (auto intro: down_ok_cong simp: waiting_defs)
  with write_completes_up(1) [OF _ k_written(4)] L k_written show ?thesis by (intro link_okI) auto
next
  case (k_read bytes t)
  note L = assms(3) [unfolded link_ok_def, THEN conjunct2, THEN conjunct2, rule_format, OF k_read(3)]
  from k_read(4) obtain gs g gs' where r: "tc_reading (cl_client k) = gs @ g # gs'"
    "t = tc_post (ReadDone g (Some bytes)) ((cl_client k)\<lparr>tc_reading := gs @ gs'\<rparr>)"
    by (auto elim: client_step.cases)
  have "up_ok t (cl_written k) (cl_sent k) (cl_taken k)"
    unfolding r(2) using L by (auto intro: up_ok_cong simp: waiting_defs)
  with read_completes_down(1) [OF _ r(1)] L r(2) k_read show ?thesis by (intro link_okI) auto
qed

lemma disconnects_run_append: "disconnects_run (tr @ tr') = disconnects_run tr + disconnects_run tr'"
  by (simp add: disconnects_run_def)

lemma link_run_ok:
  assumes "link_run store load message_cb tr k" "disconnects_run tr < 2 ^ 64"
  shows "link_ok load k"
  using assms
proof (induction rule: link_run.induct)
  case (k_up tr t a t')
  then have "disconnects_run tr < 2 ^ 64" by (simp add: disconnects_run_append)
  note L = link_starts_clean [OF k_up.hyps(1-4) this]
  have "h \<in> set (tc_strand t') \<Longrightarrow> \<not> own_write (tc_disconnect_generation t') h \<and> \<not> own_read (tc_disconnect_generation t') h" for h
    using L(5) [of h] by (cases h) (auto simp: task_gen_def)
  then have w: "writes_waiting t' = []" "reads_waiting t' = []" by (auto simp: waiting_defs filter_empty_conv)
  show ?case
    using up_ok.up_idle [of t' "[]"] down_ok.down_reading [of t' load "[]" "[]"] w L(1-4) k_up.hyps(4)
    by (intro link_okI) (simp_all add: link_of_def frames_Nil)
next
  case (k_stepped tr k l k')
  then have "disconnects_run tr < 2 ^ 64" by (simp add: disconnects_run_append)
  from link_step_ok [OF k_stepped.hyps(2) client_run_ok [OF link_run_client [OF k_stepped.hyps(1)]] k_stepped.IH [OF this]]
  show ?case .
qed

section \<open>Where the frames come from\<close>

text \<open>The frames that wait on the strand, and the payloads handed to \<open>send\<close> that fit in a frame.\<close>

definition queued :: "TcpClient \<Rightarrow> frame_ref list" where
  "queued t = concat (map (\<lambda>h. case h of SendTask f \<Rightarrow> [f] | _ \<Rightarrow> []) (tc_strand t))"

definition client_sends :: "client_label list \<Rightarrow> byte list list" where
  "client_sends tr = concat (map (\<lambda>a. case a of CSend d \<Rightarrow> if frame_ok d then [d] else [] | _ \<Rightarrow> []) tr)"

lemma client_sends_append: "client_sends (tr @ tr') = client_sends tr @ client_sends tr'"
  by (simp add: client_sends_def)

lemma client_step_queued:
  assumes "client_step store load message_cb t a t'" "client_ok t"
  shows "\<exists>f. (case a of CRun (SendTask f) \<Rightarrow> [f] | _ \<Rightarrow> []) @ queued t' = queued t @ f
    \<and> map snd f = map (wire store) (client_sends [a])"
  using assms(1)
proof (cases rule: client_step.cases)
  case (c_run h rest)
  from run_task_grows [OF assms(2) c_run(3) c_run(2)] obtain more where
    more: "tc_strand t' = rest @ more" "\<forall>f. SendTask f \<notin> set more" by blast
  have "concat (map (\<lambda>h. case h of SendTask f \<Rightarrow> [f] | _ \<Rightarrow> []) more) = []"
    using more(2) by (auto split: client_task.splits)
  then show ?thesis using c_run(1,3) more(1) by (cases h) (simp_all add: queued_def client_sends_def)
next
  case (c_send data)
  then show ?thesis
    by (cases "frame_ok data")
      (auto simp: client_send_def queued_def client_sends_def frame_ok_def wire_def frame_encode_def frame_bytes_def)
qed (auto simp: queued_def client_sends_def client_connect_def client_disconnect_def)

lemma client_run_queued:
  assumes "client_run store load message_cb tr t"
  shows "subseq (map snd (queued t)) (map (wire store) (client_sends tr))"
  using assms
proof (induction rule: client_run.induct)
  case c_created
  show ?case by (simp add: queued_def setDisconnectCallback_def setMessageCallback_def TcpClient_ctor_def)
next
  case (c_stepped tr t a t')
  from client_step_queued [OF c_stepped.hyps(2) client_run_ok [OF c_stepped.hyps(1)]] obtain f where
    f: "(case a of CRun (SendTask f) \<Rightarrow> [f] | _ \<Rightarrow> []) @ queued t' = queued t @ f"
    "map snd f = map (wire store) (client_sends [a])" by blast
  have "subseq (queued t') (queued t @ f)" using f(1) by (metis list_emb_append2 subseq_order.order_refl)
  then have "subseq (map snd (queued t')) (map snd (queued t) @ map snd f)" using subseq_map by fastforce
  moreover have "subseq (map snd (queued t) @ map snd f) (map (wire store) (client_sends (tr @ [a])))"
    unfolding client_sends_append map_append f(2) [symmetric] by (intro list_emb_append_mono c_stepped.IH subseq_order.order_refl)
  ultimately show ?case by (rule subseq_order.trans)
qed

text \<open>The frames taken by the link, then those that wait.\<close>

definition link_frames :: "client_link \<Rightarrow> byte list list" where
  "link_frames k = map snd (cl_taken k @ queued (cl_client k))"

lemma link_step_frames:
  assumes "link_step store load message_cb k l k'" "client_ok (cl_client k)"
  shows "subseq (link_frames k') (link_frames k @ map (wire store) (client_sends (client_part l)))"
proof -
  have client: "subseq (map snd (cl_taken k @ u @ queued t)) (link_frames k @ map (wire store) (client_sends [a]))"
    if a: "client_step store load message_cb (cl_client k) a t" and u: "u = [] \<or> u = takes a (cl_client k)" for a t u
  proof -
    let ?run = "case a of CRun (SendTask f) \<Rightarrow> [f] | _ \<Rightarrow> []"
    from client_step_queued [OF a assms(2)] obtain f where
      f: "?run @ queued t = queued (cl_client k) @ f" "map snd f = map (wire store) (client_sends [a])" by blast
    have "u = [] \<or> u = ?run" using u by (auto simp: takes_def split: client_label.splits client_task.splits if_splits)
    then have "subseq (u @ queued t) (?run @ queued t)" by (auto intro: list_emb_append_mono)
    then have "subseq (map snd (u @ queued t)) (map snd (queued (cl_client k)) @ map snd f)"
      unfolding f(1) using subseq_map by fastforce
    then show ?thesis unfolding f(2) link_frames_def by (simp add: list_emb_append_mono)
  qed
  from assms(1) show ?thesis
  proof (cases rule: link_step.cases)
    case (k_client a t)
    with client [OF k_client(3), of "[]"] client [OF k_client(3), of "takes a (cl_client k)"] show ?thesis
      by (auto simp: link_client_def link_frames_def client_part_def)
  next
    case (k_send g f n)
    then show ?thesis by (simp add: link_frames_def client_part_def client_sends_def)
  next
    case (k_written ws g f ws')
    then show ?thesis by (simp add: link_frames_def client_part_def client_sends_def queued_def)
  next
    case (k_read bytes t)
    with client [OF k_read(4), of "[]"] show ?thesis by (simp add: link_frames_def client_part_def)
  qed
qed

lemma link_run_frames:
  assumes "link_run store load message_cb tr k"
  shows "subseq (link_frames k) (map (wire store) (client_sends tr))"
  using assms
proof (induction rule: link_run.induct)
  case (k_up tr t a t')
  then show ?case using client_run_queued [OF client_run.c_stepped [OF k_up(1,3)]] by (simp add: link_frames_def link_of_def)
next
  case (k_stepped tr k l k')
  note S = link_step_frames [OF k_stepped.hyps(2) client_run_ok [OF link_run_client [OF k_stepped.hyps(1)]]]
  have "subseq (link_frames k @ map (wire store) (client_sends (client_part l))) (map (wire store) (client_sends (tr @ client_part l)))"
    using k_stepped.IH by (simp add: client_sends_append list_emb_append_mono)
  with S show ?case by (rule subseq_order.trans)
qed

lemma subseq_of_map: "subseq xs (map f ys) \<Longrightarrow> \<exists>zs. subseq zs ys \<and> xs = map f zs"
proof (induction ys arbitrary: xs)
  case (Cons y ys)
  show ?case
  proof (cases "subseq xs (map f ys)")
    case True
    with Cons.IH obtain zs where "subseq zs ys" "xs = map f zs" by blast
    then show ?thesis by (intro exI [of _ zs]) auto
  next
    case False
    with Cons.prems obtain xs' where x: "xs = f y # xs'" "subseq xs' (map f ys)"
      by (cases xs) (auto split: if_splits elim: list_emb.cases)
    from Cons.IH [OF x(2)] obtain zs where "subseq zs ys" "xs' = map f zs" by blast
    with x(1) show ?thesis by (intro exI [of _ "y # zs"]) auto
  qed
qed auto

lemma client_sends_ok: "p \<in> set (client_sends tr) \<Longrightarrow> frame_ok p"
  by (auto simp: client_sends_def split: client_label.splits if_splits)

section \<open>What a connection of the client promises\<close>

text \<open>The payloads taken for sending on the link.\<close>

lemma link_taken:
  assumes "link_run store load message_cb tr k"
  obtains ps where "subseq ps (client_sends tr)" "map snd (cl_taken k) = map (wire store) ps" "\<forall>p\<in>set ps. frame_ok p"
proof -
  have "subseq (map snd (cl_taken k)) (link_frames k)"
    unfolding link_frames_def map_append by (rule list_emb_prefix) simp
  with link_run_frames [OF assms] have "subseq (map snd (cl_taken k)) (map (wire store) (client_sends tr))"
    by (blast intro: subseq_order.trans)
  from subseq_of_map [OF this] obtain ps where ps: "subseq ps (client_sends tr)" "map snd (cl_taken k) = map (wire store) ps"
    by blast
  moreover have "\<forall>p\<in>set ps. frame_ok p"
  proof
    fix p assume "p \<in> set ps"
    with ps(1) show "frame_ok p" by (rule list_emb_set) (use client_sends_ok in auto)
  qed
  ultimately show ?thesis by (rule that)
qed

lemma link_sent_frames:
  assumes "u32_wire store load" "link_run store load message_cb tr k" "disconnects_run tr < 2 ^ 64"
    "map snd (cl_taken k) = map (wire store) ps" "\<forall>p\<in>set ps. frame_ok p"
  shows "prefix (fst (frames load (cl_sent k))) ps"
    "cl_open k \<Longrightarrow> tc_write_queue (cl_client k) = [] \<Longrightarrow> frames load (cl_sent k) = (ps, [])"
proof -
  note ok = link_run_ok [OF assms(2,3), unfolded link_ok_def]
  have all: "frames load (concat (map (wire store) ps)) = (ps, [])"
    by (rule stream_codec.dec_encs [OF frames_stream_codec [OF assms(1)] assms(5)])
  obtain more where "concat (map (wire store) ps) = cl_sent k @ more" using ok assms(4) by (auto simp: prefix_def)
  with all frames_append [of load "cl_sent k" more] show "prefix (fst (frames load (cl_sent k))) ps"
    by (metis fst_conv prefixI)
  show "frames load (cl_sent k) = (ps, [])" if "cl_open k" "tc_write_queue (cl_client k) = []"
  proof -
    have "up_ok (cl_client k) (cl_written k) (cl_sent k) (cl_taken k)" using ok that by blast
    then have "cl_sent k = concat (map snd (cl_taken k))" using that(2) by cases simp_all
    with all assms(4) show ?thesis by simp
  qed
qed

lemma link_heard_frames:
  assumes "link_run store load message_cb tr k" "disconnects_run tr < 2 ^ 64"
  shows "prefix (cl_heard k) (fst (frames load (cl_read k)))"
    "cl_open k \<Longrightarrow> \<not> tc_disconnect_requested (cl_client k) \<Longrightarrow> reads_waiting (cl_client k) = [] \<Longrightarrow>
       frames load (cl_read k) = (cl_heard k, tc_read_buffer (cl_client k))"
proof -
  note ok = link_run_ok [OF assms, unfolded link_ok_def]
  show "prefix (cl_heard k) (fst (frames load (cl_read k)))" using ok by blast
  show "frames load (cl_read k) = (cl_heard k, tc_read_buffer (cl_client k))"
    if "cl_open k" "\<not> tc_disconnect_requested (cl_client k)" "reads_waiting (cl_client k) = []"
  proof -
    have "down_ok load (cl_client k) (cl_read k) (cl_heard k)" using ok that by blast
    then show ?thesis using that(2,3) by cases simp_all
  qed
qed

text \<open>A client sends in order: whatever the network, its callbacks and other threads do, the bytes
  that have left on a connection are the beginning of the encodings of some payloads that were
  given to \<open>send\<close>, in the order in which they were given; and all of them have left when the queue
  is empty and the connection is up.\<close>

lemma client_sends_in_order:
  assumes "u32_wire store load" "link_run store load message_cb tr k" "disconnects_run tr < 2 ^ 64"
  shows "\<exists>ps. subseq ps (client_sends tr) \<and> map snd (cl_taken k) = map (wire store) ps
    \<and> prefix (fst (frames load (cl_sent k))) ps
    \<and> (cl_open k \<and> tc_write_queue (cl_client k) = [] \<longrightarrow> frames load (cl_sent k) = (ps, []))"
proof -
  obtain ps where ps: "subseq ps (client_sends tr)" "map snd (cl_taken k) = map (wire store) ps" "\<forall>p\<in>set ps. frame_ok p"
    by (rule link_taken [OF assms(2)])
  with link_sent_frames [OF assms ps(2,3)] show ?thesis by blast
qed

end
