(* ===== verification/Connection.thy ===== *)
theory Connection
  imports ClientStreams Session
begin

text \<open>
  A client and the server's session for it (src/src/client/tcp_client.cpp and
  src/src/server/session.cpp) joined by a TCP connection: what one side writes is what the other
  may read, in order, in pieces of any size and with any delay.  Everything else, losing the
  connection included, happens on each side as it does alone, in any interleaving.
\<close>

section \<open>The connection\<close>

record connection =
  cn_link :: client_link
  cn_session :: Session
  cn_up_read :: nat

text \<open>The bytes on their way to the server and to the client.\<close>

definition in_flight_up :: "connection \<Rightarrow> byte list" where
  "in_flight_up c = drop (cn_up_read c) (cl_sent (cn_link c))"

definition in_flight_down :: "connection \<Rightarrow> byte list" where
  "in_flight_down c = drop (length (cl_read (cn_link c))) (se_sent (cn_session c))"

text \<open>A read takes bytes that are on their way.\<close>

inductive connection_step ::
  "(u32 \<Rightarrow> byte list) \<Rightarrow> (byte list \<Rightarrow> u32) \<Rightarrow> (byte list \<Rightarrow> cb_effect) \<Rightarrow> connection \<Rightarrow> link_label + session_label \<Rightarrow> connection \<Rightarrow> bool"
  for store :: "u32 \<Rightarrow> byte list" and load :: "byte list \<Rightarrow> u32" and message_cb :: "byte list \<Rightarrow> cb_effect" where
  n_client: "link_step store load message_cb (cn_link c) l k \<Longrightarrow>
    (\<And>bytes. l = KRead bytes \<Longrightarrow> prefix bytes (in_flight_down c)) \<Longrightarrow>
    connection_step store load message_cb c (Inl l) (c\<lparr>cn_link := k\<rparr>)"
| n_session: "session_step store load (cn_session c) b s \<Longrightarrow>
    (\<And>bytes. b = SReadDone bytes \<Longrightarrow> prefix bytes (in_flight_up c)) \<Longrightarrow>
    connection_step store load message_cb c (Inr b) (c\<lparr>cn_session := s, cn_up_read := cn_up_read c + length (arrived [b])\<rparr>)"

text \<open>It begins with the step in which the client learns that it is connected; the session may have
  been busy before, but cannot have read anything.\<close>

inductive connection_run ::
  "(u32 \<Rightarrow> byte list) \<Rightarrow> (byte list \<Rightarrow> u32) \<Rightarrow> (byte list \<Rightarrow> cb_effect) \<Rightarrow> SessionId
    \<Rightarrow> client_label list \<Rightarrow> session_label list \<Rightarrow> connection \<Rightarrow> bool"
  for store :: "u32 \<Rightarrow> byte list" and load :: "byte list \<Rightarrow> u32" and message_cb :: "byte list \<Rightarrow> cb_effect" and sid :: SessionId where
  n_up: "client_run store load message_cb ctr t \<Longrightarrow> \<not> tc_is_connected t \<Longrightarrow> client_step store load message_cb t a t' \<Longrightarrow>
    tc_is_connected t' \<Longrightarrow> session_run store load sid str s \<Longrightarrow> arrived str = [] \<Longrightarrow>
    connection_run store load message_cb sid (ctr @ [a]) str \<lparr>cn_link = link_of t', cn_session = s, cn_up_read = 0\<rparr>"
| n_client_steps: "connection_run store load message_cb sid ctr str c \<Longrightarrow> connection_step store load message_cb c (Inl l) c' \<Longrightarrow>
    connection_run store load message_cb sid (ctr @ client_part l) str c'"
| n_session_steps: "connection_run store load message_cb sid ctr str c \<Longrightarrow> connection_step store load message_cb c (Inr b) c' \<Longrightarrow>
    connection_run store load message_cb sid ctr (str @ [b]) c'"

inductive_simps connection_client: "connection_step store load message_cb c (Inl l) c'"
inductive_simps connection_session: "connection_step store load message_cb c (Inr b) c'"

section \<open>The streams\<close>

lemma link_step_sent: "link_step store load message_cb k l k' \<Longrightarrow> prefix (cl_sent k) (cl_sent k')"
  by (cases rule: link_step.cases) (auto simp: link_client_def)

lemma link_step_read:
  "link_step store load message_cb k l k' \<Longrightarrow> cl_read k' = cl_read k @ (case l of KRead bytes \<Rightarrow> bytes | _ \<Rightarrow> [])"
  by (cases rule: link_step.cases) (auto simp: link_client_def)

lemma session_step_sent:
  assumes "session_step store load s b s'"
  shows "prefix (se_sent s) (se_sent s')"
  using assms
proof (cases rule: session_step.cases)
  case (s_run t rest)
  have keep: "se_sent (Session.doRead s) = se_sent s" "se_sent (session_close s) = se_sent s"
    "se_sent (Session.doWrite store s) = se_sent s" "se_sent (Session.close_socket s) = se_sent s" for s
    by (simp_all add: session_defs Let_def split: list.split sum.split)
  show ?thesis
  proof (cases t)
    case (OnRead result)
    then show ?thesis using s_run keep
      by (cases result) (simp_all add: run_session_task_def on_read_None on_read_eq)
  qed (use s_run keep in \<open>simp_all add: run_session_task_def Session.on_send_def Session.on_close_def Session.on_write_def Let_def\<close>)
qed (simp_all add: session_start_def session_send_def session_close_def)

text \<open>A read keeps what has been read a beginning of what was written.\<close>

lemma client_reads:
  assumes "link_step store load message_cb (cn_link c) l k" "\<forall>bytes. l = KRead bytes \<longrightarrow> prefix bytes (in_flight_down c)"
    "prefix (cl_read (cn_link c)) (se_sent (cn_session c))"
  shows "prefix (cl_read k) (se_sent (cn_session c))"
proof -
  from assms(3) obtain r where "se_sent (cn_session c) = cl_read (cn_link c) @ r" by (auto simp: prefix_def)
  with assms(2,3) show ?thesis by (cases l) (simp_all add: link_step_read [OF assms(1)] in_flight_down_def)
qed

lemma session_reads:
  assumes "\<forall>bytes. b = SReadDone bytes \<longrightarrow> prefix bytes (in_flight_up c)" "cn_up_read c = length (arrived str)"
    "prefix (arrived str) (cl_sent (cn_link c))"
  shows "prefix (arrived (str @ [b])) (cl_sent (cn_link c))"
proof -
  from assms(3) obtain r where "cl_sent (cn_link c) = arrived str @ r" by (auto simp: prefix_def)
  with assms show ?thesis by (cases b) (simp_all add: in_flight_up_def arrived_def)
qed

text \<open>Both parts are runs of their own, and what each side has read is the beginning of what the
  other has written.\<close>

lemma connection_parts:
  assumes "connection_run store load message_cb sid ctr str c"
  shows "link_run store load message_cb ctr (cn_link c)" "session_run store load sid str (cn_session c)"
    "cn_up_read c = length (arrived str)" "prefix (arrived str) (cl_sent (cn_link c))"
    "prefix (cl_read (cn_link c)) (se_sent (cn_session c))"
proof -
  have "link_run store load message_cb ctr (cn_link c) \<and> session_run store load sid str (cn_session c)
    \<and> cn_up_read c = length (arrived str) \<and> prefix (arrived str) (cl_sent (cn_link c))
    \<and> prefix (cl_read (cn_link c)) (se_sent (cn_session c))"
    using assms
  proof (induction rule: connection_run.induct)
    case (n_up ctr t a t' str s)
    then show ?case using link_run.k_up [OF n_up.hyps(1-4)] by (simp add: link_of_def)
  next
    case (n_client_steps ctr str c l c')
    from n_client_steps.hyps(2) obtain k where
      k: "link_step store load message_cb (cn_link c) l k" "\<forall>bytes. l = KRead bytes \<longrightarrow> prefix bytes (in_flight_down c)"
      "c' = c\<lparr>cn_link := k\<rparr>" by (auto simp: connection_client)
    from client_reads [OF k(1,2)] n_client_steps.IH have "prefix (cl_read k) (se_sent (cn_session c))" by blast
    then show ?case
      using n_client_steps.IH link_run.k_stepped [of store load message_cb ctr "cn_link c" l k] k(1)
        link_step_sent [OF k(1)] prefix_order.trans unfolding k(3) by fastforce
  next
    case (n_session_steps ctr str c b c')
    from n_session_steps.hyps(2) obtain s where
      s: "session_step store load (cn_session c) b s" "\<forall>bytes. b = SReadDone bytes \<longrightarrow> prefix bytes (in_flight_up c)"
      "c' = c\<lparr>cn_session := s, cn_up_read := cn_up_read c + length (arrived [b])\<rparr>" by (auto simp: connection_session)
    from session_reads [of b c str] s(2) n_session_steps.IH
    have "prefix (arrived (str @ [b])) (cl_sent (cn_link c))" "arrived (str @ [b]) = arrived str @ arrived [b]"
      by (simp_all add: arrived_def)
    then show ?case
      using n_session_steps.IH session_run.stepped [of store load sid str "cn_session c" b s] s(1)
        session_step_sent [OF s(1)] prefix_order.trans unfolding s(3) by fastforce
  qed
  then show "link_run store load message_cb ctr (cn_link c)" "session_run store load sid str (cn_session c)"
    "cn_up_read c = length (arrived str)" "prefix (arrived str) (cl_sent (cn_link c))"
    "prefix (cl_read (cn_link c)) (se_sent (cn_session c))" by blast+
qed

section \<open>What the connection promises\<close>

text \<open>C6.  From client to server.  In whatever way the two sides, the network and other threads
  interleave: the messages that the session publishes are the beginning of the payloads that the
  client took for sending on this connection, and these were given to \<open>send\<close> in this order.  Nothing
  is lost, doubled, reordered or invented; once the client has nothing queued, nothing is on its way
  and the session has handled its reads, all of them have been published.\<close>

theorem connection_delivers_up:
  assumes "u32_wire store load" "connection_run store load message_cb sid ctr str c" "disconnects_run ctr < 2 ^ 64"
  shows "\<exists>ps. subseq ps (client_sends ctr) \<and> map snd (cl_taken (cn_link c)) = map (wire store) ps
    \<and> prefix (messages sid (se_published (cn_session c))) ps
    \<and> (cl_open (cn_link c) \<and> tc_write_queue (cl_client (cn_link c)) = [] \<and> in_flight_up c = [] \<and> reads_pending (cn_session c) = []
         \<longrightarrow> messages sid (se_published (cn_session c)) = ps)"
proof -
  note P = connection_parts [OF assms(2)]
  obtain ps where ps: "subseq ps (client_sends ctr)" "map snd (cl_taken (cn_link c)) = map (wire store) ps" "\<forall>p\<in>set ps. frame_ok p"
    by (rule link_taken [OF P(1)])
  have msgs: "messages sid (se_published (cn_session c)) = fst (frames load (received str))"
    using session_run_all [OF P(2)] by (simp add: read_history_def frames_unframe)
  have rec: "received str @ reads_pending (cn_session c) = arrived str" by (rule session_run_arrived [OF P(2)])
  then have pre: "prefix (received str) (cl_sent (cn_link c))" using P(4) by (metis prefixI prefix_order.trans)
  note S = link_sent_frames [OF assms(1) P(1) assms(3) ps(2,3)]
  have "prefix (fst (frames load (received str))) ps"
    using frames_mono [OF pre, of load] S(1) by (rule prefix_order.trans)
  moreover have "fst (frames load (received str)) = ps" if "cl_open (cn_link c)" "tc_write_queue (cl_client (cn_link c)) = []"
    "in_flight_up c = []" "reads_pending (cn_session c) = []"
  proof -
    have "arrived str = cl_sent (cn_link c)" using that(3) P(3,4) by (auto simp: in_flight_up_def prefix_def)
    with rec that(4) S(2) [OF that(1,2)] show ?thesis by simp
  qed
  ultimately show ?thesis using ps(1,2) msgs by (intro exI [of _ ps]) simp
qed

text \<open>C7.  From server to client.  The messages the client reports for the connection are the beginning
  of the payloads the session was given to send, in order; they are all of them once the session is
  idle and not failing, nothing is on its way, and the client has handled its reads and was not asked to
  disconnect.\<close>

theorem connection_delivers_down:
  assumes "u32_wire store load" "connection_run store load message_cb sid ctr str c" "disconnects_run ctr < 2 ^ 64"
  shows "prefix (cl_heard (cn_link c)) (sends str)
    \<and> (cl_open (cn_link c) \<and> \<not> tc_disconnect_requested (cl_client (cn_link c)) \<and> reads_waiting (cl_client (cn_link c)) = []
        \<and> in_flight_down c = [] \<and> \<not> write_broken (cn_session c) \<and> se_writing (cn_session c) = None
        \<and> se_write_queue (cn_session c) = [] \<longrightarrow> cl_heard (cn_link c) = sends str)"
proof -
  note P = connection_parts [OF assms(2)]
  note S = session_sent_frames [OF assms(1) P(2)] and H = link_heard_frames [OF P(1) assms(3)]
  have "prefix (cl_heard (cn_link c)) (sends str)"
    using prefix_order.trans [OF H(1) prefix_order.trans [OF frames_mono [OF P(5)] S(1)]] .
  moreover have "cl_heard (cn_link c) = sends str"
    if "cl_open (cn_link c)" "\<not> tc_disconnect_requested (cl_client (cn_link c))" "reads_waiting (cl_client (cn_link c)) = []"
      "in_flight_down c = []" "\<not> write_broken (cn_session c)" "se_writing (cn_session c) = None" "se_write_queue (cn_session c) = []"
  proof -
    have "cl_read (cn_link c) = se_sent (cn_session c)" using that(4) P(5) by (auto simp: in_flight_down_def prefix_def)
    with H(2) [OF that(1-3)] S(2) [OF that(5-7)] show ?thesis by simp
  qed
  ultimately show ?thesis by blast
qed

section \<open>Witnesses\<close>

text \<open>Both sides send one message and both arrive.\<close>

abbreviation quiet_cb :: "byte list \<Rightarrow> cb_effect" where
  "quiet_cb \<equiv> \<lambda>_. CbReturns"

lemma client_stepped:
  "connection_run store load cb sid ctr str c \<Longrightarrow> link_step store load cb (cn_link c) l k \<Longrightarrow>
    (\<And>bytes. l = KRead bytes \<Longrightarrow> prefix bytes (in_flight_down c)) \<Longrightarrow>
    connection_run store load cb sid (ctr @ client_part l) str (c\<lparr>cn_link := k\<rparr>)"
  by (rule connection_run.n_client_steps [OF _ connection_step.n_client])

lemma session_stepped:
  "connection_run store load cb sid ctr str c \<Longrightarrow> session_step store load (cn_session c) b s \<Longrightarrow>
    (\<And>bytes. b = SReadDone bytes \<Longrightarrow> prefix bytes (in_flight_up c)) \<Longrightarrow>
    connection_run store load cb sid ctr (str @ [b]) (c\<lparr>cn_session := s, cn_up_read := cn_up_read c + length (arrived [b])\<rparr>)"
  by (rule connection_run.n_session_steps [OF _ connection_step.n_session])

lemma wire_facts:
  "length (wire be_bytes [v]) = 9" "wire be_bytes [v] \<noteq> []" "frames be_value (wire be_bytes [v]) = ([[v]], [])"
proof -
  have ok: "frame_ok [v]" by (simp add: frame_ok_def kMaxMessageSize_def)
  then show "length (wire be_bytes [v]) = 9"
    by (simp add: wire_def frame_encode_cases frame_bytes_def buffers_def be.length_store)
  then show "wire be_bytes [v] \<noteq> []" by auto
  show "frames be_value (wire be_bytes [v]) = ([[v]], [])" using ok by (rule frame_stream.dec_enc)
qed

definition session_before :: Session where
  "session_before = (fresh_session 4)\<lparr>se_reading := True, se_sent := wire be_bytes [9]\<rparr>"

definition before_trace :: "session_label list" where
  "before_trace = [SStart, SRun StartRead, SSend [9], SRun (SendTask [9]), SWriteSome 9, SWriteDone, SRun (OnWrite True)]"

lemma session_before_run: "session_run be_bytes be_value 4 before_trace session_before"
proof -
  let ?b = "wire be_bytes [9]"
  let ?s0 = "fresh_session 4"
  let ?s1 = "?s0\<lparr>se_strand := [StartRead]\<rparr>"
  let ?s2 = "?s0\<lparr>se_reading := True\<rparr>"
  let ?s3 = "?s2\<lparr>se_strand := [SendTask [9]]\<rparr>"
  let ?s4 = "?s2\<lparr>se_is_writing := True, se_writing := Some ?b\<rparr>"
  let ?s5 = "?s4\<lparr>se_writing := Some [], se_sent := ?b\<rparr>"
  let ?s6 = "?s5\<lparr>se_writing := None, se_strand := [OnWrite True]\<rparr>"
  have t1: "session_step be_bytes be_value ?s0 SStart ?s1"
    using session_step.s_start [of be_bytes be_value ?s0] by (simp add: session_start_def fresh_session_def)
  have t2: "session_step be_bytes be_value ?s1 (SRun StartRead) ?s2"
    using session_step.s_run [of ?s1 StartRead "[]" be_bytes be_value]
    by (simp add: run_session_task_def Session.doRead_def fresh_session_def)
  have t3: "session_step be_bytes be_value ?s2 (SSend [9]) ?s3"
    using session_step.s_send [of be_bytes be_value ?s2 "[9]"] by (simp add: session_send_def fresh_session_def)
  have "frame_ok [9]" by (simp add: frame_ok_def kMaxMessageSize_def)
  then have t4: "session_step be_bytes be_value ?s3 (SRun (SendTask [9])) ?s4"
    using session_step.s_run [of ?s3 "SendTask [9]" "[]" be_bytes be_value]
    by (simp add: run_session_task_def Session.on_send_def Session.doWrite_def fresh_session_def frame_encode_cases
        wire_def frame_bytes_def)
  have t5: "session_step be_bytes be_value ?s4 (SWriteSome 9) ?s5"
    using session_step.s_write_some [of ?s4 ?b 9 be_bytes be_value] wire_facts(1) [of 9] by (simp add: fresh_session_def)
  have t6: "session_step be_bytes be_value ?s5 SWriteDone ?s6"
    using session_step.s_write_done [of ?s5 be_bytes be_value] by (simp add: fresh_session_def)
  have t7: "session_step be_bytes be_value ?s6 (SRun (OnWrite True)) session_before"
    using session_step.s_run [of ?s6 "OnWrite True" "[]" be_bytes be_value]
    by (simp add: run_session_task_def Session.on_write_def Session.doWrite_def session_before_def fresh_session_def)
  note r = session_run_steps
  from r [OF r [OF r [OF r [OF r [OF r [OF r [OF fresh_session_run t1] t2] t3] t4] t5] t6] t7]
  show ?thesis by (simp add: before_trace_def)
qed

text \<open>The client sends 7, then reads what the session sent.\<close>

definition sample_link :: "nat \<Rightarrow> client_link" where
  "sample_link n =
     (let f = (0, wire be_bytes [7]); t = connected_client\<lparr>tc_next_frame := 1\<rparr>; k = link_of t;
          sent = k\<lparr>cl_taken := [f], cl_sent := wire be_bytes [7]\<rparr>
      in [link_of connected_client, k\<lparr>cl_client := t\<lparr>tc_strand := [client_task.SendTask f]\<rparr>\<rparr>,
          k\<lparr>cl_client := t\<lparr>tc_write_queue := [f], tc_is_writing := True, tc_writing := [(0, f)]\<rparr>, cl_taken := [f]\<rparr>,
          sent\<lparr>cl_client := t\<lparr>tc_write_queue := [f], tc_is_writing := True, tc_writing := [(0, f)]\<rparr>, cl_written := 9\<rparr>,
          sent\<lparr>cl_client := t\<lparr>tc_write_queue := [f], tc_is_writing := True, tc_strand := [WriteDone 0 f True]\<rparr>\<rparr>,
          sent,
          sent\<lparr>cl_client := t\<lparr>tc_reading := [], tc_strand := [ReadDone 0 (Some (wire be_bytes [9]))]\<rparr>,
               cl_read := wire be_bytes [9]\<rparr>,
          sent\<lparr>cl_client := t\<lparr>tc_events := [OnConnect 7 True, OnMessage [9]]\<rparr>, cl_read := wire be_bytes [9], cl_heard := [[9]]\<rparr>] ! n)"

lemmas sample_defs = sample_link_def Let_def link_of_def connected_client_eq new_client_defs

definition sample_labels :: "link_label list" where
  "sample_labels = [KClient (CSend [7]), KClient (CRun (client_task.SendTask (0, wire be_bytes [7]))), KSend 9, KWritten,
     KClient (CRun (WriteDone 0 (0, wire be_bytes [7]) True)), KRead (wire be_bytes [9]),
     KClient (CRun (ReadDone 0 (Some (wire be_bytes [9]))))]"

lemma sample_link_steps:
  "link_step be_bytes be_value quiet_cb (sample_link 0) (KClient (CSend [7])) (sample_link 1)"
  "link_step be_bytes be_value quiet_cb (sample_link 1) (KClient (CRun (client_task.SendTask (0, wire be_bytes [7])))) (sample_link 2)"
  "link_step be_bytes be_value quiet_cb (sample_link 2) (KSend 9) (sample_link 3)"
  "link_step be_bytes be_value quiet_cb (sample_link 3) KWritten (sample_link 4)"
  "link_step be_bytes be_value quiet_cb (sample_link 4) (KClient (CRun (WriteDone 0 (0, wire be_bytes [7]) True))) (sample_link 5)"
  "link_step be_bytes be_value quiet_cb (sample_link 5) (KRead (wire be_bytes [9])) (sample_link 6)"
  "link_step be_bytes be_value quiet_cb (sample_link 6) (KClient (CRun (ReadDone 0 (Some (wire be_bytes [9]))))) (sample_link 7)"
proof -
  let ?k = "\<lambda>n. cl_client (sample_link n)"
  have ok: "frame_ok [7]" by (simp add: frame_ok_def kMaxMessageSize_def)
  have alone: "link_step be_bytes be_value quiet_cb (sample_link n) (KClient a) (sample_link m)"
    if "client_step be_bytes be_value quiet_cb (?k n) a t" "\<not> transfers a" "link_client a t (sample_link n) = sample_link m" for n a t m
    using link_step.k_client [OF that(1)] that(2,3) by simp
  let ?t = "connected_client\<lparr>tc_next_frame := 1, tc_reading := []\<rparr>"
  have read: "TcpClient.on_read be_value quiet_cb 0 (Some (wire be_bytes [9])) ?t
      = ?t\<lparr>tc_events := [OnConnect 7 True, OnMessage [9]], tc_reading := [0]\<rparr>"
  proof -
    have calls: "client_calls quiet_cb (fst (frames be_value (tc_read_buffer ?t @ wire be_bytes [9]))) = ([[9]], CbReturns)"
      by (simp add: wire_facts(3) connected_client_eq new_client_defs)
    have "isValidGeneration 0 ?t" "tc_is_connected ?t" "\<not> tc_disconnect_requested ?t" "tc_message_cb ?t"
      by (simp_all add: isValidGeneration_def connected_client_eq new_client_defs)
    from on_read_live [OF this calls] show ?thesis
      by (auto simp: wire_facts(3) TcpClient.doRead_def Let_def connected_client_eq new_client_defs)
  qed
  have run: "run_client_task be_value quiet_cb (ReadDone 0 (Some (wire be_bytes [9]))) (?k 6\<lparr>tc_strand := []\<rparr>)
      = TcpClient.on_read be_value quiet_cb 0 (Some (wire be_bytes [9])) ?t"
    by (simp add: run_client_task_def sample_defs)
  show "link_step be_bytes be_value quiet_cb (sample_link 0) (KClient (CSend [7])) (sample_link 1)"
    by (rule alone [OF client_step.c_send])
      (use ok in \<open>simp_all add: transfers_def sample_defs link_client_def client_send_def frame_encode_cases wire_def
        kMaxMessageSize_def takes_def heard_of_def\<close>)
  show "link_step be_bytes be_value quiet_cb (sample_link 1) (KClient (CRun (client_task.SendTask (0, wire be_bytes [7])))) (sample_link 2)"
    by (rule alone [OF client_step.c_run [where rest = "[]"]])
      (simp_all add: transfers_def sample_defs link_client_def run_client_task_def TcpClient.on_send_def TcpClient.doWrite_def
        takes_def heard_of_def)
  show "link_step be_bytes be_value quiet_cb (sample_link 2) (KSend 9) (sample_link 3)"
    using link_step.k_send [of "sample_link 2" 0 "(0, wire be_bytes [7])" 9] wire_facts(1) [of 7] by (simp add: sample_defs)
  show "link_step be_bytes be_value quiet_cb (sample_link 3) KWritten (sample_link 4)"
    using link_step.k_written [of "sample_link 3" "[]" 0 "(0, wire be_bytes [7])" "[]"] wire_facts(1) [of 7] by (simp add: sample_defs)
  show "link_step be_bytes be_value quiet_cb (sample_link 4) (KClient (CRun (WriteDone 0 (0, wire be_bytes [7]) True))) (sample_link 5)"
    by (rule alone [OF client_step.c_run [where rest = "[]"]])
      (simp_all add: transfers_def sample_defs link_client_def run_client_task_def on_written_def takes_def heard_of_def)
  show "link_step be_bytes be_value quiet_cb (sample_link 5) (KRead (wire be_bytes [9])) (sample_link 6)"
    using link_step.k_read [OF _ client_step.c_read [of "?k 5" "[]" 0 "[]" "Some (wire be_bytes [9])" be_bytes be_value quiet_cb]] wire_facts(1,2) [of 9]
    by (simp add: sample_defs TcpClient.READ_BLOCK_SIZE_def)
  show "link_step be_bytes be_value quiet_cb (sample_link 6) (KClient (CRun (ReadDone 0 (Some (wire be_bytes [9]))))) (sample_link 7)"
    by (rule alone [OF client_step.c_run [where rest = "[]"]])
      (simp_all add: run [unfolded read, simplified sample_defs, simplified] transfers_def link_client_def takes_def heard_of_def sample_defs)
qed

definition sample_trace :: "client_label list" where
  "sample_trace = connecting_trace @ concat (map client_part sample_labels)"

definition sample_session :: Session where
  "sample_session = session_before\<lparr>se_published := [NetworkMessageEvent 4 [7]]\<rparr>"

lemma sample_connection:
  "connection_run be_bytes be_value quiet_cb 4 sample_trace (before_trace @ [SReadDone (wire be_bytes [7]), SRun (OnRead (Some (wire be_bytes [7])))])
    \<lparr>cn_link = sample_link 7, cn_session = sample_session, cn_up_read = 9\<rparr>"
proof -
  let ?c = "\<lambda>n. \<lparr>cn_link = sample_link n, cn_session = session_before, cn_up_read = 0\<rparr>"
  have r0: "client_run be_bytes be_value quiet_cb [] (client_at 7 0)"
    using client_run.c_created by (simp add: client_at_def new_client_def)
  note run = client_run.c_stepped and s = client_at_steps [of be_bytes be_value quiet_cb 7]
  note r5 = run [OF run [OF run [OF run [OF run [OF r0 s(1)] s(2)] s(3)] s(4)] s(5)]
  have "connection_run be_bytes be_value quiet_cb 4 connecting_trace before_trace (?c 0)"
    using connection_run.n_up [OF r5 _ s(6) _ session_before_run]
    by (simp add: connecting_trace_def sample_link_def Let_def connected_client_def before_trace_def arrived_def
        client_at_def pending_client_def new_client_defs)
  moreover have "connection_run be_bytes be_value quiet_cb 4 (ctr @ client_part l) before_trace (?c m)"
    if "connection_run be_bytes be_value quiet_cb 4 ctr before_trace (?c n)"
      "link_step be_bytes be_value quiet_cb (sample_link n) l (sample_link m)"
      "\<And>bytes. l = KRead bytes \<Longrightarrow> prefix bytes (in_flight_down (?c n))" for ctr n l m
    using client_stepped [OF that(1), of l "sample_link m"] that(2,3) by simp
  note step = this
  have down: "prefix (wire be_bytes [9]) (in_flight_down (?c 5))"
    by (simp add: in_flight_down_def session_before_def sample_defs)
  note st = sample_link_steps
  ultimately have "connection_run be_bytes be_value quiet_cb 4 sample_trace before_trace (?c 7)"
    using step [OF step [OF step [OF step [OF step [OF step [OF step [OF _ st(1)] st(2)] st(3)] st(4)] st(5)] st(6)] st(7)] down
    by (simp add: sample_trace_def sample_labels_def)
  note up = this
  let ?s = "session_before\<lparr>se_reading := False, se_strand := [OnRead (Some (wire be_bytes [7]))]\<rparr>"
  have t1: "session_step be_bytes be_value session_before (SReadDone (wire be_bytes [7])) ?s"
    using session_step.s_read_done [of session_before "wire be_bytes [7]" be_bytes be_value] wire_facts(1,2) [of 7]
    by (simp add: session_before_def fresh_session_def Session.READ_BLOCK_SIZE_def)
  have t2: "session_step be_bytes be_value ?s (SRun (OnRead (Some (wire be_bytes [7])))) sample_session"
    using session_step.s_run [of ?s "OnRead (Some (wire be_bytes [7]))" "[]" be_bytes be_value]
    by (simp add: run_session_task_def on_read_eq wire_facts(3) Session.doRead_def sample_session_def session_before_def
        fresh_session_def)
  have "connection_run be_bytes be_value quiet_cb 4 sample_trace (before_trace @ [SReadDone (wire be_bytes [7])])
    ((?c 7)\<lparr>cn_session := ?s, cn_up_read := 9\<rparr>)"
    using session_stepped [OF up, of "SReadDone (wire be_bytes [7])" ?s] t1 wire_facts(1) [of 7]
    by (simp add: in_flight_up_def sample_defs arrived_def)
  from session_stepped [OF this, of "SRun (OnRead (Some (wire be_bytes [7])))" sample_session] t2
  show ?thesis by (simp add: arrived_def)
qed

lemma sample_disconnects: "disconnects_run sample_trace < 2 ^ 64"
  by (simp add: disconnects_run_def sample_trace_def sample_labels_def connecting_trace_def client_part_def)

theorem connection_delivers_up_witness:
  "\<exists>ps. subseq ps [[7]] \<and> ps \<noteq> [] \<and> messages 4 (se_published sample_session) = ps"
proof -
  have "client_sends sample_trace = [[7]]"
    by (simp add: client_sends_def sample_trace_def sample_labels_def connecting_trace_def client_part_def frame_ok_def
        kMaxMessageSize_def)
  moreover have "cl_open (sample_link 7)" "tc_write_queue (cl_client (sample_link 7)) = []" "cl_taken (sample_link 7) \<noteq> []"
    "length (cl_sent (sample_link 7)) = 9" by (simp_all add: sample_defs wire_facts(1))
  moreover have "reads_pending sample_session = []"
    by (simp add: reads_pending_def sample_session_def session_before_def fresh_session_def)
  ultimately show ?thesis
    using connection_delivers_up [OF be.u32_wire_axioms sample_connection sample_disconnects]
    by (auto simp: in_flight_up_def)
qed

theorem connection_delivers_down_witness: "cl_heard (sample_link 7) = [[9]]"
proof -
  have "cl_open (sample_link 7)" "\<not> tc_disconnect_requested (cl_client (sample_link 7))"
    "reads_waiting (cl_client (sample_link 7)) = []" "cl_read (sample_link 7) = wire be_bytes [9]"
    by (simp_all add: sample_defs waiting_defs)
  moreover have "\<not> write_broken sample_session" "se_writing sample_session = None" "se_write_queue sample_session = []"
    "se_sent sample_session = wire be_bytes [9]"
    by (simp_all add: write_broken_def sample_session_def session_before_def fresh_session_def)
  ultimately show ?thesis
    using connection_delivers_down [OF be.u32_wire_axioms sample_connection sample_disconnects]
    by (simp add: in_flight_down_def before_trace_def)
qed

end
